(* ===== verification/Prelude.thy ===== *)
theory Prelude
  imports Main "HOL-Library.Word" "HOL-Library.Monad_Syntax"
begin

text \<open>
  Shared vocabulary of the development: the machine integers of the Rust sources, the
  result type of code that can panic, inclusive index ranges, and the generic lemmas on
  them.

  \<^item> \<open>u64\<close>, \<open>u32\<close>, \<open>u16\<close>, \<open>u8\<close> are words of that width. The shipped binary is a release
    build and no Cargo profile turns overflow checks on, so \<open>+\<close>, \<open>-\<close> and \<open>*\<close> wrap,
    exactly as they do on words.
  \<^item> Code that can panic (a remainder by zero, a slice out of range, an \<open>assert!\<close>) has an
    \<open>option\<close> result: \<open>None\<close> is "does not return". \<open>debug_assert!\<close> is not compiled in and is
    not modelled; the conditions it states are proved where they matter.
  \<^item> Fallible code returns \<open>'e + 'a\<close>, with \<open>Inl\<close> the \<open>Err\<close> branch.
\<close>

type_synonym u8 = "8 word"
type_synonym u16 = "16 word"
type_synonym u32 = "32 word"
type_synonym u64 = "64 word"

type_synonym bytes = "u8 list"

named_theorems u64_nat \<open>word order and arithmetic on u64 read through unat\<close>

subsection \<open>Checked and saturating arithmetic of the standard library\<close>

definition u64_max :: u64 where
  "u64_max = - 1"

definition checked_add :: "u64 \<Rightarrow> u64 \<Rightarrow> u64 option" where
  "checked_add a b = (if uint a + uint b < 2 ^ 64 then Some (a + b) else None)"

text \<open>\<open>u64::try_from(n)\<close> for a \<open>usize\<close> succeeds.\<close>

definition fits_u64 :: "nat \<Rightarrow> bool" where
  "fits_u64 n \<longleftrightarrow> int n < 2 ^ 64"

definition saturating_sub :: "u64 \<Rightarrow> u64 \<Rightarrow> u64" where
  "saturating_sub a b = (if b \<le> a then a - b else 0)"

lemmas word_order_nat [u64_nat] = word_less_nat_alt word_le_nat_alt

lemma unat_u64_max [simp]: "unat u64_max = 2 ^ 64 - 1"
  by (simp add: u64_max_def unsigned_minus_1_eq_mask mask_eq_exp_minus_1)

lemma le_u64_max [simp]: "a \<le> u64_max"
  by (simp add: u64_max_def)

lemma less_u64_max_iff: "a < u64_max \<longleftrightarrow> a \<noteq> u64_max"
  by (simp add: u64_max_def word_order.not_eq_extremum)

lemma unat_u64_lt [simp]: "unat (a :: u64) < 2 ^ 64"
  using unsigned_less [of a] by simp

lemma unat_u64_lt_numeral [simp]: "unat (a :: u64) < 18446744073709551616"
  using unat_u64_lt [of a] by simp

lemma unat_u64_add:
  "unat (a :: u64) + unat b < 2 ^ 64 \<Longrightarrow> unat (a + b) = unat a + unat b"
  by (simp add: unat_word_ariths)

lemma unat_u64_Suc: "(a :: u64) \<noteq> u64_max \<Longrightarrow> unat (a + 1) = Suc (unat a)"
proof -
  assume "a \<noteq> u64_max"
  then have "a + 1 \<noteq> 0"
    by (auto simp: u64_max_def eq_neg_iff_add_eq_0)
  then show ?thesis by (simp add: unatSuc add.commute [of a 1])
qed

lemma unat_u64_of_nat: "n < 2 ^ 64 \<Longrightarrow> unat (of_nat n :: u64) = n"
  by (simp add: unat_of_nat)

lemma unat_u64_diff: "(b :: u64) \<le> a \<Longrightarrow> unat (a - b) = unat a - unat b"
  by (simp add: unat_sub word_le_nat_alt)

lemma u64_less_Suc: "(a :: u64) \<noteq> u64_max \<Longrightarrow> a < a + 1"
  by (simp add: word_less_nat_alt unat_u64_Suc)

lemma u64_Suc_le_iff: "(a :: u64) \<noteq> u64_max \<Longrightarrow> a + 1 \<le> b \<longleftrightarrow> a < b"
  by (simp add: word_less_nat_alt word_le_nat_alt unat_u64_Suc Suc_le_eq)

lemma fits_u64_iff: "fits_u64 n \<longleftrightarrow> n < 2 ^ 64"
  unfolding fits_u64_def by (metis of_nat_less_iff of_nat_numeral of_nat_power)

lemma checked_add_nat:
  "checked_add a b = (if unat a + unat b < 2 ^ 64 then Some (a + b) else None)"
proof -
  have "uint a + uint b = int (unat a + unat b)" by simp
  then have "uint a + uint b < 2 ^ 64 \<longleftrightarrow> unat a + unat b < 2 ^ 64"
    using fits_u64_iff [of "unat a + unat b"] by (simp add: fits_u64_def)
  then show ?thesis by (simp add: checked_add_def)
qed

lemma checked_add_Some_iff:
  "checked_add a b = Some c \<longleftrightarrow> unat c = unat a + unat b"
  unfolding checked_add_nat
  by (auto simp: unat_word_ariths word_unat_eq_iff [of _ c] split: if_splits)
     (metis unat_u64_lt_numeral)

lemma checked_add_None_iff: "checked_add a b = None \<longleftrightarrow> 2 ^ 64 \<le> unat a + unat b"
  by (auto simp: checked_add_nat)

lemma unat_saturating_sub [simp]: "unat (saturating_sub a b) = unat a - unat b"
  by (auto simp: saturating_sub_def unat_u64_diff word_le_nat_alt)

subsection \<open>Inclusive ranges\<close>

text \<open>\<open>range_incl a b\<close> is the sequence that \<open>a..=b\<close> iterates: empty when \<open>a > b\<close>.\<close>

definition range_incl :: "u64 \<Rightarrow> u64 \<Rightarrow> u64 list" where
  "range_incl a b = map of_nat [unat a ..< Suc (unat b)]"

lemma set_range_incl [simp]: "set (range_incl a b) = {a..b}"
proof -
  have "x \<in> of_nat ` {unat a ..< Suc (unat b)} \<longleftrightarrow> a \<le> x \<and> x \<le> b" for x
  proof
    assume "x \<in> of_nat ` {unat a ..< Suc (unat b)}"
    then obtain n where n: "x = of_nat n" "unat a \<le> n" "n \<le> unat b" by auto
    have "n < 2 ^ 64" using n(3) unat_u64_lt [of b] by linarith
    with n show "a \<le> x \<and> x \<le> b" by (simp add: word_le_nat_alt unat_u64_of_nat)
  next
    assume "a \<le> x \<and> x \<le> b"
    then have "x = of_nat (unat x)" "unat x \<in> {unat a ..< Suc (unat b)}"
      by (auto simp: word_le_nat_alt)
    then show "x \<in> of_nat ` {unat a ..< Suc (unat b)}" by blast
  qed
  then show ?thesis by (simp add: range_incl_def set_eq_iff del: upt_Suc)
qed

lemma range_incl_empty: "b < a \<Longrightarrow> range_incl a b = []"
  by (simp add: range_incl_def word_less_nat_alt)

lemma length_range_incl: "length (range_incl a b) = Suc (unat b) - unat a"
  by (auto simp: range_incl_def)

text \<open>\<open>range_excl a b\<close> is the sequence that \<open>a..b\<close> iterates.\<close>

definition range_excl :: "u64 \<Rightarrow> u64 \<Rightarrow> u64 list" where
  "range_excl a b = map of_nat [unat a ..< unat b]"

lemma set_range_excl [simp]: "set (range_excl a b) = {a..<b}"
proof -
  have "x \<in> of_nat ` {unat a ..< unat b} \<longleftrightarrow> a \<le> x \<and> x < b" for x
  proof
    assume "x \<in> of_nat ` {unat a ..< unat b}"
    then obtain n where n: "x = of_nat n" "unat a \<le> n" "n < unat b" by auto
    have "n < 2 ^ 64" using n(3) unat_u64_lt [of b] by linarith
    with n show "a \<le> x \<and> x < b"
      by (simp add: word_le_nat_alt word_less_nat_alt unat_u64_of_nat)
  next
    assume "a \<le> x \<and> x < b"
    then have "x = of_nat (unat x)" "unat x \<in> {unat a ..< unat b}"
      by (auto simp: word_le_nat_alt word_less_nat_alt)
    then show "x \<in> of_nat ` {unat a ..< unat b}" by blast
  qed
  then show ?thesis by (simp add: range_excl_def set_eq_iff)
qed

subsection \<open>Lists, options and results\<close>

text \<open>\<open>Iterator::find_map\<close> and \<open>Iterator::filter_map\<close>.\<close>

fun find_map :: "('a \<Rightarrow> 'b option) \<Rightarrow> 'a list \<Rightarrow> 'b option" where
  "find_map f [] = None"
| "find_map f (x # xs) = (case f x of None \<Rightarrow> find_map f xs | Some y \<Rightarrow> Some y)"

lemma find_map_None_iff: "find_map f xs = None \<longleftrightarrow> (\<forall>x \<in> set xs. f x = None)"
  by (induction xs) (auto split: option.splits)

lemma find_map_SomeD: "find_map f xs = Some y \<Longrightarrow> \<exists>x \<in> set xs. f x = Some y"
  by (induction xs) (auto split: option.splits)

lemma find_map_append:
  "find_map f (xs @ ys) = (case find_map f xs of None \<Rightarrow> find_map f ys | Some y \<Rightarrow> Some y)"
  by (induction xs) (auto split: option.splits)

lemma find_SomeD: "find P xs = Some x \<Longrightarrow> x \<in> set xs \<and> P x"
  by (auto simp: find_Some_iff)

text \<open>\<open>?\<close> on a \<open>Result\<close>: an error returns at once.\<close>

definition try_bind :: "'e + 'a \<Rightarrow> ('a \<Rightarrow> 'e + 'b) \<Rightarrow> 'e + 'b" where
  "try_bind r f = (case r of Inl e \<Rightarrow> Inl e | Inr x \<Rightarrow> f x)"

lemma try_bind_simps [simp]:
  "try_bind (Inl e) f = Inl e"
  "try_bind (Inr x) f = f x"
  by (simp_all add: try_bind_def)

lemma try_bind_Inr_iff: "try_bind r f = Inr y \<longleftrightarrow> (\<exists>x. r = Inr x \<and> f x = Inr y)"
  by (cases r) auto

lemma try_bind_Inl_iff:
  "try_bind r f = Inl e \<longleftrightarrow> r = Inl e \<or> (\<exists>x. r = Inr x \<and> f x = Inl e)"
  by (cases r) auto

end
