(* ===== verification/Collections.thy ===== *)
theory Collections
  imports Prelude
begin

text \<open>
  The ordered collections of the standard library that the sources use. A \<open>BTreeSet\<close> is a
  strictly increasing list and a \<open>BTreeMap\<close> an association list with strictly increasing
  keys; both invariants are carried by the type, as they are in Rust. Two locales state the
  contracts the other components rely on (what a membership test or a lookup gives after an
  update, and that iteration is in key order), and both types are shown to meet them.
\<close>

section \<open>Strictly increasing lists\<close>

lemma strict_insort_insert:
  fixes xs :: "'a :: linorder list"
  shows "sorted_wrt (<) xs \<Longrightarrow> sorted_wrt (<) (insort_insert x xs)"
  by (auto simp: strict_sorted_iff insort_insert_key_def sorted_insort distinct_insort)

lemma strict_remove1:
  fixes xs :: "'a :: linorder list"
  shows "sorted_wrt (<) xs \<Longrightarrow> sorted_wrt (<) (remove1 x xs)"
  by (simp add: strict_sorted_iff sorted_remove1)

lemma strict_filter: "sorted_wrt (<) xs \<Longrightarrow> sorted_wrt (<) (filter P xs)"
  by (induction xs) auto

lemma strict_sorted_list_of:
  "sorted_wrt (<) (sort (remdups xs) :: 'a :: linorder list)"
  by (simp add: strict_sorted_iff)

lemma strict_equal_set:
  fixes xs ys :: "'a :: linorder list"
  assumes "sorted_wrt (<) xs" "sorted_wrt (<) ys" "set xs = set ys"
  shows "xs = ys"
  using assms by (simp add: strict_sorted_iff sorted_distinct_set_unique)

section \<open>BTreeSet\<close>

typedef (overloaded) 'a btreeset = "{xs :: 'a :: linorder list. sorted_wrt (<) xs}"
  morphisms iter BTreeSet
  by (rule exI [of _ "[]"]) simp

setup_lifting type_definition_btreeset

lift_definition bts_empty :: "'a :: linorder btreeset" is "[]" by simp

lift_definition bts_insert :: "'a :: linorder \<Rightarrow> 'a btreeset \<Rightarrow> 'a btreeset"
  is insort_insert by (rule strict_insort_insert)

lift_definition bts_remove :: "'a :: linorder \<Rightarrow> 'a btreeset \<Rightarrow> 'a btreeset"
  is remove1 by (rule strict_remove1)

lift_definition bts_of_list :: "'a :: linorder list \<Rightarrow> 'a btreeset"
  is "\<lambda>xs. sort (remdups xs)" by (rule strict_sorted_list_of)

definition bts_contains :: "'a :: linorder btreeset \<Rightarrow> 'a \<Rightarrow> bool" where
  "bts_contains s x \<longleftrightarrow> x \<in> set (iter s)"

definition bts_len :: "'a :: linorder btreeset \<Rightarrow> nat" where
  "bts_len s = length (iter s)"

definition bts_is_empty :: "'a :: linorder btreeset \<Rightarrow> bool" where
  "bts_is_empty s \<longleftrightarrow> iter s = []"

definition bts_union :: "'a :: linorder btreeset \<Rightarrow> 'a btreeset \<Rightarrow> 'a btreeset" where
  "bts_union s t = bts_of_list (iter s @ iter t)"

text \<open>The set a \<open>BTreeSet\<close> stands for.\<close>

definition elems :: "'a :: linorder btreeset \<Rightarrow> 'a set" where
  "elems s = set (iter s)"

lemma iter_strict [simp]: "sorted_wrt (<) (iter s)"
  using iter [of s] by simp

lemma iter_distinct [simp]: "distinct (iter s)"
  using iter_strict [of s] by (simp add: strict_sorted_iff del: iter_strict)

lemma finite_elems [simp]: "finite (elems s)"
  by (simp add: elems_def)

lemma set_iter [simp]: "set (iter s) = elems s"
  by (simp add: elems_def)

lemma bts_contains_iff [simp]: "bts_contains s x \<longleftrightarrow> x \<in> elems s"
  by (simp add: bts_contains_def)

lemma bts_len_card: "bts_len s = card (elems s)"
  using distinct_card [OF iter_distinct, of s] by (simp add: bts_len_def)

lemma bts_is_empty_iff [simp]: "bts_is_empty s \<longleftrightarrow> elems s = {}"
  by (simp add: bts_is_empty_def flip: set_iter)

lemma bts_eq_iff: "s = t \<longleftrightarrow> elems s = elems t"
  using strict_equal_set [OF iter_strict iter_strict, of s t] by (auto simp: iter_inject)

lemma elems_empty [simp]: "elems bts_empty = {}"
  unfolding elems_def by transfer simp

lemma elems_insert [simp]: "elems (bts_insert x s) = insert x (elems s)"
  unfolding elems_def by transfer (auto simp: set_insort_insert)

lemma elems_remove [simp]: "elems (bts_remove x s) = elems s - {x}"
  unfolding elems_def by transfer (auto simp: strict_sorted_iff)

lemma elems_of_list [simp]: "elems (bts_of_list xs) = set xs"
  unfolding elems_def by transfer simp

lemma elems_union [simp]: "elems (bts_union s t) = elems s \<union> elems t"
  by (simp add: bts_union_def)

lemma length_filter_iter: "length (filter P (iter s)) = card {x \<in> elems s. P x}"
proof -
  have "length (filter P (iter s)) = card (set (filter P (iter s)))"
    by (rule distinct_card [symmetric]) simp
  then show ?thesis by simp
qed

text \<open>Evaluation rules: the iteration order of a set built by the constructors.\<close>

lemmas bts_eval =
  bts_empty.rep_eq bts_insert.rep_eq bts_remove.rep_eq bts_of_list.rep_eq
  insort_insert_key_def bts_union_def bts_len_def elems_def

instantiation btreeset :: (linorder) equal
begin

definition equal_btreeset :: "'a btreeset \<Rightarrow> 'a btreeset \<Rightarrow> bool" where
  "equal_btreeset s t \<longleftrightarrow> iter s = iter t"

instance
  by standard (simp add: equal_btreeset_def iter_inject)

end

text \<open>The contract of an ordered set.\<close>

locale ordered_set =
  fixes member :: "'s \<Rightarrow> 'a :: linorder \<Rightarrow> bool"
    and insert_op :: "'a \<Rightarrow> 's \<Rightarrow> 's"
    and remove_op :: "'a \<Rightarrow> 's \<Rightarrow> 's"
    and items :: "'s \<Rightarrow> 'a list"
  assumes member_items: "member s x \<longleftrightarrow> x \<in> set (items s)"
    and member_insert: "member (insert_op y s) x \<longleftrightarrow> x = y \<or> member s x"
    and member_remove: "member (remove_op y s) x \<longleftrightarrow> x \<noteq> y \<and> member s x"
    and items_sorted: "sorted_wrt (<) (items s)"
    and items_inject: "items s = items t \<Longrightarrow> s = t"
begin

lemma extensional: "(\<And>x. member s x \<longleftrightarrow> member t x) \<Longrightarrow> s = t"
  by (rule items_inject, rule strict_equal_set) (auto simp: items_sorted member_items)

lemma insert_present: "member s x \<Longrightarrow> insert_op x s = s"
  by (rule extensional) (auto simp: member_insert)

lemma remove_insert: "\<not> member s x \<Longrightarrow> remove_op x (insert_op x s) = s"
  by (rule extensional) (auto simp: member_insert member_remove)

lemma length_insert:
  "\<not> member s x \<Longrightarrow> length (items (insert_op x s)) = Suc (length (items s))"
proof -
  assume new: "\<not> member s x"
  have "set (items (insert_op x s)) = insert x (set (items s))"
    using member_insert member_items by auto
  moreover have "distinct (items t)" for t
    using items_sorted [of t] by (simp add: strict_sorted_iff)
  ultimately show ?thesis
    using new by (metis List.finite_set card_insert_disjoint distinct_card member_items)
qed

lemma length_remove:
  "member s x \<Longrightarrow> Suc (length (items (remove_op x s))) = length (items s)"
proof -
  assume mem: "member s x"
  have "insert_op x (remove_op x s) = s"
    using mem by (intro extensional) (auto simp: member_insert member_remove)
  moreover have "\<not> member (remove_op x s) x" by (simp add: member_remove)
  ultimately show ?thesis using length_insert [of "remove_op x s" x] by simp
qed

end

interpretation bts: ordered_set bts_contains bts_insert bts_remove iter
  by unfold_locales (auto simp: iter_inject)

section \<open>BTreeMap\<close>

fun assoc_insert :: "'k :: linorder \<Rightarrow> 'v \<Rightarrow> ('k \<times> 'v) list \<Rightarrow> ('k \<times> 'v) list" where
  "assoc_insert k v [] = [(k, v)]"
| "assoc_insert k v ((k', v') # ps) =
    (if k' < k then (k', v') # assoc_insert k v ps
     else if k' = k then (k, v) # ps
     else (k, v) # (k', v') # ps)"

lemma keys_assoc_insert: "fst ` set (assoc_insert k v ps) = insert k (fst ` set ps)"
  by (induction k v ps rule: assoc_insert.induct) (simp_all add: insert_commute)

lemma strict_assoc_insert:
  "sorted_wrt (<) (map fst ps) \<Longrightarrow> sorted_wrt (<) (map fst (assoc_insert k v ps))"
proof (induction ps)
  case (Cons p ps)
  obtain a b where p: "p = (a, b)" by (cases p)
  have "\<forall>q \<in> set (assoc_insert k v ps). fst q \<in> insert k (fst ` set ps)"
    using keys_assoc_insert [of k v ps] by blast
  with Cons p show ?case by fastforce
qed simp

lemma strict_filter_keys:
  "sorted_wrt (<) (map fst ps) \<Longrightarrow> sorted_wrt (<) (map fst (filter P ps))"
  by (induction ps) auto

lemma map_of_filter_key:
  "map_of (filter (\<lambda>p. fst p \<noteq> k) ps) k' = (if k' = k then None else map_of ps k')"
  by (induction ps) auto

lemma map_of_assoc_insert: "map_of (assoc_insert k v ps) = (map_of ps)(k \<mapsto> v)"
  by (induction ps) auto

typedef (overloaded) ('k, 'v) btreemap =
  "{ps :: ('k :: linorder \<times> 'v) list. sorted_wrt (<) (map fst ps)}"
  morphisms entries_of BTreeMap
  by (rule exI [of _ "[]"]) simp

setup_lifting type_definition_btreemap

lift_definition bm_empty :: "('k :: linorder, 'v) btreemap" is "[]" by simp

lift_definition bm_insert ::
    "'k :: linorder \<Rightarrow> 'v \<Rightarrow> ('k, 'v) btreemap \<Rightarrow> ('k, 'v) btreemap"
  is assoc_insert by (rule strict_assoc_insert)

lift_definition bm_remove :: "'k :: linorder \<Rightarrow> ('k, 'v) btreemap \<Rightarrow> ('k, 'v) btreemap"
  is "\<lambda>k. filter (\<lambda>p. fst p \<noteq> k)"
  by (rule strict_filter_keys)

definition bm_get :: "('k :: linorder, 'v) btreemap \<Rightarrow> 'k \<Rightarrow> 'v option" where
  "bm_get m k = map_of (entries_of m) k"

definition bm_keys :: "('k :: linorder, 'v) btreemap \<Rightarrow> 'k list" where
  "bm_keys m = map fst (entries_of m)"

lemma bm_keys_strict [simp]: "sorted_wrt (<) (bm_keys m)"
  using entries_of [of m] by (simp add: bm_keys_def)

lemma bm_keys_distinct [simp]: "distinct (bm_keys m)"
  using bm_keys_strict [of m] by (simp add: strict_sorted_iff del: bm_keys_strict)

lemma bm_get_empty [simp]: "bm_get bm_empty k = None"
  unfolding bm_get_def by transfer simp

lemma bm_get_insert: "bm_get (bm_insert k v m) k' = (if k' = k then Some v else bm_get m k')"
  unfolding bm_get_def by transfer (simp add: map_of_assoc_insert)

lemma bm_get_remove: "bm_get (bm_remove k m) k' = (if k' = k then None else bm_get m k')"
  unfolding bm_get_def by transfer (simp add: map_of_filter_key)

lemma in_entries_iff: "(k, v) \<in> set (entries_of m) \<longleftrightarrow> bm_get m k = Some v"
  using bm_keys_distinct [of m] by (simp add: bm_get_def bm_keys_def)

lemma bm_keys_iff: "k \<in> set (bm_keys m) \<longleftrightarrow> bm_get m k \<noteq> None"
  by (auto simp: bm_get_def bm_keys_def map_of_eq_None_iff)

lemmas bm_eval = bm_empty.rep_eq bm_insert.rep_eq bm_remove.rep_eq bm_get_def bm_keys_def

text \<open>The contract of an ordered map.\<close>

locale ordered_map =
  fixes lookup :: "'m \<Rightarrow> 'k :: linorder \<Rightarrow> 'v option"
    and update :: "'k \<Rightarrow> 'v \<Rightarrow> 'm \<Rightarrow> 'm"
    and delete :: "'k \<Rightarrow> 'm \<Rightarrow> 'm"
    and pairs :: "'m \<Rightarrow> ('k \<times> 'v) list"
  assumes lookup_pairs: "lookup m k = map_of (pairs m) k"
    and lookup_update: "lookup (update k v m) k' = (if k' = k then Some v else lookup m k')"
    and lookup_delete: "lookup (delete k m) k' = (if k' = k then None else lookup m k')"
    and pairs_sorted: "sorted_wrt (<) (map fst (pairs m))"
    and pairs_inject: "pairs m = pairs m' \<Longrightarrow> m = m'"
begin

lemma pairs_iff: "(k, v) \<in> set (pairs m) \<longleftrightarrow> lookup m k = Some v"
  using pairs_sorted [of m] by (simp add: lookup_pairs strict_sorted_iff)

lemma keys_iff: "k \<in> fst ` set (pairs m) \<longleftrightarrow> lookup m k \<noteq> None"
  by (auto simp: lookup_pairs map_of_eq_None_iff)

lemma map_extensional: "(\<And>k. lookup m k = lookup m' k) \<Longrightarrow> m = m'"
proof (rule pairs_inject)
  assume eq: "\<And>k. lookup m k = lookup m' k"
  have same: "set (pairs m) = set (pairs m')"
    using eq pairs_iff by auto
  have so: "sorted (map fst (pairs n))" and di: "distinct (map fst (pairs n))" for n
    using pairs_sorted [of n] by (simp_all add: strict_sorted_iff)
  have "inj_on fst (set (pairs m) \<union> set (pairs m'))"
    using same di [of m] by (simp add: distinct_map)
  then show "pairs m = pairs m'"
    by (rule map_sorted_distinct_set_unique) (simp_all only: so di same)
qed

end

interpretation bm: ordered_map bm_get bm_insert bm_remove entries_of
  by unfold_locales
     (auto simp: bm_get_def entries_of_inject bm_get_insert [unfolded bm_get_def]
       bm_get_remove [unfolded bm_get_def] intro: bm_keys_strict [unfolded bm_keys_def])

end
