(* ===== verification/Membership.thy ===== *)
theory Membership
  imports Collections
begin

text \<open>
  Cluster membership: \<open>basisdb-raft/src/raft/membership.rs\<close> and the identifiers of
  \<open>basisdb-raft/src/lib.rs\<close>. A configuration is a voter set with learners, or a joint pair of
  voter sets; a configuration change is validated against the current configuration and
  applied to give the next one. The quorum predicate of the code is shown to be a quorum
  system (it is monotone and any two quorums share a voter), and every validated change
  keeps the configurations well formed and the quorums of two successive configurations
  overlapping.
\<close>

section \<open>Identifiers\<close>

datatype NodeId = NodeId (node_num: u64)

type_synonym LogIndex = u64
type_synonym Term = u64

instantiation NodeId :: linorder
begin

definition less_eq_NodeId :: "NodeId \<Rightarrow> NodeId \<Rightarrow> bool" where
  "less_eq_NodeId a b \<longleftrightarrow> node_num a \<le> node_num b"

definition less_NodeId :: "NodeId \<Rightarrow> NodeId \<Rightarrow> bool" where
  "less_NodeId a b \<longleftrightarrow> node_num a < node_num b"

instance
  by standard (auto simp: less_eq_NodeId_def less_NodeId_def NodeId.expand)

end

lemma NodeId_order_simps [simp]:
  "NodeId a \<le> NodeId b \<longleftrightarrow> a \<le> b"
  "NodeId a < NodeId b \<longleftrightarrow> a < b"
  by (simp_all add: less_eq_NodeId_def less_NodeId_def)

record ReplicaConfig =
  rc_voters :: "NodeId list"
  rc_learners :: "NodeId list"

definition replica_config_new :: "NodeId list \<Rightarrow> ReplicaConfig" where
  "replica_config_new vs = \<lparr>rc_voters = vs, rc_learners = []\<rparr>"

definition rc_quorum_size :: "ReplicaConfig \<Rightarrow> nat" where
  "rc_quorum_size rc = length (rc_voters rc) div 2 + 1"

definition rc_is_voter :: "ReplicaConfig \<Rightarrow> NodeId \<Rightarrow> bool" where
  "rc_is_voter rc i \<longleftrightarrow> i \<in> set (rc_voters rc)"

definition rc_is_learner :: "ReplicaConfig \<Rightarrow> NodeId \<Rightarrow> bool" where
  "rc_is_learner rc i \<longleftrightarrow> i \<in> set (rc_learners rc)"

definition rc_all_nodes :: "ReplicaConfig \<Rightarrow> NodeId list" where
  "rc_all_nodes rc = rc_voters rc @ rc_learners rc"

section \<open>Configurations\<close>

datatype MembershipMode = SingleServer | JointConsensus

type_synonym NodeSet = "NodeId btreeset"

datatype Configuration =
  Simple (simple_voters: NodeSet) (simple_learners: NodeSet)
| Joint (joint_old: NodeSet) (joint_new: NodeSet) (joint_learners: NodeSet)

definition simple :: "NodeId list \<Rightarrow> Configuration" where
  "simple vs = Simple (bts_of_list vs) bts_empty"

definition simple_with_learners :: "NodeId list \<Rightarrow> NodeId list \<Rightarrow> Configuration" where
  "simple_with_learners vs ls = Simple (bts_of_list vs) (bts_of_list ls)"

definition joint :: "NodeId list \<Rightarrow> NodeId list \<Rightarrow> Configuration" where
  "joint old new = Joint (bts_of_list old) (bts_of_list new) bts_empty"

definition joint_with_learners ::
    "NodeId list \<Rightarrow> NodeId list \<Rightarrow> NodeId list \<Rightarrow> Configuration" where
  "joint_with_learners old new ls =
    Joint (bts_of_list old) (bts_of_list new) (bts_of_list ls)"

fun voters :: "Configuration \<Rightarrow> NodeId list" where
  "voters (Simple vs ls) = iter vs"
| "voters (Joint old new ls) =
    iter old @ filter (\<lambda>i. \<not> bts_contains old i) (iter new)"

fun is_voter :: "Configuration \<Rightarrow> NodeId \<Rightarrow> bool" where
  "is_voter (Simple vs ls) i \<longleftrightarrow> bts_contains vs i"
| "is_voter (Joint old new ls) i \<longleftrightarrow> bts_contains old i \<or> bts_contains new i"

fun is_learner :: "Configuration \<Rightarrow> NodeId \<Rightarrow> bool" where
  "is_learner (Simple vs ls) i \<longleftrightarrow> bts_contains ls i"
| "is_learner (Joint old new ls) i \<longleftrightarrow> bts_contains ls i"

fun learners :: "Configuration \<Rightarrow> NodeId list" where
  "learners (Simple vs ls) = iter ls"
| "learners (Joint old new ls) = iter ls"

fun voter_count :: "Configuration \<Rightarrow> nat" where
  "voter_count (Simple vs ls) = bts_len vs"
| "voter_count (Joint old new ls) =
    bts_len old + length (filter (\<lambda>i. \<not> bts_contains old i) (iter new))"

definition voter_peers :: "Configuration \<Rightarrow> NodeId \<Rightarrow> NodeId list" where
  "voter_peers c me = filter (\<lambda>i. i \<noteq> me) (voters c)"

definition all_nodes :: "Configuration \<Rightarrow> NodeId list" where
  "all_nodes c = voters c @ learners c"

definition replication_peers :: "Configuration \<Rightarrow> NodeId \<Rightarrow> NodeId list" where
  "replication_peers c me = filter (\<lambda>i. i \<noteq> me) (all_nodes c)"

definition is_member :: "Configuration \<Rightarrow> NodeId \<Rightarrow> bool" where
  "is_member c i \<longleftrightarrow> is_voter c i \<or> is_learner c i"

fun is_joint :: "Configuration \<Rightarrow> bool" where
  "is_joint (Simple vs ls) \<longleftrightarrow> False"
| "is_joint (Joint old new ls) \<longleftrightarrow> True"

fun quorum_sizes :: "Configuration \<Rightarrow> nat \<times> nat option" where
  "quorum_sizes (Simple vs ls) = (bts_len vs div 2 + 1, None)"
| "quorum_sizes (Joint old new ls) =
    (bts_len old div 2 + 1, Some (bts_len new div 2 + 1))"

fun has_quorum :: "Configuration \<Rightarrow> (NodeId \<Rightarrow> bool) \<Rightarrow> bool" where
  "has_quorum (Simple vs ls) has_vote =
    (let votes = length (filter has_vote (iter vs)) in votes > bts_len vs div 2)"
| "has_quorum (Joint old new ls) has_vote =
    (let old_votes = length (filter has_vote (iter old));
         new_votes = length (filter has_vote (iter new))
     in old_votes > bts_len old div 2 \<and> new_votes > bts_len new div 2)"

text \<open>The two loops of \<open>voter_membership\<close> share the \<open>seen\<close> set; the second one pushes only
  what \<open>seen.insert\<close> reports as new.\<close>

fun push_old ::
    "NodeSet \<Rightarrow> NodeId list \<Rightarrow> (NodeId \<times> bool \<times> bool) list \<times> NodeId set
      \<Rightarrow> (NodeId \<times> bool \<times> bool) list \<times> NodeId set" where
  "push_old new [] st = st"
| "push_old new (i # is) (result, seen) =
    push_old new is (result @ [(i, True, bts_contains new i)], insert i seen)"

fun push_new ::
    "NodeId list \<Rightarrow> (NodeId \<times> bool \<times> bool) list \<times> NodeId set
      \<Rightarrow> (NodeId \<times> bool \<times> bool) list \<times> NodeId set" where
  "push_new [] st = st"
| "push_new (i # is) (result, seen) =
    (if i \<in> seen then push_new is (result, seen)
     else push_new is (result @ [(i, False, True)], insert i seen))"

fun voter_membership :: "Configuration \<Rightarrow> (NodeId \<times> bool \<times> bool) list" where
  "voter_membership (Simple vs ls) = map (\<lambda>i. (i, True, True)) (iter vs)"
| "voter_membership (Joint old new ls) =
    fst (push_new (iter new) (push_old new (iter old) ([], {})))"

fun transition_target :: "Configuration \<Rightarrow> Configuration option" where
  "transition_target (Simple vs ls) = None"
| "transition_target (Joint old new ls) = Some (Simple new ls)"

definition default_configuration :: Configuration where
  "default_configuration = Simple bts_empty bts_empty"

section \<open>Configuration changes\<close>

datatype ConfigChangeError =
  ChangeInProgress
| AlreadyVoter NodeId
| AlreadyLearner NodeId
| Overlap NodeId
| PromoteRequiresLearner NodeId
| LearnerNotCaughtUp NodeId u64 u64
| NotVoter NodeId
| NotLearner NodeId
| WouldBeEmpty
| NoChange
| NotSingleChange nat nat
| CcNotLeader

record Members =
  mem_voters :: "NodeId list"
  mem_learners :: "NodeId list"

fun collect_learners ::
    "NodeSet \<Rightarrow> NodeId list \<Rightarrow> NodeSet \<Rightarrow> ConfigChangeError + NodeSet" where
  "collect_learners voter_set [] learner_set = Inr learner_set"
| "collect_learners voter_set (i # is) learner_set =
    (if bts_contains voter_set i then Inl (Overlap i)
     else collect_learners voter_set is (bts_insert i learner_set))"

definition members_new :: "NodeId list \<Rightarrow> NodeId list \<Rightarrow> ConfigChangeError + Members" where
  "members_new vs ls =
    (let voter_set = fold bts_insert vs bts_empty in
     try_bind (collect_learners voter_set ls bts_empty) (\<lambda>learner_set.
       Inr \<lparr>mem_voters = iter voter_set, mem_learners = iter learner_set\<rparr>))"

datatype ConfigChange =
  AddVoter NodeId
| RemoveVoter NodeId
| AddLearner NodeId
| RemoveLearner NodeId
| SetMembers Members

fun validate_simple ::
    "ConfigChange \<Rightarrow> NodeSet \<Rightarrow> NodeSet \<Rightarrow> MembershipMode \<Rightarrow> ConfigChangeError + unit" where
  "validate_simple (AddVoter i) vs ls mode =
    (if bts_contains vs i then Inl (AlreadyVoter i)
     else if \<not> bts_contains ls i then Inl (PromoteRequiresLearner i)
     else Inr ())"
| "validate_simple (RemoveVoter i) vs ls mode =
    (if \<not> bts_contains vs i then Inl (NotVoter i)
     else if bts_len vs = 1 then Inl WouldBeEmpty
     else Inr ())"
| "validate_simple (AddLearner i) vs ls mode =
    (if bts_contains vs i then Inl (AlreadyVoter i)
     else if bts_contains ls i then Inl (AlreadyLearner i)
     else Inr ())"
| "validate_simple (RemoveLearner i) vs ls mode =
    (if \<not> bts_contains ls i then Inl (NotLearner i) else Inr ())"
| "validate_simple (SetMembers members) vs ls mode =
    (let new_voters = bts_of_list (mem_voters members);
         new_learners = bts_of_list (mem_learners members);
         added = filter (\<lambda>i. \<not> bts_contains vs i) (iter new_voters);
         removed = filter (\<lambda>i. \<not> bts_contains new_voters i) (iter vs)
     in if new_voters = vs \<and> new_learners = ls then Inl NoChange
        else if mode = SingleServer \<and> length added + length removed > 1
          then Inl (NotSingleChange (length added) (length removed))
        else if bts_is_empty new_voters then Inl WouldBeEmpty
        else case find (\<lambda>i. bts_contains new_learners i) (iter new_voters) of
               Some i \<Rightarrow> Inl (AlreadyVoter i)
             | None \<Rightarrow> Inr ())"

definition validate ::
    "ConfigChange \<Rightarrow> Configuration \<Rightarrow> MembershipMode \<Rightarrow> ConfigChangeError + unit" where
  "validate change current mode =
    (case current of
       Joint old new ls \<Rightarrow> Inl ChangeInProgress
     | Simple vs ls \<Rightarrow> validate_simple change vs ls mode)"

fun apply_to_sets ::
    "ConfigChange \<Rightarrow> NodeSet \<Rightarrow> NodeSet \<Rightarrow> MembershipMode \<Rightarrow> Configuration" where
  "apply_to_sets (AddVoter i) vs ls mode = Simple (bts_insert i vs) (bts_remove i ls)"
| "apply_to_sets (RemoveVoter i) vs ls mode = Simple (bts_remove i vs) ls"
| "apply_to_sets (AddLearner i) vs ls mode = Simple vs (bts_insert i ls)"
| "apply_to_sets (RemoveLearner i) vs ls mode = Simple vs (bts_remove i ls)"
| "apply_to_sets (SetMembers members) vs ls mode =
    (let new_voters = bts_of_list (mem_voters members);
         new_learners = bts_of_list (mem_learners members)
     in if mode = JointConsensus \<and> vs \<noteq> new_voters
        then Joint vs new_voters new_learners
        else Simple new_voters new_learners)"

definition apply_change ::
    "ConfigChange \<Rightarrow> Configuration \<Rightarrow> MembershipMode \<Rightarrow> Configuration" where
  "apply_change change current mode =
    (case current of
       Simple vs ls \<Rightarrow> apply_to_sets change vs ls mode
     | Joint old new ls \<Rightarrow> apply_to_sets change new ls mode)"

section \<open>Quorums\<close>

text \<open>The contract of a quorum system: enlarging the set of votes keeps a quorum, and two
  quorums share a member of the electorate.\<close>

locale quorum_system =
  fixes quorum :: "('n \<Rightarrow> bool) \<Rightarrow> bool"
    and electorate :: "'n set"
  assumes quorum_mono:
      "quorum P \<Longrightarrow> (\<And>n. n \<in> electorate \<Longrightarrow> P n \<Longrightarrow> Q n) \<Longrightarrow> quorum Q"
    and quorum_meet: "quorum P \<Longrightarrow> quorum Q \<Longrightarrow> \<exists>n \<in> electorate. P n \<and> Q n"
begin

lemma quorum_nonempty: "quorum P \<Longrightarrow> \<exists>n \<in> electorate. P n"
  using quorum_meet by blast

lemma quorum_not_complement: "quorum P \<Longrightarrow> \<not> quorum (\<lambda>n. \<not> P n)"
  using quorum_meet by blast

text \<open>If every member backs at most one value, at most one value has a quorum.\<close>

lemma quorum_unique:
  assumes "\<And>n x y. n \<in> electorate \<Longrightarrow> backs n x \<Longrightarrow> backs n y \<Longrightarrow> x = y"
    and "quorum (\<lambda>n. backs n a)" and "quorum (\<lambda>n. backs n b)"
  shows "a = b"
  using quorum_meet [OF assms(2,3)] assms(1) by blast

end

text \<open>Counting: a majority of \<open>A\<close> and a majority of \<open>B\<close> meet when the two sets are equal or
  differ in one element.\<close>

lemma majorities_meet:
  assumes fin: "finite A" "finite B"
    and close: "card (A - B) + card (B - A) \<le> 1"
    and p: "card A div 2 < card {x \<in> A. P x}"
    and q: "card B div 2 < card {x \<in> B. Q x}"
  shows "\<exists>x \<in> A \<inter> B. P x \<and> Q x"
proof (rule ccontr)
  assume "\<not> ?thesis"
  then have disj: "{x \<in> A. P x} \<inter> {x \<in> B. Q x} = {}" by blast
  have "{x \<in> A. P x} \<union> {x \<in> B. Q x} \<subseteq> A \<union> B" by blast
  then have "card {x \<in> A. P x} + card {x \<in> B. Q x} \<le> card (A \<union> B)"
    using fin disj by (metis (no_types, lifting) card_Un_disjoint card_mono finite_Un
        finite_subset le_sup_iff)
  moreover have "card (A \<union> B) = card A + card (B - A)"
    using fin by (metis Diff_disjoint Un_Diff_cancel card_Un_disjoint finite_Diff)
  moreover have "card (A \<union> B) = card B + card (A - B)"
    using fin by (metis Diff_disjoint Un_Diff_cancel card_Un_disjoint finite_Diff sup_commute)
  ultimately show False using close p q by linarith
qed

lemma has_quorum_simple_iff:
  "has_quorum (Simple vs ls) P \<longleftrightarrow>
    card (elems vs) div 2 < card {v \<in> elems vs. P v}"
  by (simp add: length_filter_iter bts_len_card)

lemma has_quorum_joint_iff:
  "has_quorum (Joint old new ls) P \<longleftrightarrow>
    has_quorum (Simple old ls) P \<and> has_quorum (Simple new ls) P"
  by (simp add: Let_def)

lemma has_quorum_learners: "has_quorum (Simple vs ls) P = has_quorum (Simple vs ls') P"
  by simp

lemmas has_quorum_iffs = has_quorum_joint_iff has_quorum_simple_iff
lemmas has_quorum_simps [simp del] = has_quorum.simps

lemma set_voters [simp]: "set (voters c) = {v. is_voter c v}"
  by (cases c) auto

lemma finite_is_voter [simp]: "finite {v. is_voter c v}"
  using List.finite_set [of "voters c"] by simp

lemma distinct_voters [simp]: "distinct (voters c)"
  by (cases c) auto

lemma voter_count_card: "voter_count c = card {v. is_voter c v}"
proof -
  have "voter_count c = length (voters c)"
    by (cases c) (simp_all add: bts_len_def)
  also have "\<dots> = card (set (voters c))"
    by (rule distinct_card [symmetric]) simp
  finally show ?thesis by simp
qed

lemma simple_quorum_mono:
  assumes q: "has_quorum (Simple vs ls) P" and le: "\<And>v. v \<in> elems vs \<Longrightarrow> P v \<Longrightarrow> Q v"
  shows "has_quorum (Simple vs ls) Q"
proof -
  have "card {v \<in> elems vs. P v} \<le> card {v \<in> elems vs. Q v}"
    using le by (intro card_mono) auto
  with q show ?thesis by (simp add: has_quorum_simple_iff)
qed

lemma simple_quorums_meet:
  assumes "has_quorum (Simple vs ls) P" "has_quorum (Simple vs' ls') Q"
    and "card (elems vs - elems vs') + card (elems vs' - elems vs) \<le> 1"
  shows "\<exists>v \<in> elems vs \<inter> elems vs'. P v \<and> Q v"
  using assms by (intro majorities_meet) (simp_all add: has_quorum_simple_iff)

lemma same_voters_meet:
  assumes "has_quorum (Simple vs ls) P" "has_quorum (Simple vs ls') Q"
  shows "\<exists>v \<in> elems vs. P v \<and> Q v"
  using simple_quorums_meet [OF assms] by auto

lemma quorum_mono_config:
  assumes "has_quorum c P" "\<And>v. is_voter c v \<Longrightarrow> P v \<Longrightarrow> Q v"
  shows "has_quorum c Q"
  using assms by (cases c) (auto simp: has_quorum_joint_iff intro: simple_quorum_mono)

lemma quorum_meet_config:
  assumes "has_quorum c P" "has_quorum c Q"
  shows "\<exists>v. is_voter c v \<and> P v \<and> Q v"
  using assms
  by (cases c) (auto simp: has_quorum_joint_iff dest: same_voters_meet)

interpretation config_quorum: quorum_system "has_quorum c" "{v. is_voter c v}" for c
proof
  show "has_quorum c P \<Longrightarrow> (\<And>n. n \<in> {v. is_voter c v} \<Longrightarrow> P n \<Longrightarrow> Q n) \<Longrightarrow> has_quorum c Q"
    for P Q using quorum_mono_config [of c P Q] by blast
  show "has_quorum c P \<Longrightarrow> has_quorum c Q \<Longrightarrow> \<exists>n \<in> {v. is_voter c v}. P n \<and> Q n" for P Q
    using quorum_meet_config by auto
qed

text \<open>Votes of nodes outside the voter set do not count.\<close>

lemma has_quorum_cong:
  "(\<And>v. is_voter c v \<Longrightarrow> P v = Q v) \<Longrightarrow> has_quorum c P = has_quorum c Q"
  using config_quorum.quorum_mono [of c P Q] config_quorum.quorum_mono [of c Q P] by blast

section \<open>Well-formed configurations and validated changes\<close>

fun wf_config :: "Configuration \<Rightarrow> bool" where
  "wf_config (Simple vs ls) \<longleftrightarrow> elems vs \<noteq> {} \<and> elems vs \<inter> elems ls = {}"
| "wf_config (Joint old new ls) \<longleftrightarrow>
    elems old \<noteq> {} \<and> elems new \<noteq> {} \<and> elems new \<inter> elems ls = {}"

lemma validate_not_joint: "validate change c mode = Inr u \<Longrightarrow> \<not> is_joint c"
  by (cases c) (simp_all add: validate_def)

lemma card_remove_ge2: "finite A \<Longrightarrow> x \<in> A \<Longrightarrow> card A \<noteq> 1 \<Longrightarrow> A - {x} \<noteq> {}"
  by (metis card_1_singleton_iff Diff_eq_empty_iff One_nat_def empty_iff subset_singletonD)

lemma validate_SetMembersD:
  assumes "validate_simple (SetMembers m) vs ls mode = Inr u"
  shows "set (mem_voters m) \<noteq> {}"
    and "set (mem_voters m) \<inter> set (mem_learners m) = {}"
    and "mode = SingleServer \<Longrightarrow>
      card (elems vs - set (mem_voters m)) + card (set (mem_voters m) - elems vs) \<le> 1"
  using assms
  by (auto simp: Let_def find_None_iff length_filter_iter set_diff_eq conj_commute
      split: if_splits option.splits)

lemma apply_to_sets_wf:
  assumes "wf_config (Simple vs ls)" "validate_simple change vs ls mode = Inr u"
  shows "wf_config (apply_to_sets change vs ls mode)"
proof (cases change)
  case (RemoveVoter i)
  with assms have "elems vs - {i} \<noteq> {}"
    by (intro card_remove_ge2) (auto simp: bts_len_card split: if_splits)
  with RemoveVoter assms show ?thesis by auto
next
  case (SetMembers m)
  with assms(2) have "set (mem_voters m) \<noteq> {}"
    and "set (mem_voters m) \<inter> set (mem_learners m) = {}"
    using validate_SetMembersD by blast+
  with SetMembers assms(1) show ?thesis by (simp add: Let_def)
qed (use assms in \<open>auto split: if_splits\<close>)

lemma apply_to_sets_overlap:
  assumes v: "validate_simple change vs ls mode = Inr u"
    and p: "has_quorum (Simple vs ls) P"
    and q: "has_quorum (apply_to_sets change vs ls mode) Q"
  shows "\<exists>n \<in> elems vs. P n \<and> Q n"
proof -
  have close: "\<exists>n \<in> elems vs. P n \<and> Q n"
    if "apply_to_sets change vs ls mode = Simple vs' ls'"
      and "card (elems vs - elems vs') + card (elems vs' - elems vs) \<le> 1" for vs' ls'
    using simple_quorums_meet [OF p q [unfolded that(1)] that(2)] by blast
  show ?thesis
  proof (cases change)
    case (AddVoter i)
    have "card (elems vs - insert i (elems vs)) = 0"
      by (metis Diff_eq_empty_iff card.empty subset_insertI)
    moreover have "card (insert i (elems vs) - elems vs) \<le> 1"
      using card_mono [of "{i}" "insert i (elems vs) - elems vs"] by auto
    ultimately have "card (elems vs - insert i (elems vs)) + card (insert i (elems vs) - elems vs) \<le> 1"
      by linarith
    with AddVoter show ?thesis by (intro close) auto
  next
    case (RemoveVoter i)
    have "elems vs - (elems vs - {i}) \<subseteq> {i}" by blast
    then have "card (elems vs - (elems vs - {i})) \<le> 1"
      by (metis card_mono finite.emptyI finite_insert is_singletonI is_singleton_altdef)
    moreover have "card (elems vs - {i} - elems vs) = 0"
      by (metis Diff_eq_empty_iff Diff_subset card.empty)
    ultimately have "card (elems vs - (elems vs - {i})) + card (elems vs - {i} - elems vs) \<le> 1"
      by linarith
    with RemoveVoter show ?thesis by (intro close) auto
  next
    case (SetMembers m)
    show ?thesis
    proof (cases "mode = JointConsensus \<and> vs \<noteq> bts_of_list (mem_voters m)")
      case True
      with SetMembers q have "has_quorum (Simple vs (bts_of_list (mem_learners m))) Q"
        by (simp add: has_quorum_joint_iff Let_def)
      from same_voters_meet [OF p this] show ?thesis .
    next
      case False
      then have "card (elems vs - set (mem_voters m)) + card (set (mem_voters m) - elems vs) \<le> 1"
        using v SetMembers validate_SetMembersD(3) by (cases mode) auto
      with SetMembers False show ?thesis by (intro close) (auto simp: Let_def)
    qed
  qed (auto intro!: close)
qed

lemma collect_learners_iff:
  "collect_learners vs is acc = Inr ls \<longleftrightarrow>
    set is \<inter> elems vs = {} \<and> elems ls = set is \<union> elems acc"
  by (induction "is" arbitrary: acc) (auto simp: bts_eq_iff)

lemma collect_learners_Inl:
  "collect_learners vs is acc = Inl e \<longleftrightarrow>
    (\<exists>i. find (\<lambda>i. i \<in> elems vs) is = Some i \<and> e = Overlap i)"
  by (induction "is" arbitrary: acc) auto

lemma elems_fold_insert [simp]: "elems (fold bts_insert xs s) = set xs \<union> elems s"
  by (induction xs arbitrary: s) auto

lemma push_old_eq:
  "push_old new is (result, seen) =
    (result @ map (\<lambda>i. (i, True, i \<in> elems new)) is, set is \<union> seen)"
  by (induction "is" arbitrary: result seen) auto

lemma push_new_eq:
  "distinct is \<Longrightarrow> fst (push_new is (result, seen)) =
    result @ map (\<lambda>i. (i, False, True)) (filter (\<lambda>i. i \<notin> seen) is)"
proof (induction "is" arbitrary: result seen)
  case (Cons i "is")
  then have "filter (\<lambda>j. j \<noteq> i \<and> j \<notin> seen) is = filter (\<lambda>j. j \<notin> seen) is"
    by (intro filter_cong) auto
  with Cons show ?case by simp
qed simp

subsection \<open>Properties\<close>

text \<open>C25. A validated configuration change never opens a window for two disjoint majorities:
  whichever mode is in force, a quorum of the current configuration and a quorum of the
  configuration the change produces share a voter.\<close>

theorem change_quorums_overlap:
  assumes "validate change c mode = Inr ()"
    and "has_quorum c P" and "has_quorum (apply_change change c mode) Q"
  shows "\<exists>n. is_voter c n \<and> P n \<and> Q n"
proof (cases c)
  case (Simple vs ls)
  with assms have "\<exists>n \<in> elems vs. P n \<and> Q n"
    by (intro apply_to_sets_overlap [of change vs ls mode "()" P Q])
      (simp_all add: validate_def apply_change_def)
  with Simple show ?thesis by auto
qed (use assms in \<open>simp add: validate_def\<close>)

text \<open>Leaving a joint configuration is safe as well: a quorum of the joint configuration
  contains a quorum of the old voters and a quorum of the target configuration, so it meets
  every quorum of the old simple configuration and every quorum of the target.\<close>

theorem joint_covers_both:
  assumes "transition_target c = Some target"
    and "has_quorum c P"
  shows "has_quorum target P \<and> has_quorum (Simple (joint_old c) (joint_learners c)) P
    \<and> (has_quorum target Q \<longrightarrow> (\<exists>n. is_voter target n \<and> P n \<and> Q n))"
proof (cases c)
  case (Joint old new ls)
  with assms have "has_quorum target P" "has_quorum (Simple old ls) P"
    by (auto simp: has_quorum_joint_iff)
  with Joint show ?thesis using config_quorum.quorum_meet [of target P Q] by auto
qed (use assms in simp)

text \<open>From a well-formed configuration (a non-empty voter set, no node both voter and
  learner) every validated change gives a well-formed configuration, and so does completing
  the joint configuration it may have entered.\<close>

theorem change_keeps_wf:
  assumes "wf_config c" and "validate change c mode = Inr ()"
  shows "wf_config (apply_change change c mode)
    \<and> (\<forall>target. transition_target (apply_change change c mode) = Some target
          \<longrightarrow> wf_config target)"
proof -
  have wf: "wf_config (apply_change change c mode)"
    using assms apply_to_sets_wf
    by (cases c) (simp_all add: validate_def apply_change_def del: wf_config.simps)
  then show ?thesis by (cases "apply_change change c mode") auto
qed

text \<open>\<open>Members::new\<close> accepts exactly the disjoint lists, and then holds both in
  strictly increasing order without duplicates; otherwise it reports the first learner that
  is also a voter.\<close>

theorem members_new_spec:
  "members_new vs ls =
    (case find (\<lambda>i. i \<in> set vs) ls of
       Some i \<Rightarrow> Inl (Overlap i)
     | None \<Rightarrow> Inr \<lparr>mem_voters = iter (bts_of_list vs), mem_learners = iter (bts_of_list ls)\<rparr>)"
proof (cases "find (\<lambda>i. i \<in> set vs) ls")
  case None
  have "fold bts_insert vs bts_empty = bts_of_list vs"
    by (simp add: bts_eq_iff)
  moreover have "collect_learners (bts_of_list vs) ls bts_empty = Inr (bts_of_list ls)"
    using None by (auto simp: collect_learners_iff find_None_iff)
  ultimately show ?thesis using None by (simp add: members_new_def)
next
  case (Some i)
  then have "collect_learners (fold bts_insert vs bts_empty) ls bts_empty = Inl (Overlap i)"
    by (simp add: collect_learners_Inl)
  with Some show ?thesis by (simp add: members_new_def Let_def)
qed

text \<open>\<open>voter_membership\<close> lists every voter of the configuration once, in the order of
  \<open>voters\<close>, with its membership of the old and of the new voter set; \<open>voter_count\<close> is its
  length.\<close>

theorem voter_membership_spec:
  "map fst (voter_membership c) = voters c \<and> distinct (map fst (voter_membership c))
    \<and> length (voter_membership c) = voter_count c
    \<and> (\<forall>(i, o', n') \<in> set (voter_membership c).
        case c of Simple vs ls \<Rightarrow> i \<in> elems vs \<and> o' \<and> n'
        | Joint old new ls \<Rightarrow> o' = (i \<in> elems old) \<and> n' = (i \<in> elems new))"
proof -
  have fst: "map fst (voter_membership c) = voters c"
    by (cases c) (simp_all add: push_old_eq push_new_eq o_def)
  then have "length (voter_membership c) = voter_count c"
    by (metis distinct_card distinct_voters length_map set_voters voter_count_card)
  moreover have "\<forall>(i, o', n') \<in> set (voter_membership c).
        case c of Simple vs ls \<Rightarrow> i \<in> elems vs \<and> o' \<and> n'
        | Joint old new ls \<Rightarrow> o' = (i \<in> elems old) \<and> n' = (i \<in> elems new)"
    by (cases c) (auto simp: push_old_eq push_new_eq)
  ultimately show ?thesis using fst by simp
qed

subsection \<open>Concrete configurations\<close>

theorem change_quorums_overlap_witness:
  "\<exists>n. is_voter (simple_with_learners [NodeId 1, NodeId 2, NodeId 3] [NodeId 4]) n
    \<and> n \<in> {NodeId 1, NodeId 2} \<and> n \<in> {NodeId 2, NodeId 3, NodeId 4}"
  by (rule change_quorums_overlap [where change = "AddVoter (NodeId 4)" and mode = SingleServer])
    (simp_all add: simple_with_learners_def validate_def apply_change_def has_quorum_simps
      bts_eval del: set_iter)

theorem joint_covers_both_witness:
  "has_quorum (simple [NodeId 2, NodeId 3, NodeId 4]) (\<lambda>n. n \<in> {NodeId 2, NodeId 3})
    \<and> has_quorum (simple [NodeId 1, NodeId 2, NodeId 3]) (\<lambda>n. n \<in> {NodeId 2, NodeId 3})"
  using joint_covers_both [where c = "joint [NodeId 1, NodeId 2, NodeId 3] [NodeId 2, NodeId 3, NodeId 4]"
      and target = "simple [NodeId 2, NodeId 3, NodeId 4]"
      and P = "\<lambda>n. n \<in> {NodeId 2, NodeId 3}"]
  by (simp add: simple_def joint_def has_quorum_simps bts_eval del: set_iter)

theorem change_keeps_wf_witness:
  "wf_config (apply_change (RemoveVoter (NodeId 3)) (simple [NodeId 1, NodeId 2, NodeId 3]) SingleServer)"
  using change_keeps_wf [of "simple [NodeId 1, NodeId 2, NodeId 3]" "RemoveVoter (NodeId 3)" SingleServer]
  by (simp add: simple_def validate_def bts_eval del: set_iter)

theorem voter_membership_spec_witness:
  "map fst (voter_membership (joint [NodeId 1] [NodeId 1, NodeId 2])) = [NodeId 1, NodeId 2]"
  using voter_membership_spec [of "joint [NodeId 1] [NodeId 1, NodeId 2]"]
  by (simp add: joint_def bts_eval del: set_iter)

end
