(* ===== verification/RaftLog.thy ===== *)
theory RaftLog
  imports Membership
begin

text \<open>
  The replicated log of \<open>basisdb-raft/src/raft/log.rs\<close>: a vector of entries behind a snapshot
  boundary. Indices are \<open>u64\<close> values and start at 1; \<open>to_vec_index\<close> turns one into a vector
  position. The invariant \<open>wf_log\<close> is the one the source states ("entries are contiguous
  starting at snapshot_index + 1, entry at index i has entry.index == i"), together with the
  fact that the last index is a \<open>u64\<close>. Every mutation is shown to keep it and to act on the
  partial map from indices to entries (\<open>log_get\<close>) as its documentation says.
\<close>

section \<open>Entries\<close>

datatype Command = Command (command_bytes: bytes)

datatype EntryPayload = CommandPayload Command | ConfigPayload Configuration

fun is_config :: "EntryPayload \<Rightarrow> bool" where
  "is_config (ConfigPayload c) \<longleftrightarrow> True"
| "is_config (CommandPayload c) \<longleftrightarrow> False"

fun as_config :: "EntryPayload \<Rightarrow> Configuration option" where
  "as_config (ConfigPayload c) = Some c"
| "as_config (CommandPayload c) = None"

record Entry =
  e_term :: Term
  e_index :: LogIndex
  e_payload :: EntryPayload

record CommittedEntry =
  ce_index :: LogIndex
  ce_term :: Term
  ce_command :: Command

section \<open>The log\<close>

record Log =
  log_entries :: "Entry list"
  snapshot_index :: LogIndex
  snapshot_term :: Term
  snapshot_config :: "Configuration option"

definition default_log :: Log where
  "default_log =
    \<lparr>log_entries = [], snapshot_index = 0, snapshot_term = 0, snapshot_config = None\<rparr>"

definition to_vec_index :: "Log \<Rightarrow> LogIndex \<Rightarrow> nat option" where
  "to_vec_index l index =
    (if index \<le> snapshot_index l then None
     else Some (unat (index - snapshot_index l - 1)))"

text \<open>\<open>Vec::get\<close>.\<close>

definition vec_get :: "'a list \<Rightarrow> nat \<Rightarrow> 'a option" where
  "vec_get xs i = (if i < length xs then Some (xs ! i) else None)"

definition first_index :: "Log \<Rightarrow> LogIndex" where
  "first_index l = snapshot_index l + 1"

definition last_index :: "Log \<Rightarrow> LogIndex" where
  "last_index l =
    (if log_entries l = [] then snapshot_index l else e_index (last (log_entries l)))"

definition last_term :: "Log \<Rightarrow> Term" where
  "last_term l =
    (if log_entries l = [] then snapshot_term l else e_term (last (log_entries l)))"

definition term_at :: "Log \<Rightarrow> LogIndex \<Rightarrow> Term" where
  "term_at l index =
    (if index = 0 \<or> index < snapshot_index l then 0
     else if index = snapshot_index l then snapshot_term l
     else case Option.bind (to_vec_index l index) (vec_get (log_entries l)) of
            None \<Rightarrow> 0 | Some e \<Rightarrow> e_term e)"

definition log_get :: "Log \<Rightarrow> LogIndex \<Rightarrow> Entry option" where
  "log_get l index =
    (if index = 0 \<or> index \<le> snapshot_index l then None
     else Option.bind (to_vec_index l index) (vec_get (log_entries l)))"

definition log_append :: "Log \<Rightarrow> Entry \<Rightarrow> Log" where
  "log_append l entry = l\<lparr>log_entries := log_entries l @ [entry]\<rparr>"

definition truncate_after :: "Log \<Rightarrow> LogIndex \<Rightarrow> Log" where
  "truncate_after l index =
    (if index \<le> snapshot_index l then l\<lparr>log_entries := []\<rparr>
     else case to_vec_index l index of
            Some vec_idx \<Rightarrow> l\<lparr>log_entries := take (vec_idx + 1) (log_entries l)\<rparr>
          | None \<Rightarrow> l)"

definition log_config_at :: "Log \<Rightarrow> LogIndex \<Rightarrow> Configuration option" where
  "log_config_at l index =
    (if index \<le> snapshot_index l then snapshot_config l
     else
       let end_vec_idx = (case to_vec_index l index of
                            None \<Rightarrow> length (log_entries l)
                          | Some i \<Rightarrow> min (i + 1) (length (log_entries l)))
       in case find_map (\<lambda>e. as_config (e_payload e))
                 (rev (take end_vec_idx (log_entries l))) of
            Some c \<Rightarrow> Some c
          | None \<Rightarrow> snapshot_config l)"

definition truncate_prefix :: "Log \<Rightarrow> LogIndex \<Rightarrow> Term \<Rightarrow> Log" where
  "truncate_prefix l index t =
    (if index \<le> snapshot_index l then l
     else
       let snapshot_config' = log_config_at l index;
           entries_to_remove = unat (index - snapshot_index l);
           entries' = (if entries_to_remove \<ge> length (log_entries l) then []
                       else drop entries_to_remove (log_entries l))
       in \<lparr>log_entries = entries', snapshot_index = index, snapshot_term = t,
           snapshot_config = snapshot_config'\<rparr>)"

definition install_snapshot :: "Log \<Rightarrow> LogIndex \<Rightarrow> Term \<Rightarrow> Configuration \<Rightarrow> Log" where
  "install_snapshot l index t config =
    (let l' = (if index > snapshot_index l \<and> term_at l index = t
               then truncate_prefix l index t
               else l\<lparr>log_entries := [], snapshot_index := index, snapshot_term := t\<rparr>)
     in l'\<lparr>snapshot_config := Some config\<rparr>)"

definition snapshot_matches_prefix :: "Log \<Rightarrow> LogIndex \<Rightarrow> Term \<Rightarrow> bool" where
  "snapshot_matches_prefix l index t \<longleftrightarrow> index > snapshot_index l \<and> term_at l index = t"

text \<open>\<open>&entries[s..e]\<close> panics when the range leaves the vector.\<close>

definition vec_slice :: "'a list \<Rightarrow> nat \<Rightarrow> nat \<Rightarrow> 'a list option" where
  "vec_slice xs s e =
    (if s \<le> e \<and> e \<le> length xs then Some (take (e - s) (drop s xs)) else None)"

definition log_slice :: "Log \<Rightarrow> LogIndex \<Rightarrow> LogIndex \<Rightarrow> Entry list option" where
  "log_slice l start end' =
    (let actual_start = max start (snapshot_index l + 1) in
     if actual_start > end' \<or> log_entries l = [] then Some []
     else case to_vec_index l actual_start of
            None \<Rightarrow> Some []
          | Some s \<Rightarrow>
              let e = (case to_vec_index l (min end' (last_index l)) of
                         None \<Rightarrow> length (log_entries l)
                       | Some i \<Rightarrow> i + 1)
              in if s \<ge> length (log_entries l) \<or> s \<ge> e then Some []
                 else vec_slice (log_entries l) s e)"

definition log_is_empty :: "Log \<Rightarrow> bool" where
  "log_is_empty l \<longleftrightarrow> log_entries l = []"

definition log_len :: "Log \<Rightarrow> nat" where
  "log_len l = length (log_entries l)"

definition log_pending_config_index :: "Log \<Rightarrow> LogIndex \<Rightarrow> LogIndex option" where
  "log_pending_config_index l commit =
    map_option e_index
      (find (\<lambda>e. is_config (e_payload e) \<and> e_index e > commit) (rev (log_entries l)))"

section \<open>The invariant and the index arithmetic\<close>

definition wf_log :: "Log \<Rightarrow> bool" where
  "wf_log l \<longleftrightarrow>
    unat (snapshot_index l) + length (log_entries l) < 2 ^ 64
    \<and> (\<forall>i < length (log_entries l).
          unat (e_index (log_entries l ! i)) = unat (snapshot_index l) + i + 1)"

lemma wf_default_log [simp]: "wf_log default_log"
  by (simp add: wf_log_def default_log_def)

lemma to_vec_index_eq:
  "to_vec_index l i =
    (if unat (snapshot_index l) < unat i then Some (unat i - unat (snapshot_index l) - 1)
     else None)"
proof (cases "unat (snapshot_index l) < unat i")
  case True
  then have le: "snapshot_index l \<le> i" by (simp add: word_le_nat_alt)
  have "unat (i - snapshot_index l) = unat i - unat (snapshot_index l)"
    using le by (rule unat_u64_diff)
  moreover have "unat (i - snapshot_index l - 1) = unat (i - snapshot_index l) - unat (1 :: u64)"
    using True calculation by (intro unat_u64_diff) (simp add: word_le_nat_alt)
  ultimately show ?thesis using True by (simp add: to_vec_index_def word_le_nat_alt)
qed (simp add: to_vec_index_def word_le_nat_alt)

lemma log_get_eq:
  "log_get l i =
    (if unat (snapshot_index l) < unat i
        \<and> unat i \<le> unat (snapshot_index l) + length (log_entries l)
     then Some (log_entries l ! (unat i - unat (snapshot_index l) - 1)) else None)"
  by (auto simp: log_get_def to_vec_index_eq vec_get_def word_le_nat_alt unat_eq_0)

lemma term_at_eq:
  "term_at l i =
    (if i \<noteq> 0 \<and> i = snapshot_index l then snapshot_term l
     else case log_get l i of None \<Rightarrow> 0 | Some e \<Rightarrow> e_term e)"
  by (auto simp: term_at_def log_get_def to_vec_index_def word_le_nat_alt word_less_nat_alt
      split: option.splits bind_splits)

lemma term_at_get: "log_get l i = Some e \<Longrightarrow> term_at l i = e_term e"
  by (auto simp: term_at_eq log_get_eq split: if_splits)

lemma unat_last_index:
  "wf_log l \<Longrightarrow> unat (last_index l) = unat (snapshot_index l) + length (log_entries l)"
  by (cases "log_entries l = []")
    (auto simp: wf_log_def last_index_def last_conv_nth)

lemma log_get_index: "wf_log l \<Longrightarrow> log_get l i = Some e \<Longrightarrow> e_index e = i"
  by (auto simp: wf_log_def log_get_eq word_unat_eq_iff split: if_splits)

lemma log_get_None_iff:
  "wf_log l \<Longrightarrow> log_get l i = None \<longleftrightarrow> i \<le> snapshot_index l \<or> last_index l < i"
  by (auto simp: log_get_eq unat_last_index u64_nat)

lemma snapshot_le_last: "wf_log l \<Longrightarrow> snapshot_index l \<le> last_index l"
  by (simp add: unat_last_index word_le_nat_alt)

lemma log_get_last:
  "wf_log l \<Longrightarrow> log_entries l \<noteq> [] \<Longrightarrow> log_get l (last_index l) = Some (last (log_entries l))"
  by (auto simp: log_get_eq unat_last_index last_conv_nth)

lemma in_log_entries_iff:
  "wf_log l \<Longrightarrow> e \<in> set (log_entries l) \<longleftrightarrow> log_get l (e_index e) = Some e"
proof
  assume wf: "wf_log l" and "e \<in> set (log_entries l)"
  then obtain k where "k < length (log_entries l)" "e = log_entries l ! k"
    by (auto simp: in_set_conv_nth)
  with wf show "log_get l (e_index e) = Some e"
    by (auto simp: wf_log_def log_get_eq)
next
  assume "log_get l (e_index e) = Some e"
  then have "e = log_entries l ! (unat (e_index e) - unat (snapshot_index l) - 1)"
    and "unat (e_index e) - unat (snapshot_index l) - 1 < length (log_entries l)"
    by (auto simp: log_get_eq split: if_splits)
  then show "e \<in> set (log_entries l)" by (metis nth_mem)
qed

section \<open>Mutations\<close>

lemma wf_log_append:
  "wf_log l \<Longrightarrow> e_index e = last_index l + 1 \<Longrightarrow> last_index l \<noteq> u64_max
    \<Longrightarrow> wf_log (log_append l e)"
proof -
  assume wf: "wf_log l" and idx: "e_index e = last_index l + 1" and max: "last_index l \<noteq> u64_max"
  have "unat (last_index l) < 2 ^ 64 - 1"
    using max less_u64_max_iff [of "last_index l"] by (simp add: word_less_nat_alt)
  then show ?thesis
    using wf idx max
    by (auto simp: wf_log_def log_append_def unat_u64_Suc unat_last_index nth_append less_Suc_eq)
qed

lemma log_append_fields [simp]:
  "snapshot_index (log_append l e) = snapshot_index l"
  "snapshot_term (log_append l e) = snapshot_term l"
  "snapshot_config (log_append l e) = snapshot_config l"
  "log_entries (log_append l e) = log_entries l @ [e]"
  by (simp_all add: log_append_def)

lemma last_index_append [simp]: "last_index (log_append l e) = e_index e"
  by (simp add: last_index_def)

lemma last_term_append [simp]: "last_term (log_append l e) = e_term e"
  by (simp add: last_term_def)

lemma log_get_append:
  "wf_log l \<Longrightarrow> e_index e = last_index l + 1 \<Longrightarrow> last_index l \<noteq> u64_max \<Longrightarrow>
    log_get (log_append l e) i = (if i = e_index e then Some e else log_get l i)"
  by (auto simp: log_get_eq nth_append unat_last_index unat_u64_Suc word_unat_eq_iff)

lemma truncate_after_eq:
  "truncate_after l i =
    l\<lparr>log_entries := take (unat i - unat (snapshot_index l)) (log_entries l)\<rparr>"
  by (auto simp: truncate_after_def to_vec_index_eq word_le_nat_alt Suc_diff_Suc
      simp del: One_nat_def)

lemma truncate_after_fields [simp]:
  "snapshot_index (truncate_after l i) = snapshot_index l"
  "snapshot_term (truncate_after l i) = snapshot_term l"
  "snapshot_config (truncate_after l i) = snapshot_config l"
  by (simp_all add: truncate_after_eq)

lemma wf_truncate_after [simp]: "wf_log l \<Longrightarrow> wf_log (truncate_after l i)"
  by (auto simp: wf_log_def truncate_after_eq)

lemma log_get_truncate_after:
  "log_get (truncate_after l i) j = (if j \<le> i then log_get l j else None)"
  by (auto simp: log_get_eq truncate_after_eq word_le_nat_alt)

lemma truncate_prefix_eq:
  "snapshot_index l < i \<Longrightarrow> truncate_prefix l i t =
    \<lparr>log_entries = drop (unat i - unat (snapshot_index l)) (log_entries l),
     snapshot_index = i, snapshot_term = t, snapshot_config = log_config_at l i\<rparr>"
  by (simp add: truncate_prefix_def Let_def unat_u64_diff)

lemma wf_truncate_prefix [simp]: "wf_log l \<Longrightarrow> wf_log (truncate_prefix l i t)"
proof (cases "snapshot_index l < i")
  case True
  then show "wf_log l \<Longrightarrow> wf_log (truncate_prefix l i t)"
    by (auto simp: wf_log_def truncate_prefix_eq word_less_nat_alt)
      (use unat_u64_lt_numeral [of i] in linarith)
qed (simp add: truncate_prefix_def not_less)

lemma log_get_truncate_prefix:
  "snapshot_index l < i \<Longrightarrow>
    log_get (truncate_prefix l i t) j = (if i < j then log_get l j else None)"
  by (auto simp: log_get_eq truncate_prefix_eq word_less_nat_alt)

lemma wf_install_snapshot [simp]: "wf_log l \<Longrightarrow> wf_log (install_snapshot l i t c)"
  using wf_truncate_prefix [of l i t]
  by (auto simp: install_snapshot_def Let_def wf_log_def simp del: wf_truncate_prefix)

lemma install_snapshot_fields [simp]:
  "snapshot_index (install_snapshot l i t c) = i"
  "snapshot_term (install_snapshot l i t c) = t"
  "snapshot_config (install_snapshot l i t c) = Some c"
  by (simp_all add: install_snapshot_def Let_def truncate_prefix_eq)

lemma log_get_install_snapshot:
  "log_get (install_snapshot l i t c) j =
    (if snapshot_matches_prefix l i t \<and> i < j then log_get l j else None)"
proof (cases "snapshot_matches_prefix l i t")
  case True
  then have "log_get (install_snapshot l i t c) j = log_get (truncate_prefix l i t) j"
    by (simp add: install_snapshot_def snapshot_matches_prefix_def log_get_eq)
  with True show ?thesis
    by (simp add: snapshot_matches_prefix_def log_get_truncate_prefix)
next
  case False
  then show ?thesis
    by (auto simp: install_snapshot_def snapshot_matches_prefix_def log_get_eq Let_def)
qed

section \<open>Slices and configurations\<close>

lemma filter_consecutive:
  fixes f :: "'a \<Rightarrow> nat"
  assumes "\<forall>i < length xs. f (xs ! i) = b + i"
  shows "filter (\<lambda>x. lo \<le> f x \<and> f x \<le> hi) xs =
    take (Suc hi - max lo b) (drop (lo - b) xs)"
  using assms
proof (induction xs arbitrary: b)
  case (Cons x xs)
  have step: "\<forall>i < length xs. f (xs ! i) = Suc b + i"
    using Cons.prems by (metis Suc_less_eq add_Suc add_Suc_right length_Cons nth_Cons_Suc)
  have x: "f x = b" using Cons.prems by force
  show ?case
  proof (cases "lo \<le> b")
    case True
    with x show ?thesis
      using Cons.IH [OF step] by (auto simp: max_def Suc_diff_le not_le)
  next
    case False
    then obtain d where d: "lo = Suc (b + d)" by (metis less_iff_Suc_add not_le)
    with x show ?thesis
      using Cons.IH [OF step] by (simp add: max_def)
  qed
qed simp

lemma vec_slice_range:
  "b < st \<Longrightarrow> st \<le> en \<Longrightarrow> en \<le> b + length xs \<Longrightarrow>
    vec_slice xs (st - Suc b) (en - Suc b + 1) = Some (take (Suc en - st) (drop (st - Suc b) xs))"
  by (auto simp: vec_slice_def Suc_diff_le)

text \<open>On a well-formed log \<open>slice\<close> does not panic and returns the entries whose index is in
  the inclusive range.\<close>

lemma log_slice_filter:
  assumes wf: "wf_log l"
  shows "log_slice l s e =
    Some (filter (\<lambda>x. s \<le> e_index x \<and> e_index x \<le> e) (log_entries l))"
proof -
  let ?b = "unat (snapshot_index l)"
  let ?n = "length (log_entries l)"
  have cons: "\<forall>i < ?n. unat (e_index (log_entries l ! i)) = Suc ?b + i"
    using wf by (simp add: wf_log_def)
  have ref: "filter (\<lambda>x. s \<le> e_index x \<and> e_index x \<le> e) (log_entries l) =
      take (Suc (unat e) - max (unat s) (Suc ?b)) (drop (unat s - Suc ?b) (log_entries l))"
    unfolding word_le_nat_alt
    using filter_consecutive [OF cons, of "unat s" "unat e"] by simp
  show ?thesis
  proof (cases "log_entries l = []")
    case False
    then have "?b < 2 ^ 64 - 1" using wf by (auto simp: wf_log_def Suc_le_eq neq_Nil_conv)
    then have b: "unat (snapshot_index l + 1) = Suc ?b"
      by (intro unat_u64_Suc) auto
    have st: "unat (max s (snapshot_index l + 1)) = max (unat s) (Suc ?b)"
      using b by (simp add: max_def word_le_nat_alt)
    have en: "unat (min e (last_index l)) = min (unat e) (?b + ?n)"
      using unat_last_index [OF wf] by (simp add: min_def word_le_nat_alt)
    let ?st = "max (unat s) (Suc ?b)" and ?en = "min (unat e) (?b + ?n)"
    have start: "to_vec_index l (max s (snapshot_index l + 1)) = Some (?st - Suc ?b)"
      unfolding to_vec_index_eq st by simp
    have stop: "Suc ?b \<le> unat e \<Longrightarrow> to_vec_index l (min e (last_index l)) = Some (?en - Suc ?b)"
      using False unfolding to_vec_index_eq en by (cases "log_entries l") auto
    show ?thesis
    proof (cases "?st \<le> ?en")
      case True
      then have "vec_slice (log_entries l) (?st - Suc ?b) (?en - Suc ?b + 1) =
          Some (take (Suc ?en - ?st) (drop (?st - Suc ?b) (log_entries l)))"
        by (intro vec_slice_range) auto
      moreover have "take (Suc ?en - ?st) (drop (?st - Suc ?b) (log_entries l)) =
          take (Suc (unat e) - ?st) (drop (unat s - Suc ?b) (log_entries l))"
        using True by (auto simp: min_def max_def)
      moreover have "\<not> ?n \<le> ?st - Suc ?b" "\<not> ?en - Suc ?b + 1 \<le> ?st - Suc ?b"
        "\<not> unat e < ?st" "Suc ?b \<le> unat e"
        using True by (linarith, linarith, linarith, linarith)
      ultimately show ?thesis
        using start stop False unfolding ref log_slice_def Let_def word_less_nat_alt st
        by (simp del: One_nat_def Suc_eq_plus1 max.bounded_iff min.bounded_iff)
    next
      case no: False
      have "0 < ?n" using False by simp
      with no have "Suc (unat e) - ?st = 0 \<or> ?n \<le> unat s - Suc ?b" by linarith
      then have "take (Suc (unat e) - ?st) (drop (unat s - Suc ?b) (log_entries l)) = []"
        by auto
      with no start stop show ?thesis unfolding ref log_slice_def Let_def
        by (auto simp: word_less_nat_alt st)
    qed
  qed (simp add: log_slice_def)
qed

lemma log_slice_SomeD:
  assumes "wf_log l" "log_slice l s e = Some xs" "x \<in> set xs"
  shows "s \<le> e_index x" "e_index x \<le> e" "log_get l (e_index x) = Some x" "x \<in> set (log_entries l)"
  using assms in_log_entries_iff by (auto simp: log_slice_filter)

lemma log_config_at_last:
  "wf_log l \<Longrightarrow> log_config_at l (last_index l) =
    (case find_map (\<lambda>e. as_config (e_payload e)) (rev (log_entries l)) of
       Some c \<Rightarrow> Some c | None \<Rightarrow> snapshot_config l)"
  by (auto simp: log_config_at_def to_vec_index_eq unat_last_index word_le_nat_alt)

lemma log_config_at_take:
  "log_config_at l i =
    (case find_map (\<lambda>e. as_config (e_payload e))
        (rev (take (unat i - unat (snapshot_index l)) (log_entries l))) of
       Some c \<Rightarrow> Some c | None \<Rightarrow> snapshot_config l)"
  by (auto simp: log_config_at_def to_vec_index_eq word_le_nat_alt Suc_diff_Suc min_def
      simp del: One_nat_def)

lemma find_map_rev_last:
  assumes "f x = Some c" and "\<And>y. y \<in> set ys \<Longrightarrow> f y = None"
  shows "find_map f (rev (xs @ x # ys)) = Some c"
proof -
  have "find_map f (rev ys) = None" using assms(2) by (simp add: find_map_None_iff)
  with assms(1) show ?thesis by (simp add: find_map_append)
qed

lemma take_split_nth:
  assumes "m < k" "m < length xs"
  shows "take k xs = take m xs @ xs ! m # drop (Suc m) (take k xs)"
proof -
  have "take k xs = take m (take k xs) @ take k xs ! m # drop (Suc m) (take k xs)"
    by (rule id_take_nth_drop) (use assms in simp)
  also have "\<dots> = take m xs @ xs ! m # drop (Suc m) (take k xs)"
    using assms by (simp add: min.absorb1)
  finally show ?thesis .
qed

lemma log_config_at_no_config:
  assumes "\<And>e. e \<in> set (log_entries l) \<Longrightarrow> \<not> is_config (e_payload e)"
  shows "log_config_at l i = snapshot_config l"
proof -
  have "as_config (e_payload e) = None" if "e \<in> set (log_entries l)" for e
    using assms [OF that] by (cases "e_payload e") auto
  then have "find_map (\<lambda>e. as_config (e_payload e)) (rev (take n (log_entries l))) = None" for n
    by (auto simp: find_map_None_iff dest: in_set_takeD)
  then show ?thesis by (simp add: log_config_at_take)
qed

section \<open>Properties\<close>

text \<open>Every mutation keeps the log invariant: truncating a suffix, discarding a prefix and
  installing a snapshot always do, and \<open>append\<close> does when its documented precondition holds
  (the entry carries the next index, which is a \<open>u64\<close>).\<close>

theorem log_mutations_keep_wf:
  assumes "wf_log l"
  shows "wf_log (truncate_after l i) \<and> wf_log (truncate_prefix l i t)
    \<and> wf_log (install_snapshot l i t c)
    \<and> (e_index e = last_index l + 1 \<and> last_index l \<noteq> u64_max \<longrightarrow> wf_log (log_append l e))"
  using assms by (simp_all add: wf_log_append)

theorem log_mutations_keep_wf_witness:
  "wf_log (log_append default_log \<lparr>e_term = 1, e_index = 1, e_payload = CommandPayload (Command [])\<rparr>)"
  using log_mutations_keep_wf [where l = default_log and e =
      "\<lparr>e_term = 1, e_index = 1, e_payload = CommandPayload (Command [])\<rparr>"]
  by (simp add: default_log_def last_index_def u64_max_def wf_log_def)

text \<open>C31. Refinement: seen as a partial map from indices to entries, \<open>append\<close> adds one binding
  at the end, \<open>truncate_after\<close> keeps the bindings up to its index, and installing a snapshot
  keeps the bindings after it when the snapshot describes a prefix of the log, and none
  otherwise; the snapshot boundary moves to the given index and term.\<close>

theorem log_refines_map:
  assumes "wf_log l"
  shows "(e_index e = last_index l + 1 \<and> last_index l \<noteq> u64_max \<longrightarrow>
        log_get (log_append l e) = (log_get l)(e_index e \<mapsto> e))
    \<and> log_get (truncate_after l i) = log_get l |` {..i}
    \<and> log_get (install_snapshot l i t c) =
        (if snapshot_matches_prefix l i t then log_get l |` {i<..} else Map.empty)
    \<and> snapshot_index (install_snapshot l i t c) = i
    \<and> (i \<noteq> 0 \<longrightarrow> term_at (install_snapshot l i t c) i = t)"
  using assms
  by (auto simp: fun_eq_iff log_get_append log_get_truncate_after log_get_install_snapshot
      restrict_map_def term_at_eq)

theorem log_refines_map_witness:
  "log_get (truncate_after (log_append default_log
      \<lparr>e_term = 1, e_index = 1, e_payload = CommandPayload (Command [])\<rparr>) 0) 1 = None"
proof -
  have "wf_log (log_append default_log
      \<lparr>e_term = 1, e_index = 1, e_payload = CommandPayload (Command [])\<rparr>)"
    by (simp add: default_log_def wf_log_def log_append_def)
  from log_refines_map [OF this, where i = 0] show ?thesis
    by (simp add: restrict_map_def)
qed

text \<open>\<open>slice(start, end)\<close> never panics on a well-formed log, and returns exactly the
  entries whose index lies in the inclusive range, in log order.\<close>

theorem log_slice_spec:
  assumes "wf_log l"
  shows "\<exists>xs. log_slice l s e = Some xs
    \<and> xs = filter (\<lambda>x. s \<le> e_index x \<and> e_index x \<le> e) (log_entries l)
    \<and> (\<forall>i. (\<exists>x \<in> set xs. e_index x = i \<and> log_get l i = Some x) \<longleftrightarrow>
           s \<le> i \<and> i \<le> e \<and> snapshot_index l < i \<and> i \<le> last_index l)"
proof -
  have "(\<exists>x. x \<in> set (log_entries l) \<and> s \<le> e_index x \<and> e_index x \<le> e \<and> e_index x = i
      \<and> log_get l i = Some x) \<longleftrightarrow> s \<le> i \<and> i \<le> e \<and> snapshot_index l < i \<and> i \<le> last_index l" for i
    using log_get_None_iff [OF assms, of i] log_get_index [OF assms, of i]
      in_log_entries_iff [OF assms]
    by (metis not_le not_None_eq)
  then show ?thesis by (auto simp: log_slice_filter [OF assms])
qed

theorem log_slice_spec_witness:
  "\<exists>xs. log_slice default_log 1 5 = Some xs \<and> xs = []"
  using log_slice_spec [of default_log 1 5] by (auto simp: default_log_def wf_log_def)

text \<open>\<open>config_at(index)\<close> is the configuration of the latest configuration entry at or
  before \<open>index\<close>; without one it is the configuration stored with the snapshot.\<close>

theorem log_config_at_latest:
  assumes "wf_log l" and "log_get l j = Some e" and "as_config (e_payload e) = Some c"
    and "j \<le> i"
    and "\<And>k e'. j < k \<Longrightarrow> k \<le> i \<Longrightarrow> log_get l k = Some e' \<Longrightarrow> \<not> is_config (e_payload e')"
  shows "log_config_at l i = Some c"
proof -
  let ?b = "unat (snapshot_index l)" and ?es = "log_entries l"
  let ?m = "unat j - ?b - 1"
  from assms(2) have j: "?b < unat j" "unat j \<le> ?b + length ?es" "?es ! ?m = e"
    by (auto simp: log_get_eq split: if_splits)
  have later: "as_config (e_payload x) = None"
    if "x \<in> set (drop (Suc ?m) (take (unat i - ?b) ?es))" for x
  proof -
    from that obtain n where n: "x = ?es ! n" "?m < n" "n < unat i - ?b" "n < length ?es"
      by (auto simp: in_set_conv_nth)
    have wf: "wf_log l" by fact
    then have "x \<in> set ?es" "unat (e_index x) = ?b + n + 1"
      using n by (auto simp: wf_log_def)
    with n j have "log_get l (e_index x) = Some x" "j < e_index x" "e_index x \<le> i"
      using in_log_entries_iff [OF wf] by (auto simp: u64_nat)
    with assms(5) [of "e_index x" x] show ?thesis by (cases "e_payload x") auto
  qed
  have "take (unat i - ?b) ?es =
      take ?m ?es @ e # drop (Suc ?m) (take (unat i - ?b) ?es)"
    unfolding j(3) [symmetric]
    by (rule take_split_nth) (use j assms(4) in \<open>auto simp: word_le_nat_alt\<close>)
  then have "find_map (\<lambda>e. as_config (e_payload e)) (rev (take (unat i - ?b) ?es)) = Some c"
    using find_map_rev_last [of "\<lambda>e. as_config (e_payload e)" e c _ "take ?m ?es"] later assms(3)
    by metis
  then show ?thesis by (simp add: log_config_at_take)
qed

theorem log_config_at_latest_witness:
  "log_config_at (log_append default_log
      \<lparr>e_term = 1, e_index = 1, e_payload = ConfigPayload (simple [NodeId 7])\<rparr>) 1 =
    Some (simple [NodeId 7])"
  by (rule log_config_at_latest [where j = 1 and
        e = "\<lparr>e_term = 1, e_index = 1, e_payload = ConfigPayload (simple [NodeId 7])\<rparr>"])
    (auto simp: default_log_def wf_log_def log_get_eq)

end
