(* ===== verification/RaftEvent.thy ===== *)
theory RaftEvent
  imports RaftLog
begin

text \<open>
  The messages, input events and effects of the Raft automaton
  (\<open>basisdb-raft/src/raft/event.rs\<close>), with the step result and role transitions of
  \<open>basisdb-raft/src/raft/mod.rs\<close>. A handler returns what its caller has to do: whether the
  persistent state has to be saved, which messages to send, which snapshots to transfer.
\<close>

section \<open>Messages\<close>

record PreVoteRequest =
  pvq_next_term :: Term
  pvq_last_log_index :: LogIndex
  pvq_last_log_term :: Term

record PreVoteResponse =
  pvr_term :: Term
  pvr_granted :: bool

record VoteRequest =
  vq_last_log_index :: LogIndex
  vq_last_log_term :: Term

record VoteResponse =
  vr_granted :: bool

record AppendRequest =
  prev_log_index :: LogIndex
  prev_log_term :: Term
  aq_entries :: "Entry list"
  leader_commit :: LogIndex

record AppendResponse =
  ar_success :: bool
  ar_last_log_index :: LogIndex

record ReadIndexRequest =
  riq_id :: u64
  riq_read_index :: LogIndex

record ReadIndexResponse =
  rir_id :: u64
  rir_read_index :: LogIndex

record InstallSnapshotRequest =
  last_included_index :: LogIndex
  last_included_term :: Term
  isq_configuration :: Configuration

record InstallSnapshotResponse =
  isr_success :: bool
  isr_last_included_index :: LogIndex

datatype Payload =
  PreVoteRequest PreVoteRequest
| PreVoteResponse PreVoteResponse
| VoteRequest VoteRequest
| VoteResponse VoteResponse
| AppendRequest AppendRequest
| AppendResponse AppendResponse
| InstallSnapshotRequest InstallSnapshotRequest
| InstallSnapshotResponse InstallSnapshotResponse
| ReadIndexRequest ReadIndexRequest
| ReadIndexResponse ReadIndexResponse
| TimeoutNow

record Message =
  m_from :: NodeId
  m_to :: NodeId
  m_term :: Term
  m_payload :: Payload

datatype Event =
  Tick
| Msg Message
| DiskWriteComplete LogIndex

section \<open>Effects\<close>

record SendSnapshot =
  ss_to :: NodeId
  ss_last_included_index :: LogIndex
  ss_last_included_term :: Term
  ss_configuration :: Configuration

record Effects =
  persist :: bool
  messages :: "Message list"
  send_snapshots :: "SendSnapshot list"

definition effects_none :: Effects where
  "effects_none = \<lparr>persist = False, messages = [], send_snapshots = []\<rparr>"

definition with_persist :: "Effects \<Rightarrow> Effects" where
  "with_persist eff = eff\<lparr>persist := True\<rparr>"

definition with_message :: "Effects \<Rightarrow> Message \<Rightarrow> Effects" where
  "with_message eff msg = eff\<lparr>messages := messages eff @ [msg]\<rparr>"

definition with_messages :: "Effects \<Rightarrow> Message list \<Rightarrow> Effects" where
  "with_messages eff msgs = eff\<lparr>messages := messages eff @ msgs\<rparr>"

definition with_send_snapshot :: "Effects \<Rightarrow> SendSnapshot \<Rightarrow> Effects" where
  "with_send_snapshot eff s = eff\<lparr>send_snapshots := send_snapshots eff @ [s]\<rparr>"

definition merge_effects :: "Effects \<Rightarrow> Effects \<Rightarrow> Effects" where
  "merge_effects eff other =
    \<lparr>persist = (persist eff \<or> persist other),
     messages = messages eff @ messages other,
     send_snapshots = send_snapshots eff @ send_snapshots other\<rparr>"

section \<open>Step results\<close>

datatype Transition =
  Stay
| ToFollower "NodeId option"
| ToFollowerAfterContact "NodeId option"
| ToPreCandidate
| ToCandidate
| ToLeader

record StepResult =
  transition :: Transition
  effects :: Effects

definition sr_stay :: "Effects \<Rightarrow> StepResult" where
  "sr_stay eff = \<lparr>transition = Stay, effects = eff\<rparr>"

definition sr_none :: StepResult where
  "sr_none = sr_stay effects_none"

definition sr_to_follower :: "NodeId option \<Rightarrow> Effects \<Rightarrow> StepResult" where
  "sr_to_follower leader eff = \<lparr>transition = ToFollower leader, effects = eff\<rparr>"

definition sr_to_follower_after_contact :: "NodeId option \<Rightarrow> Effects \<Rightarrow> StepResult" where
  "sr_to_follower_after_contact leader eff =
    \<lparr>transition = ToFollowerAfterContact leader, effects = eff\<rparr>"

definition sr_to_precandidate :: "Effects \<Rightarrow> StepResult" where
  "sr_to_precandidate eff = \<lparr>transition = ToPreCandidate, effects = eff\<rparr>"

definition sr_to_candidate :: "Effects \<Rightarrow> StepResult" where
  "sr_to_candidate eff = \<lparr>transition = ToCandidate, effects = eff\<rparr>"

definition sr_to_leader :: "Effects \<Rightarrow> StepResult" where
  "sr_to_leader eff = \<lparr>transition = ToLeader, effects = eff\<rparr>"

lemma effects_none_sel [simp]:
  "persist effects_none = False" "messages effects_none = []" "send_snapshots effects_none = []"
  by (simp_all add: effects_none_def)

lemma with_persist_sel [simp]:
  "persist (with_persist eff)" "messages (with_persist eff) = messages eff"
  "send_snapshots (with_persist eff) = send_snapshots eff"
  by (simp_all add: with_persist_def)

lemma with_message_sel [simp]:
  "persist (with_message eff m) = persist eff"
  "messages (with_message eff m) = messages eff @ [m]"
  "send_snapshots (with_message eff m) = send_snapshots eff"
  by (simp_all add: with_message_def)

lemma with_messages_sel [simp]:
  "persist (with_messages eff ms) = persist eff"
  "messages (with_messages eff ms) = messages eff @ ms"
  "send_snapshots (with_messages eff ms) = send_snapshots eff"
  by (simp_all add: with_messages_def)

lemma with_send_snapshot_sel [simp]:
  "persist (with_send_snapshot eff s) = persist eff"
  "messages (with_send_snapshot eff s) = messages eff"
  "send_snapshots (with_send_snapshot eff s) = send_snapshots eff @ [s]"
  by (simp_all add: with_send_snapshot_def)

lemma merge_effects_sel [simp]:
  "persist (merge_effects a b) \<longleftrightarrow> persist a \<or> persist b"
  "messages (merge_effects a b) = messages a @ messages b"
  "send_snapshots (merge_effects a b) = send_snapshots a @ send_snapshots b"
  by (simp_all add: merge_effects_def)

lemma merge_effects_monoid [simp]:
  "merge_effects effects_none a = a" "merge_effects a effects_none = a"
  "merge_effects (merge_effects a b) c = merge_effects a (merge_effects b c)"
  by (simp_all add: merge_effects_def effects_none_def)

lemma sr_sel [simp]:
  "transition (sr_stay eff) = Stay" "effects (sr_stay eff) = eff"
  "transition sr_none = Stay" "effects sr_none = effects_none"
  "transition (sr_to_follower l eff) = ToFollower l" "effects (sr_to_follower l eff) = eff"
  "transition (sr_to_follower_after_contact l eff) = ToFollowerAfterContact l"
  "effects (sr_to_follower_after_contact l eff) = eff"
  "transition (sr_to_precandidate eff) = ToPreCandidate"
  "effects (sr_to_precandidate eff) = eff"
  "transition (sr_to_candidate eff) = ToCandidate" "effects (sr_to_candidate eff) = eff"
  "transition (sr_to_leader eff) = ToLeader" "effects (sr_to_leader eff) = eff"
  by (simp_all add: sr_none_def sr_stay_def sr_to_follower_def sr_to_follower_after_contact_def
      sr_to_precandidate_def sr_to_candidate_def sr_to_leader_def)

end
