(* ===== verification/RaftCore.thy ===== *)
theory RaftCore
  imports RaftEvent
begin

text \<open>
  The state all roles share (\<open>basisdb-raft/src/raft/core.rs\<close>): configuration parameters, the
  persistent term, vote and log, the commit and applied indices, logical time, and the
  xorshift generator behind the election timeout. A method taking \<open>&mut self\<close> returns the
  updated \<open>Core\<close>; the two operations that can panic return \<open>None\<close> then
  (\<open>random_election_timeout\<close> divides by the width of the timeout range, and
  \<open>proposal_limit_exceeded\<close> asserts that the commit index is within the log).
\<close>

unbundle bit_operations_syntax

section \<open>Parameters and state\<close>

record Config =
  cfg_id :: NodeId
  election_timeout :: "u64 \<times> u64"
  heartbeat_interval :: u64
  max_entries_per_msg :: u64
  max_uncommitted_entries :: u64
  max_uncommitted_bytes :: u64
  membership_mode :: MembershipMode
  prevote :: bool
  parallel_disk_write :: bool
  pipelining :: bool

definition config_new :: "NodeId \<Rightarrow> Config" where
  "config_new i =
    \<lparr>cfg_id = i, election_timeout = (150, 300), heartbeat_interval = 75,
     max_entries_per_msg = 100, max_uncommitted_entries = 1024,
     max_uncommitted_bytes = 64 * 1024 * 1024, membership_mode = SingleServer,
     prevote = True, parallel_disk_write = True, pipelining = True\<rparr>"

definition with_membership_mode :: "Config \<Rightarrow> MembershipMode \<Rightarrow> Config" where
  "with_membership_mode c mode = c\<lparr>membership_mode := mode\<rparr>"

definition with_election_timeout :: "Config \<Rightarrow> u64 \<Rightarrow> u64 \<Rightarrow> Config" where
  "with_election_timeout c lo hi = c\<lparr>election_timeout := (lo, hi)\<rparr>"

definition with_heartbeat_interval :: "Config \<Rightarrow> u64 \<Rightarrow> Config" where
  "with_heartbeat_interval c interval = c\<lparr>heartbeat_interval := interval\<rparr>"

definition with_prevote :: "Config \<Rightarrow> bool \<Rightarrow> Config" where
  "with_prevote c enabled = c\<lparr>prevote := enabled\<rparr>"

definition with_parallel_disk_write :: "Config \<Rightarrow> bool \<Rightarrow> Config" where
  "with_parallel_disk_write c enabled = c\<lparr>parallel_disk_write := enabled\<rparr>"

definition with_pipelining :: "Config \<Rightarrow> bool \<Rightarrow> Config" where
  "with_pipelining c enabled = c\<lparr>pipelining := enabled\<rparr>"

definition config_default :: Config where
  "config_default = config_new (NodeId 0)"

record Persistent =
  p_term :: Term
  voted_for :: "NodeId option"
  p_log :: Log
  bootstrap_config :: Configuration

definition persistent_default :: Persistent where
  "persistent_default =
    \<lparr>p_term = 0, voted_for = None, p_log = default_log,
     bootstrap_config = default_configuration\<rparr>"

record Core =
  config :: Config
  persistent :: Persistent
  commit_index :: LogIndex
  last_applied :: LogIndex
  ticks :: u64
  rng :: u64

definition initial_rng :: "Config \<Rightarrow> u64" where
  "initial_rng c = node_num (cfg_id c) * 0x5DEECE66D + 0xB"

definition core_new :: "Config \<Rightarrow> NodeId list \<Rightarrow> Core" where
  "core_new c vs =
    (let bootstrap = simple vs;
         p = persistent_default\<lparr>bootstrap_config := bootstrap\<rparr>
     in \<lparr>config = c, persistent = p, commit_index = 0, last_applied = 0, ticks = 0,
         rng = initial_rng c\<rparr>)"

definition core_restore :: "Config \<Rightarrow> Persistent \<Rightarrow> Core" where
  "core_restore c p =
    \<lparr>config = c, persistent = p, commit_index = 0, last_applied = 0, ticks = 0,
     rng = initial_rng c\<rparr>"

definition core_id :: "Core \<Rightarrow> NodeId" where
  "core_id core = cfg_id (config core)"

definition core_term :: "Core \<Rightarrow> Term" where
  "core_term core = p_term (persistent core)"

definition core_log :: "Core \<Rightarrow> Log" where
  "core_log core = p_log (persistent core)"

text \<open>Assignment through \<open>log_mut\<close>.\<close>

definition set_log :: "Core \<Rightarrow> Log \<Rightarrow> Core" where
  "set_log core l = core\<lparr>persistent := (persistent core)\<lparr>p_log := l\<rparr>\<rparr>"

section \<open>Operations\<close>

fun command_len :: "EntryPayload \<Rightarrow> nat option" where
  "command_len (CommandPayload c) = Some (length (command_bytes c))"
| "command_len (ConfigPayload c) = None"

fun sum_bytes :: "nat list \<Rightarrow> u64 \<Rightarrow> u64 option" where
  "sum_bytes [] acc = Some acc"
| "sum_bytes (b # bs) acc =
    (if fits_u64 b then Option.bind (checked_add acc (of_nat b)) (sum_bytes bs) else None)"

definition proposal_limit_exceeded :: "Core \<Rightarrow> Command \<Rightarrow> bool option" where
  "proposal_limit_exceeded core command =
    (let last = last_index (core_log core) in
     if \<not> commit_index core \<le> last then None
     else do {
       entries \<leftarrow> log_slice (core_log core) (commit_index core + 1) last;
       if \<not> fits_u64 (length entries) then Some True
       else if of_nat (length entries) \<ge> max_uncommitted_entries (config core) then Some True
       else
         case sum_bytes
                (List.map_filter (\<lambda>e. command_len (e_payload e)) entries
                  @ [length (command_bytes command)]) 0 of
           None \<Rightarrow> Some True
         | Some bytes \<Rightarrow> Some (bytes > max_uncommitted_bytes (config core)) })"

definition maybe_update_term :: "Core \<Rightarrow> Term \<Rightarrow> Core \<times> bool" where
  "maybe_update_term core t =
    (if t > p_term (persistent core)
     then (core\<lparr>persistent := (persistent core)\<lparr>p_term := t, voted_for := None\<rparr>\<rparr>, True)
     else (core, False))"

definition config_at :: "Core \<Rightarrow> LogIndex \<Rightarrow> Configuration" where
  "config_at core index =
    (case log_config_at (p_log (persistent core)) index of
       Some c \<Rightarrow> c | None \<Rightarrow> bootstrap_config (persistent core))"

definition effective_config :: "Core \<Rightarrow> Configuration" where
  "effective_config core = config_at core (last_index (p_log (persistent core)))"

definition core_is_voter :: "Core \<Rightarrow> bool" where
  "core_is_voter core \<longleftrightarrow> is_voter (effective_config core) (cfg_id (config core))"

definition start_election :: "Core \<Rightarrow> Core" where
  "start_election core =
    (let can_vote_for_self = core_is_voter core in
     core\<lparr>persistent := (persistent core)
       \<lparr>p_term := p_term (persistent core) + 1,
        voted_for := (if can_vote_for_self then Some (cfg_id (config core)) else None)\<rparr>\<rparr>)"

definition vote_for :: "Core \<Rightarrow> NodeId \<Rightarrow> Core" where
  "vote_for core candidate =
    core\<lparr>persistent := (persistent core)\<lparr>voted_for := Some candidate\<rparr>\<rparr>"

definition can_vote_for :: "Core \<Rightarrow> NodeId \<Rightarrow> bool" where
  "can_vote_for core candidate \<longleftrightarrow>
    voted_for (persistent core) = None \<or> voted_for (persistent core) = Some candidate"

definition log_is_up_to_date :: "Core \<Rightarrow> Term \<Rightarrow> LogIndex \<Rightarrow> bool" where
  "log_is_up_to_date core lt li \<longleftrightarrow>
    (let our_term = last_term (p_log (persistent core));
         our_index = last_index (p_log (persistent core))
     in lt > our_term \<or> lt = our_term \<and> li \<ge> our_index)"

definition rand :: "Core \<Rightarrow> Core \<times> u64" where
  "rand core =
    (let r1 = rng core XOR push_bit 13 (rng core);
         r2 = r1 XOR drop_bit 7 r1;
         r3 = r2 XOR push_bit 17 r2
     in (core\<lparr>rng := r3\<rparr>, r3))"

definition random_election_timeout :: "Core \<Rightarrow> (Core \<times> u64) option" where
  "random_election_timeout core =
    (let (lo, hi) = election_timeout (config core);
         (core', r) = rand core
     in if hi - lo = 0 then None else Some (core', lo + r mod (hi - lo)))"

definition has_pending_config :: "Core \<Rightarrow> bool" where
  "has_pending_config core \<longleftrightarrow>
    log_pending_config_index (p_log (persistent core)) (commit_index core) \<noteq> None"

definition pending_config_index :: "Core \<Rightarrow> LogIndex option" where
  "pending_config_index core =
    log_pending_config_index (p_log (persistent core)) (commit_index core)"

section \<open>Frame lemmas\<close>

named_theorems core_simps \<open>accessors of updated cores\<close>

lemmas core_accessors = core_id_def core_term_def core_log_def

lemma set_log_sel [simp]:
  "config (set_log c l) = config c" "p_log (persistent (set_log c l)) = l"
  "p_term (persistent (set_log c l)) = p_term (persistent c)"
  "voted_for (persistent (set_log c l)) = voted_for (persistent c)"
  "bootstrap_config (persistent (set_log c l)) = bootstrap_config (persistent c)"
  "commit_index (set_log c l) = commit_index c" "last_applied (set_log c l) = last_applied c"
  "ticks (set_log c l) = ticks c" "rng (set_log c l) = rng c"
  "core_log (set_log c l) = l" "core_term (set_log c l) = core_term c"
  "core_id (set_log c l) = core_id c"
  by (simp_all add: set_log_def core_accessors)

lemma set_log_same [simp]: "set_log c (core_log c) = c"
  by (simp add: set_log_def core_accessors)

text \<open>The generator on integers, for evaluation: one \<open>xorshift64\<close> step.\<close>

definition xorshift_int :: "int \<Rightarrow> int" where
  "xorshift_int r =
    (let r1 = r XOR take_bit 64 (push_bit 13 r);
         r2 = r1 XOR drop_bit 7 r1
     in r2 XOR take_bit 64 (push_bit 17 r2))"

lemma uint_xor_push:
  "uint ((w :: u64) XOR push_bit k w) = uint w XOR take_bit 64 (push_bit k (uint w))"
  by (simp add: unsigned_xor_eq unsigned_push_bit_eq)

lemma uint_xor_drop: "uint ((w :: u64) XOR drop_bit k w) = uint w XOR drop_bit k (uint w)"
proof -
  have "take_bit 64 (uint w) = uint w"
    using uint_bounded [of w] by (simp add: take_bit_int_eq_self)
  then show ?thesis by (simp add: unsigned_xor_eq unsigned_drop_bit_eq)
qed

lemma rand_xorshift_int [code]:
  "rand c = (let r = (word_of_int (xorshift_int (uint (rng c))) :: u64) in (c\<lparr>rng := r\<rparr>, r))"
proof -
  let ?r1 = "rng c XOR push_bit 13 (rng c)"
  let ?r2 = "?r1 XOR drop_bit 7 ?r1"
  have "uint (?r2 XOR push_bit 17 ?r2) = xorshift_int (uint (rng c))"
    by (simp only: xorshift_int_def Let_def uint_xor_push uint_xor_drop)
  then have "word_of_int (xorshift_int (uint (rng c))) = ?r2 XOR push_bit 17 ?r2"
    by (metis word_of_int_uint)
  then show ?thesis by (simp add: rand_def Let_def)
qed

text \<open>Equality of two cores up to the state of the random generator.\<close>

definition rng_frame :: "Core \<Rightarrow> Core \<Rightarrow> bool" where
  "rng_frame c c' \<longleftrightarrow> (\<exists>r. c' = c\<lparr>rng := r\<rparr>)"

lemma rng_frameD:
  assumes "rng_frame c c'"
  shows "config c' = config c" "persistent c' = persistent c" "commit_index c' = commit_index c"
    "last_applied c' = last_applied c" "ticks c' = ticks c"
    "core_id c' = core_id c" "core_term c' = core_term c" "core_log c' = core_log c"
  using assms by (auto simp: rng_frame_def core_accessors)

lemma rng_frame_refl [simp]: "rng_frame c c"
  unfolding rng_frame_def by (rule exI [of _ "rng c"]) simp

lemma random_election_timeout_frame:
  "random_election_timeout c = Some (c', t) \<Longrightarrow> rng_frame c c'"
  by (auto simp: random_election_timeout_def rand_def rng_frame_def Let_def split: prod.splits if_splits)

lemma random_election_timeout_None_iff:
  "random_election_timeout c = None \<longleftrightarrow>
    fst (election_timeout (config c)) = snd (election_timeout (config c))"
  by (auto simp: random_election_timeout_def Let_def split: prod.splits)

text \<open>The timeout range that keeps the draw from panicking.\<close>

definition timeout_ok :: "Config \<Rightarrow> bool" where
  "timeout_ok cfg \<longleftrightarrow> fst (election_timeout cfg) < snd (election_timeout cfg)"

lemma random_election_timeout_total:
  "timeout_ok (config c) \<Longrightarrow> \<exists>c' t. random_election_timeout c = Some (c', t)"
  using random_election_timeout_None_iff [of c] by (auto simp: timeout_ok_def not_None_eq)

lemma effective_config_cong:
  "persistent c' = persistent c \<Longrightarrow> effective_config c' = effective_config c"
  by (simp add: effective_config_def config_at_def split: option.splits)

lemma core_is_voter_cong:
  "persistent c' = persistent c \<Longrightarrow> config c' = config c \<Longrightarrow> core_is_voter c' = core_is_voter c"
  using effective_config_cong [of c' c] by (simp add: core_is_voter_def)

lemma effective_config_update [simp]:
  "effective_config (c\<lparr>commit_index := i\<rparr>) = effective_config c"
  "effective_config (c\<lparr>ticks := k\<rparr>) = effective_config c"
  "effective_config (c\<lparr>last_applied := i\<rparr>) = effective_config c"
  by (simp_all add: effective_config_def config_at_def split: option.splits)

lemma core_accessors_update [simp]:
  "core_log (c\<lparr>commit_index := i\<rparr>) = core_log c" "core_log (c\<lparr>ticks := k\<rparr>) = core_log c"
  "core_log (c\<lparr>last_applied := i\<rparr>) = core_log c"
  "core_id (c\<lparr>commit_index := i\<rparr>) = core_id c" "core_id (c\<lparr>ticks := k\<rparr>) = core_id c"
  "core_id (c\<lparr>last_applied := i\<rparr>) = core_id c"
  "core_term (c\<lparr>commit_index := i\<rparr>) = core_term c" "core_term (c\<lparr>ticks := k\<rparr>) = core_term c"
  "core_term (c\<lparr>last_applied := i\<rparr>) = core_term c"
  by (simp_all add: core_accessors)

lemma vote_for_sel [simp]:
  "config (vote_for c x) = config c" "core_id (vote_for c x) = core_id c"
  "core_term (vote_for c x) = core_term c" "core_log (vote_for c x) = core_log c"
  "voted_for (persistent (vote_for c x)) = Some x"
  "bootstrap_config (persistent (vote_for c x)) = bootstrap_config (persistent c)"
  "commit_index (vote_for c x) = commit_index c" "ticks (vote_for c x) = ticks c"
  "last_applied (vote_for c x) = last_applied c"
  by (simp_all add: vote_for_def core_accessors)

lemma start_election_sel [simp]:
  "config (start_election c) = config c" "core_id (start_election c) = core_id c"
  "core_term (start_election c) = core_term c + 1" "core_log (start_election c) = core_log c"
  "bootstrap_config (persistent (start_election c)) = bootstrap_config (persistent c)"
  "commit_index (start_election c) = commit_index c" "ticks (start_election c) = ticks c"
  "last_applied (start_election c) = last_applied c"
  by (simp_all add: start_election_def core_accessors Let_def)

lemma maybe_update_term_sel:
  assumes "maybe_update_term c t = (c', b)"
  shows "config c' = config c" "core_id c' = core_id c" "core_log c' = core_log c"
    "commit_index c' = commit_index c" "ticks c' = ticks c" "last_applied c' = last_applied c"
    "bootstrap_config (persistent c') = bootstrap_config (persistent c)"
    "core_term c' = max (core_term c) t" "b \<longleftrightarrow> core_term c < t"
    "\<not> b \<Longrightarrow> c' = c" "b \<Longrightarrow> voted_for (persistent c') = None"
  using assms by (auto simp: maybe_update_term_def core_accessors max_def split: if_splits)

section \<open>Terms and votes\<close>

text \<open>What every step does to the term and the vote: the term never decreases, and within a
  term a vote is never changed. The node's parameters and its bootstrap configuration are
  fixed.\<close>

definition vote_step :: "Core \<Rightarrow> Core \<Rightarrow> bool" where
  "vote_step c c' \<longleftrightarrow>
    config c' = config c
    \<and> bootstrap_config (persistent c') = bootstrap_config (persistent c)
    \<and> core_term c \<le> core_term c'
    \<and> (core_term c' = core_term c \<longrightarrow>
        (\<forall>x. voted_for (persistent c) = Some x \<longrightarrow> voted_for (persistent c') = Some x))"

lemma vote_step_refl [simp]: "vote_step c c"
  by (simp add: vote_step_def)

lemma vote_step_trans: "vote_step a b \<Longrightarrow> vote_step b c \<Longrightarrow> vote_step a c"
  by (auto simp: vote_step_def)

lemma vote_stepI_same:
  "config c' = config c \<Longrightarrow> core_term c' = core_term c \<Longrightarrow>
   voted_for (persistent c') = voted_for (persistent c) \<Longrightarrow>
   bootstrap_config (persistent c') = bootstrap_config (persistent c) \<Longrightarrow> vote_step c c'"
  by (simp add: vote_step_def)

lemma vote_step_rng: "rng_frame c c' \<Longrightarrow> vote_step c c'"
  by (rule vote_stepI_same) (simp_all add: rng_frameD)

lemma vote_step_set_log [simp]: "vote_step c (set_log c l)"
  by (rule vote_stepI_same) simp_all

lemma vote_step_update [simp]:
  "vote_step c (c\<lparr>commit_index := i\<rparr>)" "vote_step c (c\<lparr>ticks := k\<rparr>)"
  "vote_step c (c\<lparr>last_applied := i\<rparr>)"
  by (rule vote_stepI_same; simp)+

lemma vote_step_vote_for: "can_vote_for c x \<Longrightarrow> vote_step c (vote_for c x)"
  by (auto simp: vote_step_def can_vote_for_def)

lemma vote_step_maybe_update: "maybe_update_term c t = (c', b) \<Longrightarrow> vote_step c c'"
  by (auto simp: vote_step_def maybe_update_term_def core_accessors split: if_splits)

lemma vote_step_start_election: "core_term c \<noteq> u64_max \<Longrightarrow> vote_step c (start_election c)"
  using u64_less_Suc [of "core_term c"] by (auto simp: vote_step_def)

section \<open>Messages a node may send\<close>

definition grants :: "Message \<Rightarrow> bool" where
  "grants m = (case m_payload m of VoteResponse r \<Rightarrow> vr_granted r | _ \<Rightarrow> False)"

text \<open>Every message carries the sender's identity, and a granted vote is backed by the
  sender's persistent vote in the term of the message.\<close>

definition sound_message :: "Core \<Rightarrow> Message \<Rightarrow> bool" where
  "sound_message c m \<longleftrightarrow> m_from m = core_id c
    \<and> (grants m \<longrightarrow> m_term m = core_term c \<and> voted_for (persistent c) = Some (m_to m))"

definition sound_messages :: "Core \<Rightarrow> Message list \<Rightarrow> bool" where
  "sound_messages c ms \<longleftrightarrow> (\<forall>m \<in> set ms. sound_message c m)"

definition ungranting :: "NodeId \<Rightarrow> Message list \<Rightarrow> bool" where
  "ungranting me ms \<longleftrightarrow> (\<forall>m \<in> set ms. m_from m = me \<and> \<not> grants m)"

lemma sound_messages_simps [simp]:
  "sound_messages c []" "sound_messages c (m # ms) \<longleftrightarrow> sound_message c m \<and> sound_messages c ms"
  "sound_messages c (ms @ ms') \<longleftrightarrow> sound_messages c ms \<and> sound_messages c ms'"
  by (auto simp: sound_messages_def)

lemma ungranting_simps [simp]:
  "ungranting me []" "ungranting me (m # ms) \<longleftrightarrow> m_from m = me \<and> \<not> grants m \<and> ungranting me ms"
  "ungranting me (ms @ ms') \<longleftrightarrow> ungranting me ms \<and> ungranting me ms'"
  by (auto simp: ungranting_def)

lemma ungranting_sound: "ungranting (core_id c) ms \<Longrightarrow> sound_messages c ms"
  by (auto simp: ungranting_def sound_messages_def sound_message_def)

text \<open>Logs and messages without configuration entries: what a cluster with a fixed
  membership exchanges.\<close>

definition plain_log :: "Log \<Rightarrow> bool" where
  "plain_log l \<longleftrightarrow>
    (\<forall>e \<in> set (log_entries l). \<not> is_config (e_payload e)) \<and> snapshot_config l = None"

definition plain_message :: "Message \<Rightarrow> bool" where
  "plain_message m =
    (case m_payload m of
       AppendRequest r \<Rightarrow> (\<forall>e \<in> set (aq_entries r). \<not> is_config (e_payload e))
     | InstallSnapshotRequest _ \<Rightarrow> False
     | _ \<Rightarrow> True)"

definition plain_event :: "Event \<Rightarrow> bool" where
  "plain_event ev = (case ev of Msg m \<Rightarrow> plain_message m | _ \<Rightarrow> True)"

lemma plain_effective_config:
  "plain_log (core_log c) \<Longrightarrow> effective_config c = bootstrap_config (persistent c)"
  by (simp add: effective_config_def config_at_def plain_log_def core_log_def
      log_config_at_no_config)

lemma plain_truncate_after [simp]: "plain_log l \<Longrightarrow> plain_log (truncate_after l i)"
  by (auto simp: plain_log_def truncate_after_eq dest: in_set_takeD)

lemma plain_append [simp]:
  "plain_log l \<Longrightarrow> \<not> is_config (e_payload e) \<Longrightarrow> plain_log (log_append l e)"
  by (auto simp: plain_log_def)

lemma plain_default_log [simp]: "plain_log default_log"
  by (simp add: plain_log_def default_log_def)

section \<open>Properties\<close>

text \<open>The election timeout drawn from a non-empty range \<open>[min, max)\<close> lies in that range,
  the draw does not panic, and it changes nothing but the state of the generator. The draw
  panics exactly when the two bounds are equal.\<close>

theorem random_election_timeout_in_range:
  assumes "timeout_ok (config c)"
  shows "\<exists>c' t. random_election_timeout c = Some (c', t)
    \<and> fst (election_timeout (config c)) \<le> t \<and> t < snd (election_timeout (config c))
    \<and> c' = c\<lparr>rng := rng c'\<rparr>"
proof -
  obtain lo hi where et: "election_timeout (config c) = (lo, hi)" by force
  then have lt: "lo < hi" using assms by (simp add: timeout_ok_def)
  obtain c' t where r: "random_election_timeout c = Some (c', t)"
    using random_election_timeout_total [OF assms] by blast
  then obtain x where t: "t = lo + x mod (hi - lo)"
    by (auto simp: random_election_timeout_def et Let_def split: prod.splits if_splits)
  have d: "unat (hi - lo) = unat hi - unat lo" "0 < unat hi - unat lo"
    using lt unat_u64_diff [of lo hi] by (simp_all add: u64_nat)
  have m: "unat (x mod (hi - lo)) < unat hi - unat lo"
    using d by (simp add: unat_mod)
  then have "unat t = unat lo + unat (x mod (hi - lo))"
    unfolding t by (intro unat_u64_add) (use unat_u64_lt [of hi] in linarith)
  with m d have "lo \<le> t" "t < hi" by (simp_all add: u64_nat)
  with r et random_election_timeout_frame [OF r] show ?thesis by (auto simp: rng_frame_def)
qed

theorem random_election_timeout_in_range_witness:
  "\<exists>c' t. random_election_timeout (core_new (config_new (NodeId 1)) [NodeId 1]) = Some (c', t)
    \<and> 150 \<le> t \<and> t < 300"
  using random_election_timeout_in_range [of "core_new (config_new (NodeId 1)) [NodeId 1]"]
  by (auto simp: core_new_def config_new_def timeout_ok_def Let_def)

end
