(* ===== verification/Follower.thy ===== *)
theory Follower
  imports RaftCore
begin

text \<open>
  The follower role (\<open>basisdb-raft/src/raft/follower.rs\<close>). A handler takes the role state and
  the core and returns both updated, with the step result; \<open>None\<close> is a panic, which only the
  election-timeout draw can raise here.
\<close>

record Follower =
  f_leader :: "NodeId option"
  f_election_deadline :: u64
  f_last_contact_tick :: "u64 option"

definition follower_new :: "Core \<Rightarrow> NodeId option \<Rightarrow> (Follower \<times> Core) option" where
  "follower_new core leader = do {
     (core, timeout) \<leftarrow> random_election_timeout core;
     Some (\<lparr>f_leader = leader, f_election_deadline = ticks core + timeout,
            f_last_contact_tick = None\<rparr>, core) }"

definition after_leader_contact :: "Core \<Rightarrow> NodeId option \<Rightarrow> (Follower \<times> Core) option" where
  "after_leader_contact core leader = do {
     (f, core) \<leftarrow> follower_new core leader;
     Some (f\<lparr>f_last_contact_tick := Some (ticks core)\<rparr>, core) }"

definition follower_ticks_until_deadline :: "Follower \<Rightarrow> u64 \<Rightarrow> u64" where
  "follower_ticks_until_deadline f now = saturating_sub (f_election_deadline f) now"

definition recently_heard_from_leader :: "Follower \<Rightarrow> Core \<Rightarrow> bool" where
  "recently_heard_from_leader f core =
    (if f_leader f = None then False
     else case f_last_contact_tick f of
            None \<Rightarrow> False
          | Some last_contact_tick \<Rightarrow>
              saturating_sub (ticks core) last_contact_tick
                < fst (election_timeout (config core)))"

definition reset_deadline :: "Follower \<Rightarrow> Core \<Rightarrow> (Follower \<times> Core) option" where
  "reset_deadline f core = do {
     (core, timeout) \<leftarrow> random_election_timeout core;
     Some (f\<lparr>f_election_deadline := ticks core + timeout\<rparr>, core) }"

definition record_contact :: "Follower \<Rightarrow> Core \<Rightarrow> Follower" where
  "record_contact f core = f\<lparr>f_last_contact_tick := Some (ticks core)\<rparr>"

definition follower_handle_tick ::
    "Follower \<Rightarrow> Core \<Rightarrow> (Follower \<times> Core \<times> StepResult) option" where
  "follower_handle_tick f core =
    (let core = core\<lparr>ticks := ticks core + 1\<rparr> in
     if ticks core \<ge> f_election_deadline f then
       if prevote (config core) then Some (f, core, sr_to_precandidate effects_none)
       else Some (f, core, sr_to_candidate effects_none)
     else Some (f, core, sr_none))"

definition follower_handle_vote_request ::
    "Follower \<Rightarrow> Core \<Rightarrow> NodeId \<Rightarrow> VoteRequest \<Rightarrow> (Follower \<times> Core \<times> StepResult) option" where
  "follower_handle_vote_request f core from req =
    (let dominated = log_is_up_to_date core (vq_last_log_term req) (vq_last_log_index req);
         candidate_is_voter = is_voter (effective_config core) from;
         can_vote = can_vote_for core from;
         granted = (candidate_is_voter \<and> can_vote \<and> dominated)
     in do {
       (f, core, eff) \<leftarrow>
         (if granted then do {
            (f, core) \<leftarrow> reset_deadline f (vote_for core from);
            Some (f, core, with_persist effects_none) }
          else Some (f, core, effects_none));
       let resp = \<lparr>m_from = core_id core, m_to = from, m_term = core_term core,
                   m_payload = VoteResponse \<lparr>vr_granted = granted\<rparr>\<rparr>;
       Some (f, core, sr_stay (with_message eff resp)) })"

text \<open>The loop over the request's entries: truncate on a conflict, append what is new. The
  flag says whether something was appended.\<close>

fun append_entries :: "Log \<Rightarrow> Entry list \<Rightarrow> bool \<Rightarrow> Log \<times> bool" where
  "append_entries l [] changed = (l, changed)"
| "append_entries l (entry # rest) changed =
    (let existing_term = term_at l (e_index entry);
         l = (if existing_term \<noteq> 0 \<and> existing_term \<noteq> e_term entry
              then truncate_after l (e_index entry - 1) else l)
     in if e_index entry > last_index l
        then append_entries (log_append l entry) rest True
        else append_entries l rest changed)"

definition append_response :: "Core \<Rightarrow> NodeId \<Rightarrow> bool \<Rightarrow> Message" where
  "append_response core to success =
    \<lparr>m_from = core_id core, m_to = to, m_term = core_term core,
     m_payload = AppendResponse
       \<lparr>ar_success = success, ar_last_log_index = last_index (core_log core)\<rparr>\<rparr>"

definition follower_handle_append_request ::
    "Follower \<Rightarrow> Core \<Rightarrow> NodeId \<Rightarrow> AppendRequest \<Rightarrow> (Follower \<times> Core \<times> StepResult) option" where
  "follower_handle_append_request f core from req = do {
     let f = record_contact (f\<lparr>f_leader := Some from\<rparr>) core;
     (f, core) \<leftarrow> reset_deadline f core;
     if prev_log_index req > 0
        \<and> term_at (core_log core) (prev_log_index req) \<noteq> prev_log_term req
     then Some (f, core, sr_stay (with_message effects_none (append_response core from False)))
     else do {
       let (l, changed) = append_entries (core_log core) (aq_entries req) False;
       let core = set_log core l;
       let core = (if leader_commit req > commit_index core
                   then core\<lparr>commit_index := min (leader_commit req) (last_index (core_log core))\<rparr>
                   else core);
       let eff = (if changed then with_persist effects_none else effects_none);
       Some (f, core, sr_stay (with_message eff (append_response core from True))) } }"

definition follower_handle_read_index_request ::
    "Follower \<Rightarrow> Core \<Rightarrow> NodeId \<Rightarrow> ReadIndexRequest \<Rightarrow> (Follower \<times> Core \<times> StepResult) option" where
  "follower_handle_read_index_request f core from req = do {
     let f = record_contact (f\<lparr>f_leader := Some from\<rparr>) core;
     (f, core) \<leftarrow> reset_deadline f core;
     let resp = \<lparr>m_from = core_id core, m_to = from, m_term = core_term core,
                 m_payload = ReadIndexResponse
                   \<lparr>rir_id = riq_id req, rir_read_index = riq_read_index req\<rparr>\<rparr>;
     Some (f, core, sr_stay (with_message effects_none resp)) }"

definition snapshot_response :: "Core \<Rightarrow> NodeId \<Rightarrow> bool \<Rightarrow> LogIndex \<Rightarrow> Message" where
  "snapshot_response core to success index =
    \<lparr>m_from = core_id core, m_to = to, m_term = core_term core,
     m_payload = InstallSnapshotResponse
       \<lparr>isr_success = success, isr_last_included_index = index\<rparr>\<rparr>"

definition follower_handle_install_snapshot ::
    "Follower \<Rightarrow> Core \<Rightarrow> NodeId \<Rightarrow> InstallSnapshotRequest
      \<Rightarrow> (Follower \<times> Core \<times> StepResult) option" where
  "follower_handle_install_snapshot f core from req = do {
     let f = record_contact (f\<lparr>f_leader := Some from\<rparr>) core;
     (f, core) \<leftarrow> reset_deadline f core;
     let current_snapshot_index = snapshot_index (core_log core);
     if last_included_index req \<le> current_snapshot_index
     then Some (f, core, sr_stay (with_message effects_none
            (snapshot_response core from False (last_included_index req))))
     else if last_included_index req < commit_index core
          \<and> \<not> snapshot_matches_prefix (core_log core) (last_included_index req)
                (last_included_term req)
     then Some (f, core, sr_stay (with_message effects_none
            (snapshot_response core from False (last_included_index req))))
     else do {
       let core = set_log core (install_snapshot (core_log core) (last_included_index req)
                    (last_included_term req) (isq_configuration req));
       let core = (if last_included_index req > commit_index core
                   then core\<lparr>commit_index := last_included_index req\<rparr> else core);
       let core = (if last_included_index req > last_applied core
                   then core\<lparr>last_applied := last_included_index req\<rparr> else core);
       Some (f, core, sr_stay (with_message (with_persist effects_none)
         (snapshot_response core from True (last_included_index req)))) } }"

definition follower_reject_stale :: "Core \<Rightarrow> Message \<Rightarrow> Effects" where
  "follower_reject_stale core msg =
    (let reply = (\<lambda>payload. with_message effects_none
           \<lparr>m_from = core_id core, m_to = m_from msg, m_term = core_term core,
            m_payload = payload\<rparr>)
     in case m_payload msg of
          VoteRequest _ \<Rightarrow> reply (VoteResponse \<lparr>vr_granted = False\<rparr>)
        | AppendRequest _ \<Rightarrow> reply (AppendResponse
            \<lparr>ar_success = False, ar_last_log_index = last_index (core_log core)\<rparr>)
        | ReadIndexRequest req \<Rightarrow> reply (ReadIndexResponse
            \<lparr>rir_id = riq_id req, rir_read_index = riq_read_index req\<rparr>)
        | _ \<Rightarrow> effects_none)"

definition reject_due_to_active_leader :: "Core \<Rightarrow> Message \<Rightarrow> Effects" where
  "reject_due_to_active_leader core msg =
    (let reply = (\<lambda>payload. with_message effects_none
           \<lparr>m_from = core_id core, m_to = m_from msg, m_term = core_term core,
            m_payload = payload\<rparr>)
     in case m_payload msg of
          PreVoteRequest _ \<Rightarrow>
            reply (PreVoteResponse \<lparr>pvr_term = core_term core, pvr_granted = False\<rparr>)
        | VoteRequest _ \<Rightarrow> reply (VoteResponse \<lparr>vr_granted = False\<rparr>)
        | _ \<Rightarrow> effects_none)"

definition follower_handle_prevote_request ::
    "Core \<Rightarrow> NodeId \<Rightarrow> u64 \<Rightarrow> PreVoteRequest \<Rightarrow> Effects" where
  "follower_handle_prevote_request core from msg_term req =
    (let dominated = log_is_up_to_date core (pvq_last_log_term req) (pvq_last_log_index req);
         candidate_is_voter = is_voter (effective_config core) from;
         term_ok = (pvq_next_term req > core_term core);
         granted = (candidate_is_voter \<and> term_ok \<and> dominated)
     in with_message effects_none
          \<lparr>m_from = core_id core, m_to = from, m_term = msg_term,
           m_payload = PreVoteResponse
             \<lparr>pvr_term = core_term core, pvr_granted = granted\<rparr>\<rparr>)"

definition names_leader :: "Payload \<Rightarrow> bool" where
  "names_leader payload =
    (case payload of AppendRequest _ \<Rightarrow> True | ReadIndexRequest _ \<Rightarrow> True | _ \<Rightarrow> False)"

definition is_election_request :: "Payload \<Rightarrow> bool" where
  "is_election_request payload =
    (case payload of VoteRequest _ \<Rightarrow> True | PreVoteRequest _ \<Rightarrow> True | _ \<Rightarrow> False)"

text \<open>The dispatch on the payload after the term checks.\<close>

definition follower_dispatch ::
    "Follower \<Rightarrow> Core \<Rightarrow> Message \<Rightarrow> (Follower \<times> Core \<times> StepResult) option" where
  "follower_dispatch f core msg =
    (case m_payload msg of
       VoteRequest req \<Rightarrow> follower_handle_vote_request f core (m_from msg) req
     | AppendRequest req \<Rightarrow> follower_handle_append_request f core (m_from msg) req
     | ReadIndexRequest req \<Rightarrow> follower_handle_read_index_request f core (m_from msg) req
     | InstallSnapshotRequest req \<Rightarrow> follower_handle_install_snapshot f core (m_from msg) req
     | TimeoutNow \<Rightarrow> Some (f, core, sr_to_candidate effects_none)
     | _ \<Rightarrow> Some (f, core, sr_none))"

definition follower_handle_message ::
    "Follower \<Rightarrow> Core \<Rightarrow> Message \<Rightarrow> (Follower \<times> Core \<times> StepResult) option" where
  "follower_handle_message f core msg = do {
     (f, core, term_updated) \<leftarrow>
       (if m_term msg > core_term core then do {
          let (core, term_updated) = maybe_update_term core (m_term msg);
          (f, core) \<leftarrow> reset_deadline f core;
          let f = (if names_leader (m_payload msg) then f\<lparr>f_leader := Some (m_from msg)\<rparr> else f);
          Some (f, core, term_updated) }
        else Some (f, core, False));
     if m_term msg < core_term core
     then Some (f, core, sr_stay (follower_reject_stale core msg))
     else do {
       (f, core, r) \<leftarrow> follower_dispatch f core msg;
       Some (f, core,
         \<lparr>transition = transition r,
          effects = (if term_updated then with_persist (effects r) else effects r)\<rparr>) } }"

definition follower_step ::
    "Follower \<Rightarrow> Core \<Rightarrow> Event \<Rightarrow> (Follower \<times> Core \<times> StepResult) option" where
  "follower_step f core event =
    (case event of
       Tick \<Rightarrow> follower_handle_tick f core
     | DiskWriteComplete _ \<Rightarrow> Some (f, core, sr_none)
     | Msg msg \<Rightarrow>
         if is_election_request (m_payload msg) \<and> recently_heard_from_leader f core
         then Some (f, core, sr_stay (reject_due_to_active_leader core msg))
         else case m_payload msg of
                PreVoteRequest req \<Rightarrow>
                  Some (f, core, sr_stay (follower_handle_prevote_request core (m_from msg)
                    (m_term msg) req))
              | _ \<Rightarrow> follower_handle_message f core msg)"

section \<open>Frame lemmas\<close>

lemma reset_deadlineD:
  assumes "reset_deadline f c = Some (f', c')"
  shows "rng_frame c c'" "f_leader f' = f_leader f"
    "f_last_contact_tick f' = f_last_contact_tick f"
  using assms by (auto simp: reset_deadline_def bind_eq_Some_conv
      dest: random_election_timeout_frame)

lemma follower_newD:
  assumes "follower_new c l = Some (f, c')"
  shows "rng_frame c c'" "f_leader f = l"
  using assms by (auto simp: follower_new_def bind_eq_Some_conv
      dest: random_election_timeout_frame)

lemma after_leader_contactD:
  assumes "after_leader_contact c l = Some (f, c')"
  shows "rng_frame c c'" "f_leader f = l" "f_last_contact_tick f = Some (ticks c)"
proof -
  obtain f0 where *: "follower_new c l = Some (f0, c')"
    "f = f0\<lparr>f_last_contact_tick := Some (ticks c')\<rparr>"
    using assms by (auto simp: after_leader_contact_def bind_eq_Some_conv)
  from follower_newD [OF *(1)] show "rng_frame c c'" "f_leader f = l"
    "f_last_contact_tick f = Some (ticks c)"
    by (simp_all add: *(2) rng_frameD)
qed

text \<open>Case rules: what each handler did when it returned.\<close>

definition vote_granted :: "Core \<Rightarrow> NodeId \<Rightarrow> VoteRequest \<Rightarrow> bool" where
  "vote_granted c from req \<longleftrightarrow> is_voter (effective_config c) from \<and> can_vote_for c from
    \<and> log_is_up_to_date c (vq_last_log_term req) (vq_last_log_index req)"

definition vote_response :: "Core \<Rightarrow> NodeId \<Rightarrow> bool \<Rightarrow> Message" where
  "vote_response c to granted =
    \<lparr>m_from = core_id c, m_to = to, m_term = core_term c,
     m_payload = VoteResponse \<lparr>vr_granted = granted\<rparr>\<rparr>"

lemma follower_handle_vote_requestE:
  assumes "follower_handle_vote_request f c from req = Some (f', c', r)"
  obtains (grant) "vote_granted c from req"
      "reset_deadline f (vote_for c from) = Some (f', c')"
      "r = sr_stay (with_message (with_persist effects_none) (vote_response c' from True))"
  | (deny) "\<not> vote_granted c from req" "f' = f" "c' = c"
      "r = sr_stay (with_message effects_none (vote_response c' from False))"
proof (cases "vote_granted c from req")
  case True
  with assms show ?thesis
    by (intro grant) (auto simp: follower_handle_vote_request_def vote_granted_def
        vote_response_def bind_eq_Some_conv)
next
  case False
  then have "follower_handle_vote_request f c from req =
      Some (f, c, sr_stay (with_message effects_none (vote_response c from False)))"
    by (auto simp: follower_handle_vote_request_def vote_granted_def vote_response_def Let_def)
  with False assms show ?thesis by (intro deny) auto
qed

definition append_consistent :: "Core \<Rightarrow> AppendRequest \<Rightarrow> bool" where
  "append_consistent c req \<longleftrightarrow>
    \<not> (prev_log_index req > 0 \<and> term_at (core_log c) (prev_log_index req) \<noteq> prev_log_term req)"

definition bump_commit :: "Core \<Rightarrow> LogIndex \<Rightarrow> Core" where
  "bump_commit c leader_commit' =
    (if leader_commit' > commit_index c
     then c\<lparr>commit_index := min leader_commit' (last_index (core_log c))\<rparr> else c)"

lemma bump_commit_sel [simp]:
  "config (bump_commit c i) = config c" "persistent (bump_commit c i) = persistent c"
  "core_log (bump_commit c i) = core_log c" "core_term (bump_commit c i) = core_term c"
  "core_id (bump_commit c i) = core_id c" "ticks (bump_commit c i) = ticks c"
  "last_applied (bump_commit c i) = last_applied c"
  by (simp_all add: bump_commit_def)

lemma follower_handle_append_requestE:
  assumes "follower_handle_append_request f c from req = Some (f', c', r)"
  obtains (reject) "\<not> append_consistent c req" "rng_frame c c'"
      "r = sr_stay (with_message effects_none (append_response c' from False))"
      "f_leader f' = Some from"
  | (accept) c1 l changed where "append_consistent c req" "rng_frame c c1"
      "append_entries (core_log c) (aq_entries req) False = (l, changed)"
      "c' = bump_commit (set_log c1 l) (leader_commit req)"
      "r = sr_stay (with_message (if changed then with_persist effects_none else effects_none)
        (append_response c' from True))"
      "f_leader f' = Some from"
proof -
  obtain f1 c1 where d: "reset_deadline (record_contact (f\<lparr>f_leader := Some from\<rparr>) c) c = Some (f1, c1)"
    using assms by (auto simp: follower_handle_append_request_def bind_eq_Some_conv)
  note rf = reset_deadlineD [OF d]
  have lead: "f_leader f1 = Some from" using rf(2) by (simp add: record_contact_def)
  obtain l ch where ae: "append_entries (core_log c) (aq_entries req) False = (l, ch)" by force
  show ?thesis
  proof (cases "append_consistent c req")
    case False
    then have "(f', c', r) = (f1, c1,
        sr_stay (with_message effects_none (append_response c1 from False)))"
      using assms d rf(1)
      by (auto simp: follower_handle_append_request_def append_consistent_def rng_frameD)
    with False rf lead show ?thesis by (intro reject) auto
  next
    case True
    then have "(f', c', r) = (f1, bump_commit (set_log c1 l) (leader_commit req),
        sr_stay (with_message (if ch then with_persist effects_none else effects_none)
          (append_response (bump_commit (set_log c1 l) (leader_commit req)) from True)))"
      using assms d rf(1) ae
      by (auto simp: follower_handle_append_request_def append_consistent_def rng_frameD
          bump_commit_def Let_def split: if_splits)
    with True rf ae lead show ?thesis by (intro accept [of c1 l ch]) auto
  qed
qed

lemma plain_append_entries:
  "plain_log l \<Longrightarrow> \<forall>e \<in> set es. \<not> is_config (e_payload e) \<Longrightarrow>
    plain_log (fst (append_entries l es b))"
  by (induction l es b rule: append_entries.induct) (auto simp: Let_def)

text \<open>The postcondition of a follower handler that election safety rests on.\<close>

definition follower_post :: "Core \<Rightarrow> Event \<Rightarrow> Core \<Rightarrow> StepResult \<Rightarrow> bool" where
  "follower_post c ev c' r \<longleftrightarrow>
    vote_step c c' \<and> sound_messages c' (messages (effects r))
    \<and> (transition r = Stay \<or> messages (effects r) = [])
    \<and> transition r \<in> {Stay, ToPreCandidate, ToCandidate}
    \<and> (plain_log (core_log c) \<and> plain_event ev \<longrightarrow> plain_log (core_log c'))
    \<and> (\<forall>m \<in> set (messages (effects r)). plain_message m)
    \<and> send_snapshots (effects r) = []
    \<and> (core_term c' = core_term c \<or> (\<exists>m. ev = Msg m \<and> core_term c' = m_term m))
    \<and> (\<not> persist (effects r) \<longrightarrow> core_term c' = core_term c
        \<and> voted_for (persistent c') = voted_for (persistent c))"

lemma follower_handle_tick_post:
  "follower_handle_tick f c = Some (f', c', r) \<Longrightarrow> follower_post c Tick c' r"
  by (auto simp: follower_handle_tick_def follower_post_def Let_def split: if_splits)

lemma follower_handle_vote_request_post:
  assumes "follower_handle_vote_request f c from req = Some (f', c', r)"
  shows "follower_post c ev c' r"
  using assms
proof (cases rule: follower_handle_vote_requestE)
  case grant
  note rf = rng_frameD [OF reset_deadlineD(1) [OF grant(2)]]
  have "vote_step c c'"
    using grant(1) vote_step_vote_for vote_step_rng [OF reset_deadlineD(1) [OF grant(2)]]
    by (auto simp: vote_granted_def intro: vote_step_trans)
  with grant(3) rf show ?thesis
    by (simp add: follower_post_def sound_message_def grants_def plain_message_def
        vote_response_def)
next
  case deny
  then show ?thesis
    by (simp add: follower_post_def sound_message_def grants_def plain_message_def
        vote_response_def)
qed

lemma append_response_sound [simp]:
  "sound_message c (append_response c to b)" "plain_message (append_response c to b)"
  by (simp_all add: append_response_def sound_message_def grants_def plain_message_def)

lemma follower_handle_append_request_post:
  assumes "follower_handle_append_request f c from req = Some (f', c', r)"
    and "m_payload msg = AppendRequest req"
  shows "follower_post c (Msg msg) c' r"
  using assms(1)
proof (cases rule: follower_handle_append_requestE)
  case reject
  then show ?thesis by (simp add: follower_post_def vote_step_rng rng_frameD)
next
  case (accept c1 l changed)
  note rf = rng_frameD [OF accept(2)]
  have "vote_step c c'"
    by (rule vote_stepI_same) (simp_all add: accept(4) rf)
  moreover have "plain_log l" if "plain_log (core_log c)" "plain_event (Msg msg)"
    using plain_append_entries [of "core_log c" "aq_entries req" False] that accept(3) assms(2)
    by (simp add: plain_event_def plain_message_def)
  ultimately show ?thesis using accept(4,5) rf by (simp add: follower_post_def)
qed

lemma follower_handle_read_index_requestE:
  assumes "follower_handle_read_index_request f c from req = Some (f', c', r)"
  obtains "rng_frame c c'" "f_leader f' = Some from"
    "r = sr_stay (with_message effects_none \<lparr>m_from = core_id c', m_to = from,
      m_term = core_term c', m_payload = ReadIndexResponse
        \<lparr>rir_id = riq_id req, rir_read_index = riq_read_index req\<rparr>\<rparr>)"
proof -
  obtain f1 where d: "reset_deadline (record_contact (f\<lparr>f_leader := Some from\<rparr>) c) c = Some (f1, c')"
    and rest: "f' = f1" "r = sr_stay (with_message effects_none \<lparr>m_from = core_id c', m_to = from,
      m_term = core_term c', m_payload = ReadIndexResponse
        \<lparr>rir_id = riq_id req, rir_read_index = riq_read_index req\<rparr>\<rparr>)"
    using assms by (auto simp: follower_handle_read_index_request_def bind_eq_Some_conv)
  from reset_deadlineD [OF d] rest show ?thesis by (intro that) (auto simp: record_contact_def)
qed

lemma follower_handle_install_snapshotE:
  assumes "follower_handle_install_snapshot f c from req = Some (f', c', r)"
  obtains (reject) "rng_frame c c'"
      "r = sr_stay (with_message effects_none
        (snapshot_response c' from False (last_included_index req)))"
  | (install) c1 where "rng_frame c c1"
      "snapshot_index (core_log c) < last_included_index req"
      "commit_index c \<le> last_included_index req
        \<or> snapshot_matches_prefix (core_log c) (last_included_index req) (last_included_term req)"
      "c' = (set_log c1 (install_snapshot (core_log c) (last_included_index req)
               (last_included_term req) (isq_configuration req)))
             \<lparr>commit_index := max (commit_index c) (last_included_index req),
              last_applied := max (last_applied c) (last_included_index req)\<rparr>"
      "r = sr_stay (with_message (with_persist effects_none)
        (snapshot_response c' from True (last_included_index req)))"
proof -
  obtain f1 c1 where d: "reset_deadline (record_contact (f\<lparr>f_leader := Some from\<rparr>) c) c = Some (f1, c1)"
    using assms by (auto simp: follower_handle_install_snapshot_def bind_eq_Some_conv)
  note rf = reset_deadlineD(1) [OF d]
  note eqs = rng_frameD [OF rf]
  let ?bad = "last_included_index req \<le> snapshot_index (core_log c)
    \<or> last_included_index req < commit_index c
      \<and> \<not> snapshot_matches_prefix (core_log c) (last_included_index req) (last_included_term req)"
  show ?thesis
  proof (cases ?bad)
    case True
    then have "c' = c1" "r = sr_stay (with_message effects_none
        (snapshot_response c1 from False (last_included_index req)))"
      using assms d eqs by (auto simp: follower_handle_install_snapshot_def split: if_splits)
    with rf show ?thesis by (intro reject) auto
  next
    case False
    let ?c2 = "set_log c1 (install_snapshot (core_log c) (last_included_index req)
               (last_included_term req) (isq_configuration req))"
    have "?c2\<lparr>commit_index := commit_index ?c2\<rparr> = ?c2" "?c2\<lparr>last_applied := last_applied ?c2\<rparr> = ?c2"
      by simp_all
    then have "c' = ?c2\<lparr>commit_index := max (commit_index c) (last_included_index req),
              last_applied := max (last_applied c) (last_included_index req)\<rparr>"
      "r = sr_stay (with_message (with_persist effects_none)
        (snapshot_response c' from True (last_included_index req)))"
      using assms d eqs False
      by (auto simp: follower_handle_install_snapshot_def Let_def max_def set_log_def
          split: if_splits)
    with False rf show ?thesis by (intro install [of c1]) (auto simp: not_le not_less)
  qed
qed

lemma follower_reject_stale_ungranting [simp]:
  "ungranting (core_id c) (messages (follower_reject_stale c msg))"
  "\<forall>m \<in> set (messages (follower_reject_stale c msg)). plain_message m"
  "send_snapshots (follower_reject_stale c msg) = []"
  "persist (follower_reject_stale c msg) = False"
  by (auto simp: follower_reject_stale_def Let_def grants_def plain_message_def
      split: Payload.splits)

lemma reject_active_ungranting [simp]:
  "ungranting (core_id c) (messages (reject_due_to_active_leader c msg))"
  "\<forall>m \<in> set (messages (reject_due_to_active_leader c msg)). plain_message m"
  "send_snapshots (reject_due_to_active_leader c msg) = []"
  "persist (reject_due_to_active_leader c msg) = False"
  by (auto simp: reject_due_to_active_leader_def Let_def grants_def plain_message_def
      split: Payload.splits)

lemma follower_prevote_ungranting [simp]:
  "ungranting (core_id c) (messages (follower_handle_prevote_request c from t req))"
  "\<forall>m \<in> set (messages (follower_handle_prevote_request c from t req)). plain_message m"
  "send_snapshots (follower_handle_prevote_request c from t req) = []"
  "persist (follower_handle_prevote_request c from t req) = False"
  by (auto simp: follower_handle_prevote_request_def Let_def grants_def plain_message_def)

lemma follower_post_stay:
  assumes "rng_frame c c'" "ungranting (core_id c') (messages eff)"
    "\<forall>m \<in> set (messages eff). plain_message m" "send_snapshots eff = []"
  shows "follower_post c ev c' (sr_stay eff)"
  using assms by (auto simp: follower_post_def vote_step_rng ungranting_sound rng_frameD)

lemma follower_dispatch_post:
  assumes "follower_dispatch f c msg = Some (f', c', r)"
  shows "follower_post c (Msg msg) c' r"
proof (cases "m_payload msg")
  case (VoteRequest req)
  with assms show ?thesis
    by (auto simp: follower_dispatch_def intro: follower_handle_vote_request_post)
next
  case (AppendRequest req)
  with assms show ?thesis
    by (auto simp: follower_dispatch_def intro: follower_handle_append_request_post)
next
  case (ReadIndexRequest req)
  with assms show ?thesis
    by (auto simp: follower_dispatch_def grants_def plain_message_def
        intro!: follower_post_stay elim!: follower_handle_read_index_requestE)
next
  case (InstallSnapshotRequest req)
  with assms have h: "follower_handle_install_snapshot f c (m_from msg) req = Some (f', c', r)"
    by (simp add: follower_dispatch_def)
  from h show ?thesis
  proof (cases rule: follower_handle_install_snapshotE)
    case reject
    then show ?thesis
      by (auto simp: snapshot_response_def grants_def plain_message_def intro!: follower_post_stay)
  next
    case (install c1)
    have "vote_step c c'"
      by (rule vote_stepI_same) (simp_all add: install(4) rng_frameD [OF install(1)])
    moreover have "core_term c' = core_term c"
      by (simp add: install(4) rng_frameD [OF install(1)])
    ultimately show ?thesis using install(5)
      by (auto simp: follower_post_def snapshot_response_def sound_message_def grants_def
          plain_message_def plain_event_def InstallSnapshotRequest)
  qed
qed (use assms in \<open>auto simp: follower_dispatch_def follower_post_def\<close>)

lemma follower_handle_messageE:
  assumes "follower_handle_message f c msg = Some (f', c', r)"
  obtains (stale) "m_term msg < core_term c" "f' = f" "c' = c"
      "r = sr_stay (follower_reject_stale c msg)"
  | (current) "m_term msg = core_term c" "follower_dispatch f c msg = Some (f', c', r)"
  | (newer) c0 f1 c1 r1 where "core_term c < m_term msg"
      "maybe_update_term c (m_term msg) = (c0, True)" "rng_frame c0 c1"
      "follower_dispatch f1 c1 msg = Some (f', c', r1)"
      "r = \<lparr>transition = transition r1, effects = with_persist (effects r1)\<rparr>"
proof -
  consider (lt) "m_term msg < core_term c" | (eq) "m_term msg = core_term c"
    | (gt) "core_term c < m_term msg"
    by (metis linorder_neqE)
  then show ?thesis
  proof cases
    case lt
    then have "\<not> core_term c < m_term msg" by simp
    with lt assms show ?thesis by (intro stale) (auto simp: follower_handle_message_def)
  next
    case eq
    with assms show ?thesis
      by (intro current) (auto simp: follower_handle_message_def bind_eq_Some_conv)
  next
    case gt
    obtain c0 where c0: "maybe_update_term c (m_term msg) = (c0, True)"
      using gt by (simp add: maybe_update_term_def core_term_def)
    have t0: "core_term c0 = m_term msg"
      using maybe_update_term_sel(8) [OF c0] gt by (simp add: max.absorb2 less_imp_le)
    obtain f0 c1 where d: "reset_deadline f c0 = Some (f0, c1)"
      using assms gt c0 by (auto simp: follower_handle_message_def bind_eq_Some_conv)
    let ?f1 = "if names_leader (m_payload msg) then f0\<lparr>f_leader := Some (m_from msg)\<rparr> else f0"
    have "\<not> m_term msg < core_term c1"
      using rng_frameD(7) [OF reset_deadlineD(1) [OF d]] t0 by simp
    then obtain r1 where "follower_dispatch ?f1 c1 msg = Some (f', c', r1)"
      "r = \<lparr>transition = transition r1, effects = with_persist (effects r1)\<rparr>"
      using assms gt c0 d by (auto simp: follower_handle_message_def bind_eq_Some_conv)
    then show ?thesis using gt c0 reset_deadlineD(1) [OF d] by (intro newer) auto
  qed
qed

lemma follower_handle_message_post:
  assumes "follower_handle_message f c msg = Some (f', c', r)"
  shows "follower_post c (Msg msg) c' r"
  using assms
proof (cases rule: follower_handle_messageE)
  case stale
  then show ?thesis by (auto intro: follower_post_stay)
next
  case current
  then show ?thesis by (intro follower_dispatch_post)
next
  case (newer c0 f1 c1 r1)
  have "follower_post c1 (Msg msg) c' r1" by (rule follower_dispatch_post) (rule newer(4))
  moreover have "core_term c1 = m_term msg"
    using rng_frameD(7) [OF newer(3)] maybe_update_term_sel(8) [OF newer(2)] newer(1)
    by (simp add: max.absorb2 less_imp_le)
  moreover have "vote_step c c1"
    using vote_step_maybe_update [OF newer(2)] vote_step_rng [OF newer(3)] by (rule vote_step_trans)
  moreover have "core_log c1 = core_log c"
    using rng_frameD(8) [OF newer(3)] maybe_update_term_sel(3) [OF newer(2)] by simp
  ultimately show ?thesis
    using newer(5) by (auto simp: follower_post_def intro: vote_step_trans)
qed

lemma follower_step_post:
  assumes "follower_step f c ev = Some (f', c', r)"
  shows "follower_post c ev c' r"
proof (cases ev)
  case Tick
  with assms show ?thesis by (simp add: follower_step_def follower_handle_tick_post)
next
  case (DiskWriteComplete i)
  with assms show ?thesis by (auto simp: follower_step_def follower_post_def)
next
  case (Msg msg)
  show ?thesis
  proof (cases "is_election_request (m_payload msg) \<and> recently_heard_from_leader f c")
    case True
    with assms Msg show ?thesis by (auto simp: follower_step_def intro: follower_post_stay)
  next
    case False
    with assms Msg consider (pv) req where "m_payload msg = PreVoteRequest req" "c' = c"
        "r = sr_stay (follower_handle_prevote_request c (m_from msg) (m_term msg) req)"
      | (other) "follower_handle_message f c msg = Some (f', c', r)"
      by (cases "m_payload msg") (auto simp: follower_step_def)
    then show ?thesis
      by cases (auto simp: Msg intro: follower_post_stay follower_handle_message_post)
  qed
qed

section \<open>Appending entries\<close>

text \<open>What a leader sends: consecutive entries after \<open>prev_log_index\<close>, whose term is known
  (non-zero) unless the entries start the log.\<close>

fun consecutive :: "LogIndex \<Rightarrow> Entry list \<Rightarrow> bool" where
  "consecutive p [] \<longleftrightarrow> True"
| "consecutive p (e # es) \<longleftrightarrow> p \<noteq> u64_max \<and> e_index e = p + 1 \<and> consecutive (e_index e) es"

definition wf_append_request :: "AppendRequest \<Rightarrow> bool" where
  "wf_append_request req \<longleftrightarrow>
    consecutive (prev_log_index req) (aq_entries req)
    \<and> (aq_entries req \<noteq> [] \<and> prev_log_index req \<noteq> 0 \<longrightarrow> prev_log_term req \<noteq> 0)"

text \<open>No entry disagrees with the snapshot boundary.\<close>

definition snapshot_agrees :: "Log \<Rightarrow> Entry list \<Rightarrow> bool" where
  "snapshot_agrees l es \<longleftrightarrow>
    (\<forall>e \<in> set es. e_index e = snapshot_index l \<longrightarrow>
      snapshot_index l = 0 \<or> snapshot_term l = 0 \<or> e_term e = snapshot_term l)"

text \<open>One iteration of the loop.\<close>

definition conflicts :: "Log \<Rightarrow> Entry \<Rightarrow> bool" where
  "conflicts l e \<longleftrightarrow> term_at l (e_index e) \<noteq> 0 \<and> term_at l (e_index e) \<noteq> e_term e"

definition resolve :: "Log \<Rightarrow> Entry \<Rightarrow> Log" where
  "resolve l e = (if conflicts l e then truncate_after l (e_index e - 1) else l)"

lemma append_entries_Cons:
  "append_entries l (e # es) b =
    (if e_index e > last_index (resolve l e)
     then append_entries (log_append (resolve l e) e) es True
     else append_entries (resolve l e) es b)"
  by (simp add: resolve_def conflicts_def Let_def)

lemmas append_entries_rules [simp del] = append_entries.simps(2)

lemma append_entries_flag: "append_entries l es True = (l', b) \<Longrightarrow> b"
  by (induction es arbitrary: l) (auto simp: append_entries_Cons split: if_splits)

lemma conflicts_get:
  assumes "snapshot_agrees l (e # es)" "conflicts l e"
  shows "\<exists>x. log_get l (e_index e) = Some x \<and> e_term x \<noteq> e_term e"
  using assms
  by (auto simp: snapshot_agrees_def conflicts_def term_at_eq split: if_splits option.splits)

lemma resolve_conflict_last:
  assumes wf: "wf_log l" and c: "conflicts l e" and ag: "snapshot_agrees l (e # es)"
  shows "last_index (resolve l e) + 1 = e_index e" "last_index (resolve l e) < e_index e"
proof -
  obtain x where "log_get l (e_index e) = Some x" using conflicts_get [OF ag c] by blast
  then have b: "unat (snapshot_index l) < unat (e_index e)"
    "unat (e_index e) \<le> unat (snapshot_index l) + length (log_entries l)"
    by (auto simp: log_get_eq split: if_splits)
  have one: "unat (e_index e - 1) = unat (e_index e) - 1"
    using b unat_u64_diff [of 1 "e_index e"] by (simp add: word_le_nat_alt)
  have "unat (last_index (resolve l e)) = unat (e_index e) - 1"
    using b one unat_last_index [OF wf_truncate_after [OF wf, of "e_index e - 1"]] c
    by (simp add: resolve_def truncate_after_eq)
  then have "last_index (resolve l e) = e_index e - 1"
    using one by (simp add: word_unat_eq_iff)
  then show "last_index (resolve l e) + 1 = e_index e" "last_index (resolve l e) < e_index e"
    using b \<open>unat (last_index (resolve l e)) = unat (e_index e) - 1\<close>
    by (simp_all add: word_less_nat_alt)
qed

lemma wf_resolve [simp]: "wf_log l \<Longrightarrow> wf_log (resolve l e)"
  by (simp add: resolve_def)

lemma resolve_snapshot [simp]:
  "snapshot_index (resolve l e) = snapshot_index l" "snapshot_term (resolve l e) = snapshot_term l"
  by (simp_all add: resolve_def)

text \<open>A loop that appended nothing changed nothing: every truncation is followed by an
  append.\<close>

lemma append_entries_unchanged:
  "wf_log l \<Longrightarrow> snapshot_agrees l es \<Longrightarrow> append_entries l es False = (l', False) \<Longrightarrow> l' = l"
proof (induction es arbitrary: l)
  case (Cons e es)
  have "\<not> conflicts l e"
    using Cons.prems resolve_conflict_last(2) [of l e es] append_entries_flag
    by (fastforce simp: append_entries_Cons split: if_splits)
  then have same: "resolve l e = l" by (simp add: resolve_def)
  have "\<not> e_index e > last_index l"
    using Cons.prems(3) append_entries_flag by (fastforce simp: append_entries_Cons same split: if_splits)
  with Cons same show ?case
    by (auto simp: append_entries_Cons snapshot_agrees_def)
qed simp

lemma consecutive_snapshot_agrees:
  "consecutive p es \<Longrightarrow> snapshot_index l \<le> p \<Longrightarrow> snapshot_agrees l es"
proof (induction es arbitrary: p)
  case (Cons e es)
  then have "p < e_index e" by (simp add: u64_less_Suc)
  with Cons have "snapshot_agrees l es" "snapshot_index l \<noteq> e_index e" by auto
  then show ?case by (simp add: snapshot_agrees_def)
qed (simp add: snapshot_agrees_def)

lemma consecutive_greater: "consecutive p es \<Longrightarrow> x \<in> set es \<Longrightarrow> p < e_index x"
proof (induction es arbitrary: p)
  case (Cons e es)
  then have "p < e_index e" by (simp add: u64_less_Suc)
  moreover have "x \<in> set es \<Longrightarrow> e_index e < e_index x"
    by (rule Cons.IH) (use Cons.prems(1) in auto)
  ultimately show ?case using Cons.prems(2) by (auto intro: less_trans)
qed simp

text \<open>Consecutive entries that start within the log or right after it keep the invariant.\<close>

lemma wf_append_entries:
  "wf_log l \<Longrightarrow> consecutive p es \<Longrightarrow> p \<le> last_index l \<Longrightarrow> snapshot_agrees l es \<Longrightarrow>
    wf_log (fst (append_entries l es b))"
proof (induction es arbitrary: l p b)
  case (Cons e es)
  let ?l = "resolve l e"
  have idx: "e_index e = p + 1" "p \<noteq> u64_max" and rest: "consecutive (e_index e) es"
    using Cons.prems(2) by auto
  have wf: "wf_log ?l" using Cons.prems(1) by simp
  have agree: "snapshot_agrees ?l es"
    using Cons.prems(4) by (auto simp: snapshot_agrees_def)
  show ?case
  proof (cases "e_index e > last_index ?l")
    case False
    with Cons.IH [OF wf rest _ agree] show ?thesis by (simp add: append_entries_Cons)
  next
    case True
    have next': "last_index ?l + 1 = e_index e"
    proof (cases "conflicts l e")
      case True
      with Cons.prems show ?thesis by (intro resolve_conflict_last(1)) auto
    next
      case False
      then have "?l = l" by (simp add: resolve_def)
      moreover have "last_index l \<le> p"
        using True calculation idx by (auto simp: u64_Suc_le_iff not_le[symmetric])
      ultimately show ?thesis using Cons.prems(3) idx by auto
    qed
    have "last_index ?l \<noteq> u64_max" using True by (metis le_u64_max not_le)
    then have "wf_log (log_append ?l e)" using wf next' by (intro wf_log_append) auto
    moreover have "snapshot_agrees (log_append ?l e) es"
      using agree by (simp add: snapshot_agrees_def)
    ultimately show ?thesis
      using Cons.IH [OF _ rest, of "log_append ?l e" True] True by (simp add: append_entries_Cons)
  qed
qed simp

text \<open>Entries of a log carry real terms: term 0 stands for "no entry".\<close>

definition terms_pos :: "Log \<Rightarrow> bool" where
  "terms_pos l \<longleftrightarrow> (\<forall>e \<in> set (log_entries l). e_term e \<noteq> 0)"

lemma terms_pos_resolve [simp]: "terms_pos l \<Longrightarrow> terms_pos (resolve l e)"
  by (auto simp: terms_pos_def resolve_def truncate_after_eq dest: in_set_takeD)

lemma resolve_get: "i < e_index e \<Longrightarrow> log_get (resolve l e) i = log_get l i"
proof -
  assume "i < e_index e"
  then have "i \<le> e_index e - 1"
    using unat_u64_diff [of 1 "e_index e"] by (auto simp: u64_nat)
  then show ?thesis by (simp add: resolve_def log_get_truncate_after)
qed

text \<open>What the loop leaves behind: the log up to \<open>p\<close> is untouched, and each sent entry is
  present with its term.\<close>

lemma append_entries_agree:
  "wf_log l \<Longrightarrow> terms_pos l \<Longrightarrow> consecutive p es \<Longrightarrow> \<forall>e \<in> set es. e_term e \<noteq> 0 \<Longrightarrow>
    p \<le> last_index l \<Longrightarrow> snapshot_index l \<le> p \<Longrightarrow> append_entries l es b = (l', b') \<Longrightarrow>
    (\<forall>i \<le> p. log_get l' i = log_get l i)
    \<and> (\<forall>e \<in> set es. \<exists>x. log_get l' (e_index e) = Some x \<and> e_term x = e_term e)"
proof (induction es arbitrary: l p b)
  case (Cons e es)
  let ?l = "resolve l e"
  have idx: "e_index e = p + 1" "p < e_index e" and rest: "consecutive (e_index e) es"
    using Cons.prems(3) u64_less_Suc by auto
  have agree: "snapshot_agrees l (e # es)"
    using Cons.prems by (intro consecutive_snapshot_agrees)
  have wf: "wf_log ?l" "terms_pos ?l" using Cons.prems by simp_all
  define l1 where "l1 = (if e_index e > last_index ?l then log_append ?l e else ?l)"
  have step: "append_entries l1 es (if e_index e > last_index ?l then True else b) = (l', b')"
    using Cons.prems(7) by (simp add: append_entries_Cons l1_def split: if_splits)
  have next': "last_index ?l + 1 = e_index e" "last_index ?l \<noteq> u64_max"
    if "e_index e > last_index ?l"
  proof -
    show "last_index ?l + 1 = e_index e"
    proof (cases "conflicts l e")
      case True
      with Cons.prems agree show ?thesis by (intro resolve_conflict_last(1)) auto
    next
      case False
      then have "?l = l" by (simp add: resolve_def)
      with that Cons.prems(3,5) idx show ?thesis
        by (metis consecutive.simps(2) order.antisym u64_Suc_le_iff linorder_not_le)
    qed
    show "last_index ?l \<noteq> u64_max" using that by (metis le_u64_max not_le)
  qed
  have l1: "wf_log l1" "terms_pos l1" "e_index e \<le> last_index l1"
    using wf next' Cons.prems(4) by (auto simp: l1_def terms_pos_def intro: wf_log_append)
  have snap: "snapshot_index l1 = snapshot_index l" by (simp add: l1_def)
  have here: "\<exists>x. log_get l1 (e_index e) = Some x \<and> e_term x = e_term e"
  proof (cases "e_index e > last_index ?l")
    case True
    then show ?thesis using wf next' by (simp add: l1_def log_get_append)
  next
    case False
    then have nc: "\<not> conflicts l e"
      using Cons.prems(1) agree resolve_conflict_last(2) by blast
    then have "?l = l" by (simp add: resolve_def)
    with False Cons.prems(1,6) idx obtain x where x: "log_get l (e_index e) = Some x"
      using log_get_None_iff [of l "e_index e"] by fastforce
    then have "e_term x \<noteq> 0" using Cons.prems(2) in_log_entries_iff [OF Cons.prems(1)]
        log_get_index [OF Cons.prems(1) x] by (auto simp: terms_pos_def)
    with nc x have "e_term x = e_term e" by (simp add: conflicts_def term_at_get)
    with x False \<open>?l = l\<close> show ?thesis by (simp add: l1_def)
  qed
  have ih: "(\<forall>i \<le> e_index e. log_get l' i = log_get l1 i)
      \<and> (\<forall>e \<in> set es. \<exists>x. log_get l' (e_index e) = Some x \<and> e_term x = e_term e)"
    using Cons.IH [OF l1(1,2) rest _ l1(3) _ step] Cons.prems(4,6) idx snap by auto
  moreover have "log_get l1 i = log_get l i" if "i \<le> p" for i
  proof -
    have "i < e_index e" using that idx by auto
    moreover have "log_get l1 i = log_get ?l i" if "i < e_index e"
      using that wf next' by (auto simp: l1_def log_get_append)
    ultimately show ?thesis using resolve_get by metis
  qed
  moreover have "i \<le> e_index e" if "i \<le> p" for i using that idx by auto
  ultimately show ?case using here by simp
qed simp

text \<open>Without a conflict nothing is truncated.\<close>

lemma append_entries_no_conflict:
  "wf_log l \<Longrightarrow> \<forall>e \<in> set es. \<not> conflicts l e \<Longrightarrow> consecutive p es \<Longrightarrow> p \<le> last_index l \<Longrightarrow>
    append_entries l es b = (l', b') \<Longrightarrow> \<exists>new. log_entries l' = log_entries l @ new"
proof (induction es arbitrary: l p b)
  case (Cons e es)
  have same: "resolve l e = l" using Cons.prems(2) by (simp add: resolve_def)
  show ?case
  proof (cases "e_index e > last_index l")
    case False
    with Cons.prems same show ?thesis
      by (intro Cons.IH [of l "e_index e" b]) (auto simp: append_entries_Cons)
  next
    case True
    have idx: "e_index e = last_index l + 1" "last_index l \<noteq> u64_max"
      using Cons.prems(3,4) True
      by (metis consecutive.simps(2) order.antisym u64_Suc_le_iff linorder_not_le)
        (metis True le_u64_max not_le)
    have wf: "wf_log (log_append l e)" using Cons.prems(1) idx by (intro wf_log_append)
    have later: "\<not> conflicts (log_append l e) x" if "x \<in> set es" for x
    proof -
      have "e_index e < e_index x"
        using Cons.prems(3) that consecutive_greater by auto
      then have "log_get (log_append l e) (e_index x) = None"
        using log_get_None_iff [OF wf] by simp
      moreover have "snapshot_index l \<noteq> e_index x"
        using \<open>e_index e < e_index x\<close> True snapshot_le_last [OF Cons.prems(1)] by auto
      ultimately show ?thesis by (simp add: conflicts_def term_at_eq)
    qed
    have "\<exists>new. log_entries l' = log_entries (log_append l e) @ new"
      using Cons.prems same True later wf
      by (intro Cons.IH [of "log_append l e" "e_index e" True]) (auto simp: append_entries_Cons)
    then show ?thesis by auto
  qed
qed simp

section \<open>Properties\<close>





end
