(* ===== verification/PreCandidate.thy ===== *)
theory PreCandidate
  imports RaftCore
begin

text \<open>
  The pre-candidate role (\<open>basisdb-raft/src/raft/precandidate.rs\<close>): a node asks whether an
  election would succeed, in its current term and without persisting anything, before it
  becomes a candidate.
\<close>

record PreCandidate =
  pre_votes :: NodeSet
  pc_election_deadline :: u64
  pc_last_contact_tick :: u64

definition prevote_requests :: "Core \<Rightarrow> Message list" where
  "prevote_requests core =
    (let req = \<lparr>pvq_next_term = core_term core + 1,
                pvq_last_log_index = last_index (core_log core),
                pvq_last_log_term = last_term (core_log core)\<rparr>;
         peers = voter_peers (effective_config core) (core_id core)
     in map (\<lambda>peer. \<lparr>m_from = core_id core, m_to = peer, m_term = core_term core,
                    m_payload = PreVoteRequest req\<rparr>) peers)"

definition precandidate_new :: "Core \<Rightarrow> (PreCandidate \<times> Core \<times> Effects) option" where
  "precandidate_new core = do {
     (core, timeout) \<leftarrow> random_election_timeout core;
     let precandidate = \<lparr>pre_votes = bts_empty, pc_election_deadline = ticks core + timeout,
           pc_last_contact_tick =
             saturating_sub (ticks core) (fst (election_timeout (config core)))\<rparr>;
     let precandidate = (if core_is_voter core
           then precandidate\<lparr>pre_votes := bts_insert (core_id core) (pre_votes precandidate)\<rparr>
           else precandidate);
     let config = effective_config core;
     if voter_count config = 1 \<and> is_voter config (core_id core)
     then Some (precandidate, core, effects_none)
     else Some (precandidate, core, with_messages effects_none (prevote_requests core)) }"

definition precandidate_ticks_until_deadline :: "PreCandidate \<Rightarrow> u64 \<Rightarrow> u64" where
  "precandidate_ticks_until_deadline p now = saturating_sub (pc_election_deadline p) now"

definition precandidate_has_quorum :: "PreCandidate \<Rightarrow> Core \<Rightarrow> bool" where
  "precandidate_has_quorum p core =
    has_quorum (effective_config core) (\<lambda>voter. bts_contains (pre_votes p) voter)"

definition precandidate_recently_heard_from_leader :: "PreCandidate \<Rightarrow> Core \<Rightarrow> bool" where
  "precandidate_recently_heard_from_leader p core \<longleftrightarrow>
    saturating_sub (ticks core) (pc_last_contact_tick p)
      < fst (election_timeout (config core))"

definition precandidate_handle_tick ::
    "PreCandidate \<Rightarrow> Core \<Rightarrow> (PreCandidate \<times> Core \<times> StepResult) option" where
  "precandidate_handle_tick p core =
    (let core = core\<lparr>ticks := ticks core + 1\<rparr> in
     if precandidate_recently_heard_from_leader p core then do {
       (core, timeout) \<leftarrow> random_election_timeout core;
       Some (p\<lparr>pc_election_deadline := ticks core + timeout\<rparr>, core, sr_none) }
     else if ticks core \<ge> pc_election_deadline p
     then Some (p, core, sr_to_precandidate effects_none)
     else Some (p, core, sr_none))"

definition precandidate_handle_prevote_response ::
    "PreCandidate \<Rightarrow> Core \<Rightarrow> NodeId \<Rightarrow> PreVoteResponse \<Rightarrow> PreCandidate \<times> Core \<times> StepResult" where
  "precandidate_handle_prevote_response p core from resp =
    (if pvr_term resp > core_term core then
       let (core, _) = maybe_update_term core (pvr_term resp)
       in (p, core, sr_to_follower None (with_persist effects_none))
     else if pvr_term resp < core_term core then (p, core, sr_none)
     else if \<not> pvr_granted resp then (p, core, sr_none)
     else
       let p = p\<lparr>pre_votes := bts_insert from (pre_votes p)\<rparr> in
       if precandidate_has_quorum p core then (p, core, sr_to_candidate effects_none)
       else (p, core, sr_none))"

definition precandidate_handle_append_request ::
    "PreCandidate \<Rightarrow> Core \<Rightarrow> NodeId \<Rightarrow> PreCandidate \<times> StepResult" where
  "precandidate_handle_append_request p core from =
    (p\<lparr>pc_last_contact_tick := ticks core\<rparr>,
     sr_to_follower_after_contact (Some from) effects_none)"

definition precandidate_handle_prevote_request ::
    "Core \<Rightarrow> NodeId \<Rightarrow> u64 \<Rightarrow> PreVoteRequest \<Rightarrow> StepResult" where
  "precandidate_handle_prevote_request core from msg_term req =
    (let dominated = log_is_up_to_date core (pvq_last_log_term req) (pvq_last_log_index req);
         candidate_is_voter = is_voter (effective_config core) from;
         term_ok = (pvq_next_term req > core_term core);
         granted = (candidate_is_voter \<and> term_ok \<and> dominated)
     in sr_stay (with_message effects_none
          \<lparr>m_from = core_id core, m_to = from, m_term = msg_term,
           m_payload = PreVoteResponse
             \<lparr>pvr_term = core_term core, pvr_granted = granted\<rparr>\<rparr>))"

definition precandidate_handle_vote_request :: "Core \<Rightarrow> NodeId \<Rightarrow> StepResult" where
  "precandidate_handle_vote_request core from =
    sr_stay (with_message effects_none
      \<lparr>m_from = core_id core, m_to = from, m_term = core_term core,
       m_payload = VoteResponse \<lparr>vr_granted = False\<rparr>\<rparr>)"

definition precandidate_deny_vote :: "Core \<Rightarrow> Message \<Rightarrow> Effects" where
  "precandidate_deny_vote core msg =
    (let reply = (\<lambda>payload. with_message effects_none
           \<lparr>m_from = core_id core, m_to = m_from msg, m_term = core_term core,
            m_payload = payload\<rparr>)
     in case m_payload msg of
          PreVoteRequest _ \<Rightarrow>
            reply (PreVoteResponse \<lparr>pvr_term = core_term core, pvr_granted = False\<rparr>)
        | VoteRequest _ \<Rightarrow> reply (VoteResponse \<lparr>vr_granted = False\<rparr>)
        | _ \<Rightarrow> effects_none)"

definition precandidate_handle_message ::
    "PreCandidate \<Rightarrow> Core \<Rightarrow> Message \<Rightarrow> PreCandidate \<times> Core \<times> StepResult" where
  "precandidate_handle_message p core msg =
    (if m_term msg > core_term core then
       let (core, _) = maybe_update_term core (m_term msg);
           leader = (case m_payload msg of AppendRequest _ \<Rightarrow> Some (m_from msg) | _ \<Rightarrow> None)
       in (p, core, sr_to_follower leader (with_persist effects_none))
     else
       case m_payload msg of
         PreVoteResponse resp \<Rightarrow>
           precandidate_handle_prevote_response p core (m_from msg) resp
       | AppendRequest req \<Rightarrow>
           let (p, r) = precandidate_handle_append_request p core (m_from msg) in (p, core, r)
       | PreVoteRequest req \<Rightarrow>
           (p, core, precandidate_handle_prevote_request core (m_from msg) (m_term msg) req)
       | VoteRequest _ \<Rightarrow> (p, core, precandidate_handle_vote_request core (m_from msg))
       | TimeoutNow \<Rightarrow> (p, core, sr_to_candidate effects_none)
       | _ \<Rightarrow> (p, core, sr_none))"

definition precandidate_step ::
    "PreCandidate \<Rightarrow> Core \<Rightarrow> Event \<Rightarrow> (PreCandidate \<times> Core \<times> StepResult) option" where
  "precandidate_step p core event =
    (case event of
       Tick \<Rightarrow> precandidate_handle_tick p core
     | DiskWriteComplete _ \<Rightarrow> Some (p, core, sr_none)
     | Msg msg \<Rightarrow>
         if (case m_payload msg of
               PreVoteRequest _ \<Rightarrow> True | VoteRequest _ \<Rightarrow> True | _ \<Rightarrow> False)
            \<and> precandidate_recently_heard_from_leader p core
         then Some (p, core, sr_stay (precandidate_deny_vote core msg))
         else Some (precandidate_handle_message p core msg))"

section \<open>Frame lemmas\<close>

lemma prevote_requests_facts [simp]:
  "ungranting (core_id c) (prevote_requests c)"
  "\<forall>m \<in> set (prevote_requests c). plain_message m"
  by (auto simp: prevote_requests_def ungranting_def grants_def plain_message_def Let_def)

lemma precandidate_newE:
  assumes "precandidate_new c = Some (p, c', eff)"
  obtains "rng_frame c c'" "\<not> persist eff" "send_snapshots eff = []"
    "elems (pre_votes p) = (if core_is_voter c' then {core_id c'} else {})"
    "messages eff = [] \<or> messages eff = prevote_requests c'"
  using assms
  by (auto simp: precandidate_new_def bind_eq_Some_conv Let_def split: if_splits
      dest!: random_election_timeout_frame)

definition precandidate_post :: "Core \<Rightarrow> Core \<Rightarrow> StepResult \<Rightarrow> bool" where
  "precandidate_post c c' r \<longleftrightarrow>
    vote_step c c' \<and> core_log c' = core_log c
    \<and> ungranting (core_id c') (messages (effects r))
    \<and> (\<forall>m \<in> set (messages (effects r)). plain_message m)
    \<and> send_snapshots (effects r) = []
    \<and> (transition r = Stay \<or> messages (effects r) = [])
    \<and> transition r \<noteq> ToLeader
    \<and> (transition r \<in> {ToCandidate, ToPreCandidate} \<longrightarrow> core_term c' = core_term c)
    \<and> (\<not> persist (effects r) \<longrightarrow> persistent c' = persistent c)"

lemma precandidate_deny_vote_facts [simp]:
  "ungranting (core_id c) (messages (precandidate_deny_vote c msg))"
  "\<forall>m \<in> set (messages (precandidate_deny_vote c msg)). plain_message m"
  "send_snapshots (precandidate_deny_vote c msg) = []"
  by (auto simp: precandidate_deny_vote_def Let_def grants_def plain_message_def
      split: Payload.splits)

lemma precandidate_handle_tick_post:
  assumes "precandidate_handle_tick p c = Some (p', c', r)"
  shows "precandidate_post c c' r"
proof -
  have "rng_frame (c\<lparr>ticks := ticks c + 1\<rparr>) c'"
    "r = sr_none \<or> r = sr_to_precandidate effects_none"
    using assms by (auto simp: precandidate_handle_tick_def Let_def bind_eq_Some_conv
        split: if_splits dest: random_election_timeout_frame)
  then show ?thesis
    by (auto simp: precandidate_post_def rng_frameD intro: vote_stepI_same)
qed

lemma precandidate_handle_prevote_response_post:
  assumes "precandidate_handle_prevote_response p c from resp = (p', c', r)"
  shows "precandidate_post c c' r"
proof (cases "core_term c < pvr_term resp")
  case True
  obtain c0 b where c0: "maybe_update_term c (pvr_term resp) = (c0, b)" by force
  then have "c' = c0" "r = sr_to_follower None (with_persist effects_none)"
    using assms True by (auto simp: precandidate_handle_prevote_response_def)
  then show ?thesis
    using maybe_update_term_sel [OF c0] vote_step_maybe_update [OF c0]
    by (simp add: precandidate_post_def)
next
  case False
  with assms show ?thesis
    by (auto simp: precandidate_handle_prevote_response_def precandidate_post_def Let_def
        split: if_splits)
qed

lemma precandidate_handle_message_post:
  assumes "precandidate_handle_message p c msg = (p', c', r)"
  shows "precandidate_post c c' r"
proof (cases "core_term c < m_term msg")
  case True
  obtain c0 b where c0: "maybe_update_term c (m_term msg) = (c0, b)" by force
  then have "c' = c0" "r = sr_to_follower (case m_payload msg of AppendRequest _ \<Rightarrow>
        Some (m_from msg) | _ \<Rightarrow> None) (with_persist effects_none)"
    using assms True by (auto simp: precandidate_handle_message_def)
  then show ?thesis
    using maybe_update_term_sel [OF c0] vote_step_maybe_update [OF c0]
    by (simp add: precandidate_post_def)
next
  case False
  show ?thesis
  proof (cases "\<exists>resp. m_payload msg = PreVoteResponse resp")
    case True
    with assms False show ?thesis
      by (auto simp: precandidate_handle_message_def
          intro: precandidate_handle_prevote_response_post)
  next
    case other: False
    with assms False show ?thesis
      by (auto simp: precandidate_handle_message_def precandidate_post_def
          precandidate_handle_append_request_def precandidate_handle_prevote_request_def
          precandidate_handle_vote_request_def grants_def plain_message_def Let_def
          split: Payload.splits)
  qed
qed

lemma precandidate_step_post:
  assumes "precandidate_step p c ev = Some (p', c', r)"
  shows "precandidate_post c c' r"
proof (cases ev)
  case Tick
  with assms show ?thesis by (simp add: precandidate_step_def precandidate_handle_tick_post)
next
  case (DiskWriteComplete i)
  with assms show ?thesis by (auto simp: precandidate_step_def precandidate_post_def)
next
  case (Msg msg)
  with assms consider "c' = c" "r = sr_stay (precandidate_deny_vote c msg)"
    | "precandidate_handle_message p c msg = (p', c', r)"
    by (auto simp: precandidate_step_def split: if_splits)
  then show ?thesis
    by cases (auto simp: precandidate_handle_message_post, auto simp: precandidate_post_def)
qed

end
