(* ===== verification/Candidate.thy ===== *)
theory Candidate
  imports RaftCore
begin

text \<open>
  The candidate role (\<open>basisdb-raft/src/raft/candidate.rs\<close>): becoming a candidate starts an
  election in a new term, collects granted votes of that term, and leads once they form a
  quorum of the effective configuration.
\<close>

record Candidate =
  c_votes :: NodeSet
  c_election_deadline :: u64
  c_last_contact_tick :: u64

definition vote_requests :: "Core \<Rightarrow> Message list" where
  "vote_requests core =
    (let req = \<lparr>vq_last_log_index = last_index (core_log core),
                vq_last_log_term = last_term (core_log core)\<rparr>;
         peers = voter_peers (effective_config core) (core_id core)
     in map (\<lambda>peer. \<lparr>m_from = core_id core, m_to = peer, m_term = core_term core,
                    m_payload = VoteRequest req\<rparr>) peers)"

definition candidate_new :: "Core \<Rightarrow> (Candidate \<times> Core \<times> Effects) option" where
  "candidate_new core = do {
     let core = start_election core;
     (core, timeout) \<leftarrow> random_election_timeout core;
     let candidate = \<lparr>c_votes = bts_empty, c_election_deadline = ticks core + timeout,
           c_last_contact_tick =
             saturating_sub (ticks core) (fst (election_timeout (config core)))\<rparr>;
     let candidate = (if core_is_voter core
           then candidate\<lparr>c_votes := bts_insert (core_id core) (c_votes candidate)\<rparr>
           else candidate);
     let config = effective_config core;
     if voter_count config = 1 \<and> is_voter config (core_id core)
     then Some (candidate, core, with_persist effects_none)
     else Some (candidate, core,
            with_messages (with_persist effects_none) (vote_requests core)) }"

definition candidate_ticks_until_deadline :: "Candidate \<Rightarrow> u64 \<Rightarrow> u64" where
  "candidate_ticks_until_deadline c now = saturating_sub (c_election_deadline c) now"

definition candidate_has_quorum :: "Candidate \<Rightarrow> Core \<Rightarrow> bool" where
  "candidate_has_quorum c core =
    has_quorum (effective_config core) (\<lambda>voter. bts_contains (c_votes c) voter)"

definition candidate_recently_heard_from_leader :: "Candidate \<Rightarrow> Core \<Rightarrow> bool" where
  "candidate_recently_heard_from_leader c core \<longleftrightarrow>
    saturating_sub (ticks core) (c_last_contact_tick c)
      < fst (election_timeout (config core))"

definition candidate_handle_tick ::
    "Candidate \<Rightarrow> Core \<Rightarrow> (Candidate \<times> Core \<times> StepResult) option" where
  "candidate_handle_tick c core =
    (let core = core\<lparr>ticks := ticks core + 1\<rparr> in
     if candidate_recently_heard_from_leader c core then do {
       (core, timeout) \<leftarrow> random_election_timeout core;
       Some (c\<lparr>c_election_deadline := ticks core + timeout\<rparr>, core, sr_none) }
     else if ticks core \<ge> c_election_deadline c
     then Some (c, core, sr_to_candidate effects_none)
     else Some (c, core, sr_none))"

definition candidate_handle_vote_response ::
    "Candidate \<Rightarrow> Core \<Rightarrow> NodeId \<Rightarrow> VoteResponse \<Rightarrow> Candidate \<times> StepResult" where
  "candidate_handle_vote_response c core from resp =
    (if \<not> vr_granted resp then (c, sr_none)
     else
       let c = c\<lparr>c_votes := bts_insert from (c_votes c)\<rparr> in
       if candidate_has_quorum c core then (c, sr_to_leader effects_none) else (c, sr_none))"

definition candidate_handle_append_request ::
    "Candidate \<Rightarrow> Core \<Rightarrow> NodeId \<Rightarrow> Candidate \<times> StepResult" where
  "candidate_handle_append_request c core from =
    (c\<lparr>c_last_contact_tick := ticks core\<rparr>,
     sr_to_follower_after_contact (Some from) effects_none)"

definition candidate_handle_vote_request :: "Core \<Rightarrow> NodeId \<Rightarrow> StepResult" where
  "candidate_handle_vote_request core from =
    sr_stay (with_message effects_none
      \<lparr>m_from = core_id core, m_to = from, m_term = core_term core,
       m_payload = VoteResponse \<lparr>vr_granted = False\<rparr>\<rparr>)"

definition candidate_deny_vote :: "Core \<Rightarrow> Message \<Rightarrow> Effects" where
  "candidate_deny_vote core msg =
    (let reply = (\<lambda>payload. with_message effects_none
           \<lparr>m_from = core_id core, m_to = m_from msg, m_term = core_term core,
            m_payload = payload\<rparr>)
     in case m_payload msg of
          PreVoteRequest _ \<Rightarrow>
            reply (PreVoteResponse \<lparr>pvr_term = core_term core, pvr_granted = False\<rparr>)
        | VoteRequest _ \<Rightarrow> reply (VoteResponse \<lparr>vr_granted = False\<rparr>)
        | _ \<Rightarrow> effects_none)"

definition candidate_handle_prevote_request ::
    "Core \<Rightarrow> NodeId \<Rightarrow> u64 \<Rightarrow> PreVoteRequest \<Rightarrow> Effects" where
  "candidate_handle_prevote_request core from msg_term req =
    (let dominated = log_is_up_to_date core (pvq_last_log_term req) (pvq_last_log_index req);
         candidate_is_voter = is_voter (effective_config core) from;
         term_ok = (pvq_next_term req > core_term core);
         granted = (candidate_is_voter \<and> term_ok \<and> dominated)
     in with_message effects_none
          \<lparr>m_from = core_id core, m_to = from, m_term = msg_term,
           m_payload = PreVoteResponse
             \<lparr>pvr_term = core_term core, pvr_granted = granted\<rparr>\<rparr>)"

definition candidate_reject_stale :: "Core \<Rightarrow> Message \<Rightarrow> Effects" where
  "candidate_reject_stale core msg =
    (let reply = (\<lambda>payload. with_message effects_none
           \<lparr>m_from = core_id core, m_to = m_from msg, m_term = core_term core,
            m_payload = payload\<rparr>)
     in case m_payload msg of
          VoteRequest _ \<Rightarrow> reply (VoteResponse \<lparr>vr_granted = False\<rparr>)
        | AppendRequest _ \<Rightarrow> reply (AppendResponse
            \<lparr>ar_success = False, ar_last_log_index = last_index (core_log core)\<rparr>)
        | _ \<Rightarrow> effects_none)"

definition candidate_handle_message ::
    "Candidate \<Rightarrow> Core \<Rightarrow> Message \<Rightarrow> Candidate \<times> Core \<times> StepResult" where
  "candidate_handle_message c core msg =
    (if m_term msg > core_term core then
       let (core, _) = maybe_update_term core (m_term msg);
           leader = (case m_payload msg of AppendRequest _ \<Rightarrow> Some (m_from msg) | _ \<Rightarrow> None)
       in (c, core, sr_to_follower leader (with_persist effects_none))
     else if m_term msg < core_term core then
       (c, core, sr_stay (candidate_reject_stale core msg))
     else
       case m_payload msg of
         VoteResponse resp \<Rightarrow>
           let (c, r) = candidate_handle_vote_response c core (m_from msg) resp in (c, core, r)
       | AppendRequest req \<Rightarrow>
           let (c, r) = candidate_handle_append_request c core (m_from msg) in (c, core, r)
       | VoteRequest _ \<Rightarrow> (c, core, candidate_handle_vote_request core (m_from msg))
       | TimeoutNow \<Rightarrow> (c, core, sr_to_candidate effects_none)
       | _ \<Rightarrow> (c, core, sr_none))"

definition candidate_step ::
    "Candidate \<Rightarrow> Core \<Rightarrow> Event \<Rightarrow> (Candidate \<times> Core \<times> StepResult) option" where
  "candidate_step c core event =
    (case event of
       Tick \<Rightarrow> candidate_handle_tick c core
     | DiskWriteComplete _ \<Rightarrow> Some (c, core, sr_none)
     | Msg msg \<Rightarrow>
         (case m_payload msg of
            PreVoteRequest req \<Rightarrow>
              if candidate_recently_heard_from_leader c core
              then Some (c, core, sr_stay (candidate_deny_vote core msg))
              else Some (c, core, sr_stay (candidate_handle_prevote_request core (m_from msg)
                     (m_term msg) req))
          | VoteRequest _ \<Rightarrow>
              if candidate_recently_heard_from_leader c core
              then Some (c, core, sr_stay (candidate_deny_vote core msg))
              else Some (candidate_handle_message c core msg)
          | _ \<Rightarrow> Some (candidate_handle_message c core msg)))"

section \<open>Frame lemmas\<close>

lemma vote_requests_facts [simp]:
  "ungranting (core_id c) (vote_requests c)" "\<forall>m \<in> set (vote_requests c). plain_message m"
  by (auto simp: vote_requests_def ungranting_def grants_def plain_message_def Let_def)

lemma candidate_newE:
  assumes "candidate_new c = Some (cd, c', eff)"
  obtains "rng_frame (start_election c) c'" "persist eff" "send_snapshots eff = []"
    "elems (c_votes cd) = (if core_is_voter c' then {core_id c'} else {})"
    "messages eff = [] \<or> messages eff = vote_requests c'"
  using assms
  by (auto simp: candidate_new_def bind_eq_Some_conv Let_def split: if_splits
      dest!: random_election_timeout_frame)

lemma candidate_new_self_vote:
  assumes "candidate_new c = Some (cd, c', eff)" "v \<in> elems (c_votes cd)"
  shows "v = core_id c' \<and> voted_for (persistent c') = Some (core_id c')"
  using assms(1)
proof (rule candidate_newE)
  assume rf: "rng_frame (start_election c) c'"
    and votes: "elems (c_votes cd) = (if core_is_voter c' then {core_id c'} else {})"
  have "core_is_voter c' = core_is_voter (start_election c)"
    using rng_frameD(1,2) [OF rf] by (intro core_is_voter_cong)
  also have "\<dots> = core_is_voter c"
    by (simp add: core_is_voter_def effective_config_def config_at_def start_election_def Let_def
        split: option.splits)
  finally have eq: "core_is_voter c' = core_is_voter c" .
  with votes assms(2) have "core_is_voter c" "v = core_id c'" by (auto split: if_splits)
  moreover have "core_id c' = core_id c" using rng_frameD(6) [OF rf] by simp
  ultimately show ?thesis
    using rng_frameD(2) [OF rf] by (simp add: start_election_def core_id_def)
qed

text \<open>The postcondition of a candidate's step. \<open>backs\<close> are the nodes whose vote for this
  candidate in its term is known; the event may add the sender of a granted vote.\<close>

definition vote_from :: "Event \<Rightarrow> Term \<Rightarrow> NodeId \<Rightarrow> bool" where
  "vote_from ev t v \<longleftrightarrow> (\<exists>m. ev = Msg m \<and> grants m \<and> m_term m = t \<and> m_from m = v)"

definition candidate_post ::
    "Candidate \<Rightarrow> Core \<Rightarrow> Event \<Rightarrow> Candidate \<Rightarrow> Core \<Rightarrow> StepResult \<Rightarrow> bool" where
  "candidate_post cd c ev cd' c' r \<longleftrightarrow>
    vote_step c c' \<and> core_log c' = core_log c
    \<and> ungranting (core_id c') (messages (effects r))
    \<and> (\<forall>m \<in> set (messages (effects r)). plain_message m)
    \<and> send_snapshots (effects r) = []
    \<and> (transition r = Stay \<or> messages (effects r) = [])
    \<and> (transition r \<in> {Stay, ToLeader} \<longrightarrow> core_term c' = core_term c
        \<and> (\<forall>v \<in> elems (c_votes cd'). v \<in> elems (c_votes cd) \<or> vote_from ev (core_term c) v))
    \<and> (transition r = ToLeader \<longrightarrow> candidate_has_quorum cd' c')
    \<and> transition r \<noteq> ToPreCandidate
    \<and> (transition r = ToCandidate \<longrightarrow> core_term c' = core_term c)
    \<and> (\<not> persist (effects r) \<longrightarrow> persistent c' = persistent c)"

lemma candidate_replies [simp]:
  "ungranting (core_id c) (messages (candidate_deny_vote c msg))"
  "\<forall>m \<in> set (messages (candidate_deny_vote c msg)). plain_message m"
  "send_snapshots (candidate_deny_vote c msg) = []"
  "ungranting (core_id c) (messages (candidate_handle_prevote_request c from t req))"
  "\<forall>m \<in> set (messages (candidate_handle_prevote_request c from t req)). plain_message m"
  "send_snapshots (candidate_handle_prevote_request c from t req) = []"
  "ungranting (core_id c) (messages (candidate_reject_stale c msg))"
  "\<forall>m \<in> set (messages (candidate_reject_stale c msg)). plain_message m"
  "send_snapshots (candidate_reject_stale c msg) = []"
  by (auto simp: candidate_deny_vote_def candidate_handle_prevote_request_def
      candidate_reject_stale_def Let_def grants_def plain_message_def split: Payload.splits)

lemma candidate_handle_tick_post:
  assumes "candidate_handle_tick cd c = Some (cd', c', r)"
  shows "candidate_post cd c Tick cd' c' r"
proof -
  have "rng_frame (c\<lparr>ticks := ticks c + 1\<rparr>) c'" "c_votes cd' = c_votes cd"
    "r = sr_none \<or> r = sr_to_candidate effects_none"
    using assms by (auto simp: candidate_handle_tick_def Let_def bind_eq_Some_conv
        split: if_splits dest: random_election_timeout_frame)
  then show ?thesis
    by (auto simp: candidate_post_def rng_frameD intro: vote_stepI_same)
qed

lemma candidate_handle_message_post:
  assumes "candidate_handle_message cd c msg = (cd', c', r)"
  shows "candidate_post cd c (Msg msg) cd' c' r"
proof -
  consider (gt) "core_term c < m_term msg" | (lt) "m_term msg < core_term c"
    | (eq) "m_term msg = core_term c"
    by (metis linorder_neqE)
  then show ?thesis
  proof cases
    case gt
    obtain c0 b where c0: "maybe_update_term c (m_term msg) = (c0, b)" by force
    then have "c' = c0" "r = sr_to_follower (case m_payload msg of AppendRequest _ \<Rightarrow>
        Some (m_from msg) | _ \<Rightarrow> None) (with_persist effects_none)"
      using assms gt by (auto simp: candidate_handle_message_def)
    then show ?thesis
      using maybe_update_term_sel [OF c0] vote_step_maybe_update [OF c0]
      by (simp add: candidate_post_def)
  next
    case lt
    then have "\<not> core_term c < m_term msg" by simp
    with lt assms show ?thesis by (auto simp: candidate_handle_message_def candidate_post_def)
  next
    case eq
    with assms show ?thesis
      by (auto simp: candidate_handle_message_def candidate_post_def Let_def
          candidate_handle_vote_response_def candidate_handle_append_request_def
          candidate_handle_vote_request_def vote_from_def grants_def plain_message_def
          split: Payload.splits if_splits)
  qed
qed

lemma candidate_step_post:
  assumes "candidate_step cd c ev = Some (cd', c', r)"
  shows "candidate_post cd c ev cd' c' r"
proof (cases ev)
  case Tick
  with assms show ?thesis by (simp add: candidate_step_def candidate_handle_tick_post)
next
  case (DiskWriteComplete i)
  with assms show ?thesis by (auto simp: candidate_step_def candidate_post_def)
next
  case (Msg msg)
  with assms consider "cd' = cd" "c' = c" "r = sr_stay (candidate_deny_vote c msg)"
    | req where "cd' = cd" "c' = c"
      "r = sr_stay (candidate_handle_prevote_request c (m_from msg) (m_term msg) req)"
    | "candidate_handle_message cd c msg = (cd', c', r)"
    by (cases "m_payload msg") (auto simp: candidate_step_def split: if_splits)
  then show ?thesis
    by cases (simp_all add: Msg candidate_handle_message_post, simp_all add: candidate_post_def)
qed

end
