(* ===== verification/Leader.thy ===== *)
theory Leader
  imports RaftCore
begin

text \<open>
  The leader role (\<open>basisdb-raft/src/raft/leader.rs\<close>): replication progress per peer, commit
  by quorum of match indices, read-index rounds, configuration changes and the automatic
  completion of joint consensus. The progress maps are only read and written by key, so a
  \<open>BTreeMap\<close> is a partial map here. The commit loop is a partial function: \<open>None\<close> stands for a
  panic or for a loop that does not end, and it is proved to return.
\<close>

section \<open>Errors of the public operations\<close>

datatype ProposeError = NotLeader "NodeId option" | Throttled

datatype ReadIndexError =
  RiNotLeader "NodeId option"
| CurrentTermNotCommitted
| ReadInProgress LogIndex

datatype TransferError =
  TrNotLeader
| TargetIsSelf
| TargetNotVoter
| TargetLagging LogIndex LogIndex

section \<open>State\<close>

record PendingReadIndex =
  pr_id :: u64
  pr_read_index :: LogIndex
  pr_configuration :: Configuration
  pr_acks :: NodeSet

record Leader =
  next_index :: "NodeId \<rightharpoonup> LogIndex"
  match_index :: "NodeId \<rightharpoonup> LogIndex"
  heartbeat_deadline :: u64
  sent_index :: "NodeId \<rightharpoonup> LogIndex"
  next_read_id :: u64
  pending_read_index :: "PendingReadIndex option"
  confirmed_read_index :: LogIndex

datatype ConfigCommitResult = Continue Effects | StepDown Effects | Done

definition match_of :: "Leader \<Rightarrow> NodeId \<Rightarrow> LogIndex" where
  "match_of ldr i = (case match_index ldr i of Some m \<Rightarrow> m | None \<Rightarrow> 0)"

section \<open>Sending entries\<close>

definition send_append_to :: "Leader \<Rightarrow> Core \<Rightarrow> NodeId \<Rightarrow> (Leader \<times> Effects) option" where
  "send_append_to ldr core to =
    (let next = (case next_index ldr to of Some n \<Rightarrow> n | None \<Rightarrow> 1);
         snap = snapshot_index (core_log core)
     in if next \<le> snap
        then Some (ldr, with_send_snapshot effects_none
               \<lparr>ss_to = to, ss_last_included_index = snap,
                ss_last_included_term = snapshot_term (core_log core),
                ss_configuration = config_at core snap\<rparr>)
        else do {
          let prev_index = saturating_sub next 1;
          let prev_term = (if prev_index \<le> snap \<and> prev_index > 0
                           then snapshot_term (core_log core)
                           else term_at (core_log core) prev_index);
          let last_log = last_index (core_log core);
          let end' = min (next + max_entries_per_msg (config core)) (last_log + 1);
          entries \<leftarrow> log_slice (core_log core) next end';
          let sent_up_to = (if entries = [] then next else e_index (last entries) + 1);
          let ldr = (if pipelining (config core) \<and> sent_up_to > next
                     then ldr\<lparr>next_index := (next_index ldr)(to \<mapsto> sent_up_to)\<rparr> else ldr);
          let msg = \<lparr>m_from = core_id core, m_to = to, m_term = core_term core,
                     m_payload = AppendRequest
                       \<lparr>prev_log_index = prev_index, prev_log_term = prev_term,
                        aq_entries = entries, leader_commit = commit_index core\<rparr>\<rparr>;
          Some (ldr, with_message effects_none msg) })"

fun send_append_all ::
    "Leader \<Rightarrow> Core \<Rightarrow> NodeId list \<Rightarrow> Effects \<Rightarrow> (Leader \<times> Effects) option" where
  "send_append_all ldr core [] eff = Some (ldr, eff)"
| "send_append_all ldr core (peer # peers) eff = do {
     (ldr, e) \<leftarrow> send_append_to ldr core peer;
     send_append_all ldr core peers (merge_effects eff e) }"

definition broadcast_append :: "Leader \<Rightarrow> Core \<Rightarrow> (Leader \<times> Effects) option" where
  "broadcast_append ldr core =
    send_append_all ldr core (replication_peers (effective_config core) (core_id core))
      effects_none"

section \<open>Becoming leader\<close>

fun insert_all :: "'k list \<Rightarrow> 'v \<Rightarrow> ('k \<rightharpoonup> 'v) \<Rightarrow> ('k \<rightharpoonup> 'v)" where
  "insert_all [] v m = m"
| "insert_all (k # ks) v m = insert_all ks v (m(k \<mapsto> v))"

definition leader_init :: "Core \<Rightarrow> Leader" where
  "leader_init core =
    (let last = last_index (core_log core);
         nodes = all_nodes (effective_config core);
         next = insert_all nodes (last + 1) Map.empty;
         matched = insert_all nodes 0 Map.empty;
         sent = insert_all nodes 0 Map.empty;
         matched = (if \<not> parallel_disk_write (config core)
                    then matched(core_id core \<mapsto> last) else matched)
     in \<lparr>next_index = next, match_index = matched,
         heartbeat_deadline = ticks core + heartbeat_interval (config core),
         sent_index = sent, next_read_id = 1, pending_read_index = None,
         confirmed_read_index = 0\<rparr>)"

definition leader_new :: "Core \<Rightarrow> (Leader \<times> Core \<times> Effects) option" where
  "leader_new core = do {
     (ldr, eff) \<leftarrow> broadcast_append (leader_init core) core;
     Some (ldr, core, eff) }"

definition leader_ticks_until_deadline :: "Leader \<Rightarrow> u64 \<Rightarrow> u64" where
  "leader_ticks_until_deadline ldr now = saturating_sub (heartbeat_deadline ldr) now"

section \<open>Reads\<close>

fun find_current_term :: "Log \<Rightarrow> Term \<Rightarrow> LogIndex list \<Rightarrow> LogIndex option" where
  "find_current_term l t [] = None"
| "find_current_term l t (idx # rest) =
    (if term_at l idx = t then Some idx
     else if term_at l idx < t then None
     else find_current_term l t rest)"

definition current_term_commit_index :: "Core \<Rightarrow> LogIndex option" where
  "current_term_commit_index core =
    find_current_term (core_log core) (core_term core) (rev (range_incl 1 (commit_index core)))"

definition can_serve_reads :: "Leader \<Rightarrow> Core \<Rightarrow> bool" where
  "can_serve_reads ldr core \<longleftrightarrow>
    current_term_commit_index core \<noteq> None
    \<and> confirmed_read_index ldr \<ge> commit_index core
    \<and> last_applied core \<ge> commit_index core"

definition leader_read_index :: "Leader \<Rightarrow> LogIndex" where
  "leader_read_index ldr = confirmed_read_index ldr"

definition leader_read_index_ready :: "Leader \<Rightarrow> Core \<Rightarrow> LogIndex \<Rightarrow> bool" where
  "leader_read_index_ready ldr core idx \<longleftrightarrow>
    confirmed_read_index ldr \<ge> idx \<and> last_applied core \<ge> idx"

definition read_index_requests :: "Core \<Rightarrow> PendingReadIndex \<Rightarrow> Effects" where
  "read_index_requests core pending =
    with_messages effects_none
      (map (\<lambda>to. \<lparr>m_from = core_id core, m_to = to, m_term = core_term core,
                  m_payload = ReadIndexRequest
                    \<lparr>riq_id = pr_id pending, riq_read_index = pr_read_index pending\<rparr>\<rparr>)
        (voter_peers (pr_configuration pending) (core_id core)))"

definition pending_has_quorum :: "PendingReadIndex \<Rightarrow> bool" where
  "pending_has_quorum p = has_quorum (pr_configuration p) (\<lambda>v. bts_contains (pr_acks p) v)"

definition leader_request_read_index ::
    "Leader \<Rightarrow> Core \<Rightarrow> Leader \<times> (ReadIndexError + LogIndex \<times> Effects)" where
  "leader_request_read_index ldr core =
    (case pending_read_index ldr of
       Some pending \<Rightarrow> (ldr, Inl (ReadInProgress (pr_read_index pending)))
     | None \<Rightarrow>
         if current_term_commit_index core = None then (ldr, Inl CurrentTermNotCommitted)
         else
           let read_index = commit_index core;
               i = next_read_id ldr;
               ldr = ldr\<lparr>next_read_id := next_read_id ldr + 1\<rparr>;
               pending = \<lparr>pr_id = i, pr_read_index = read_index,
                          pr_configuration = effective_config core,
                          pr_acks = bts_of_list [core_id core]\<rparr>
           in if pending_has_quorum pending
              then (ldr\<lparr>confirmed_read_index := max (confirmed_read_index ldr) read_index\<rparr>,
                    Inr (read_index, effects_none))
              else (ldr\<lparr>pending_read_index := Some pending\<rparr>,
                    Inr (read_index, read_index_requests core pending)))"

definition handle_read_index_response ::
    "Leader \<Rightarrow> NodeId \<Rightarrow> ReadIndexResponse \<Rightarrow> Leader \<times> StepResult" where
  "handle_read_index_response ldr from resp =
    (case pending_read_index ldr of
       None \<Rightarrow> (ldr, sr_none)
     | Some pending \<Rightarrow>
         if \<not> is_voter (pr_configuration pending) from then (ldr, sr_none)
         else if pr_id pending \<noteq> rir_id resp \<or> pr_read_index pending \<noteq> rir_read_index resp
         then (ldr, sr_none)
         else
           let pending = pending\<lparr>pr_acks := bts_insert from (pr_acks pending)\<rparr> in
           if pending_has_quorum pending
           then (ldr\<lparr>confirmed_read_index :=
                      max (confirmed_read_index ldr) (pr_read_index pending),
                    pending_read_index := None\<rparr>, sr_none)
           else (ldr\<lparr>pending_read_index := Some pending\<rparr>, sr_none))"

section \<open>Committing\<close>

definition advance_commit_index :: "Leader \<Rightarrow> Core \<Rightarrow> Core" where
  "advance_commit_index ldr core =
    (let config = effective_config core;
         max_possible = last_index (core_log core)
     in case find (\<lambda>candidate. term_at (core_log core) candidate = core_term core
                    \<and> has_quorum config (\<lambda>voter. match_of ldr voter \<ge> candidate))
               (rev (range_incl (commit_index core + 1) max_possible)) of
          Some candidate \<Rightarrow> core\<lparr>commit_index := candidate\<rparr>
        | None \<Rightarrow> core)"

definition or_insert :: "'k \<Rightarrow> 'v \<Rightarrow> ('k \<rightharpoonup> 'v) \<Rightarrow> ('k \<rightharpoonup> 'v)" where
  "or_insert k v m = (if m k = None then m(k \<mapsto> v) else m)"

definition reinit_progress :: "Leader \<Rightarrow> Core \<Rightarrow> Leader" where
  "reinit_progress ldr core =
    (let last = last_index (core_log core);
         ldr = fold (\<lambda>i ldr. ldr\<lparr>next_index := or_insert i (last + 1) (next_index ldr),
                                 match_index := or_insert i 0 (match_index ldr),
                                 sent_index := or_insert i 0 (sent_index ldr)\<rparr>)
                 (all_nodes (effective_config core)) ldr
     in if \<not> parallel_disk_write (config core)
        then ldr\<lparr>match_index := (match_index ldr)(core_id core \<mapsto> last)\<rparr> else ldr)"

definition append_transition_target ::
    "Leader \<Rightarrow> Core \<Rightarrow> Configuration \<Rightarrow> (Leader \<times> Core \<times> Effects) option" where
  "append_transition_target ldr core target = do {
     let new_index = last_index (core_log core) + 1;
     let core = set_log core (log_append (core_log core)
           \<lparr>e_term = core_term core, e_index = new_index, e_payload = ConfigPayload target\<rparr>);
     let ldr = reinit_progress ldr core;
     (ldr, eff) \<leftarrow> broadcast_append ldr core;
     Some (ldr, core, with_persist eff) }"

fun best_transfer_target ::
    "Leader \<Rightarrow> NodeId \<Rightarrow> LogIndex \<Rightarrow> NodeId list \<Rightarrow> (NodeId \<times> LogIndex) option
      \<Rightarrow> (NodeId \<times> LogIndex) option" where
  "best_transfer_target ldr me lasti [] best = best"
| "best_transfer_target ldr me lasti (voter # rest) best =
    (if voter = me then best_transfer_target ldr me lasti rest best
     else if match_of ldr voter \<ge> lasti then Some (voter, match_of ldr voter)
     else best_transfer_target ldr me lasti rest
       (case best of
          None \<Rightarrow> Some (voter, match_of ldr voter)
        | Some (b, best_idx) \<Rightarrow>
            if match_of ldr voter > best_idx then Some (voter, match_of ldr voter)
            else best))"

definition timeout_now :: "Core \<Rightarrow> NodeId \<Rightarrow> Message" where
  "timeout_now core target =
    \<lparr>m_from = core_id core, m_to = target, m_term = core_term core, m_payload = TimeoutNow\<rparr>"

definition try_auto_transfer :: "Leader \<Rightarrow> Core \<Rightarrow> Configuration \<Rightarrow> Effects" where
  "try_auto_transfer ldr core new_config =
    (let last = last_index (core_log core) in
     case best_transfer_target ldr (core_id core) last (voters new_config) None of
       Some (target, match_idx) \<Rightarrow>
         if match_idx \<ge> last then with_message effects_none (timeout_now core target)
         else effects_none
     | None \<Rightarrow> effects_none)"

fun process_configs ::
    "Leader \<Rightarrow> Core \<Rightarrow> LogIndex list \<Rightarrow> (Leader \<times> Core \<times> ConfigCommitResult) option" where
  "process_configs ldr core [] = Some (ldr, core, Done)"
| "process_configs ldr core (idx # rest) =
    (case log_get (core_log core) idx of
       None \<Rightarrow> process_configs ldr core rest
     | Some entry \<Rightarrow>
         (case e_payload entry of
            CommandPayload _ \<Rightarrow> process_configs ldr core rest
          | ConfigPayload cfg \<Rightarrow>
              if \<not> is_voter cfg (core_id core)
              then Some (ldr, core, StepDown (try_auto_transfer ldr core cfg))
              else (case transition_target cfg of
                      Some target \<Rightarrow> do {
                        (ldr, core, eff) \<leftarrow> append_transition_target ldr core target;
                        Some (ldr, core, Continue eff) }
                    | None \<Rightarrow> process_configs ldr core rest)))"

definition process_committed_configs ::
    "Leader \<Rightarrow> Core \<Rightarrow> LogIndex \<Rightarrow> (Leader \<times> Core \<times> ConfigCommitResult) option" where
  "process_committed_configs ldr core old_commit =
    process_configs ldr core (range_incl (old_commit + 1) (commit_index core))"

partial_function (option) commit_loop ::
    "Leader \<Rightarrow> Core \<Rightarrow> Effects \<Rightarrow> (Leader \<times> Core \<times> Effects \<times> bool) option" where
  "commit_loop ldr core eff =
    (let old_commit = commit_index core;
         core = advance_commit_index ldr core
     in if commit_index core = old_commit then Some (ldr, core, eff, False)
        else do {
          (ldr, core, r) \<leftarrow> process_committed_configs ldr core old_commit;
          (case r of
             Continue e \<Rightarrow> commit_loop ldr core (merge_effects eff e)
           | StepDown e \<Rightarrow> Some (ldr, core, merge_effects eff e, True)
           | Done \<Rightarrow> Some (ldr, core, eff, False)) })"

declare commit_loop.simps [code]

definition maybe_commit :: "Leader \<Rightarrow> Core \<Rightarrow> (Leader \<times> Core \<times> Effects \<times> bool) option" where
  "maybe_commit ldr core = commit_loop ldr core effects_none"

section \<open>Proposals and transfer\<close>

definition insert_match :: "Leader \<Rightarrow> NodeId \<Rightarrow> LogIndex \<Rightarrow> Leader" where
  "insert_match ldr i idx = ldr\<lparr>match_index := (match_index ldr)(i \<mapsto> idx)\<rparr>"

definition insert_next :: "Leader \<Rightarrow> NodeId \<Rightarrow> LogIndex \<Rightarrow> Leader" where
  "insert_next ldr i idx = ldr\<lparr>next_index := (next_index ldr)(i \<mapsto> idx)\<rparr>"

definition leader_propose ::
    "Leader \<Rightarrow> Core \<Rightarrow> Command \<Rightarrow> (Leader \<times> Core \<times> LogIndex \<times> Effects \<times> bool) option" where
  "leader_propose ldr core cmd = do {
     let index = last_index (core_log core) + 1;
     let entry = \<lparr>e_term = core_term core, e_index = index, e_payload = CommandPayload cmd\<rparr>;
     let core = set_log core (log_append (core_log core) entry);
     let ldr = (if \<not> parallel_disk_write (config core)
                then insert_match ldr (core_id core) index else ldr);
     (ldr, core, commit_effects, should_step_down) \<leftarrow> maybe_commit ldr core;
     (ldr, eff) \<leftarrow> broadcast_append ldr core;
     Some (ldr, core, index, merge_effects (with_persist eff) commit_effects,
           should_step_down) }"

definition check_promotion ::
    "Leader \<Rightarrow> Core \<Rightarrow> Configuration \<Rightarrow> ConfigChange \<Rightarrow> ConfigChangeError + unit" where
  "check_promotion ldr core current change =
    (case change of
       AddVoter i \<Rightarrow>
         if is_learner current i then
           let progressed = match_of ldr i;
               need = last_index (core_log core)
           in if progressed < need then Inl (LearnerNotCaughtUp i progressed need) else Inr ()
         else Inl (PromoteRequiresLearner i)
     | _ \<Rightarrow> Inr ())"

definition append_config_change ::
    "Leader \<Rightarrow> Core \<Rightarrow> Configuration \<Rightarrow> (Leader \<times> Core \<times> LogIndex \<times> Effects \<times> bool) option" where
  "append_config_change ldr core new_config = do {
     let index = last_index (core_log core) + 1;
     let entry = \<lparr>e_term = core_term core, e_index = index, e_payload = ConfigPayload new_config\<rparr>;
     let core = set_log core (log_append (core_log core) entry);
     let ldr = (if \<not> parallel_disk_write (config core)
                then insert_match ldr (core_id core) index else ldr);
     let ldr = reinit_progress ldr core;
     (ldr, core, commit_effects, should_step_down) \<leftarrow> maybe_commit ldr core;
     (ldr, eff) \<leftarrow> broadcast_append ldr core;
     Some (ldr, core, index, merge_effects (with_persist eff) commit_effects,
           should_step_down) }"

definition leader_propose_config_change ::
    "Leader \<Rightarrow> Core \<Rightarrow> ConfigChange
      \<Rightarrow> (Leader \<times> Core \<times> (ConfigChangeError + LogIndex \<times> Effects \<times> bool)) option" where
  "leader_propose_config_change ldr core change =
    (let current = effective_config core;
         mode = membership_mode (config core)
     in case try_bind (validate change current mode)
               (\<lambda>_. try_bind (check_promotion ldr core current change)
                 (\<lambda>_. if has_pending_config core then Inl ChangeInProgress else Inr ())) of
          Inl e \<Rightarrow> Some (ldr, core, Inl e)
        | Inr _ \<Rightarrow> do {
            (ldr, core, index, eff, down) \<leftarrow>
              append_config_change ldr core (apply_change change current mode);
            Some (ldr, core, Inr (index, eff, down)) })"

definition leader_transfer_leadership ::
    "Leader \<Rightarrow> Core \<Rightarrow> NodeId \<Rightarrow> TransferError + Effects" where
  "leader_transfer_leadership ldr core target =
    (if target = core_id core then Inl TargetIsSelf
     else if \<not> is_voter (effective_config core) target then Inl TargetNotVoter
     else
       let last = last_index (core_log core);
           matched = match_of ldr target
       in if matched < last then Inl (TargetLagging matched last)
          else Inr (with_message effects_none (timeout_now core target)))"

section \<open>Events\<close>

definition commit_and_reply ::
    "Leader \<Rightarrow> Core \<Rightarrow> (Leader \<times> Core \<times> StepResult) option" where
  "commit_and_reply ldr core = do {
     (ldr, core, eff, should_step_down) \<leftarrow> maybe_commit ldr core;
     Some (ldr, core, if should_step_down then sr_to_follower None eff else sr_stay eff) }"

definition handle_disk_write_complete ::
    "Leader \<Rightarrow> Core \<Rightarrow> LogIndex \<Rightarrow> (Leader \<times> Core \<times> StepResult) option" where
  "handle_disk_write_complete ldr core index =
    (if index > match_of ldr (core_id core)
     then commit_and_reply (insert_match ldr (core_id core) index) core
     else Some (ldr, core, sr_none))"

definition leader_handle_tick ::
    "Leader \<Rightarrow> Core \<Rightarrow> (Leader \<times> Core \<times> StepResult) option" where
  "leader_handle_tick ldr core =
    (let core = core\<lparr>ticks := ticks core + 1\<rparr> in
     if ticks core \<ge> heartbeat_deadline ldr then do {
       let ldr = ldr\<lparr>heartbeat_deadline := ticks core + heartbeat_interval (config core)\<rparr>;
       (ldr, eff) \<leftarrow> broadcast_append ldr core;
       let eff = (case pending_read_index ldr of
                    Some pending \<Rightarrow> merge_effects eff (read_index_requests core pending)
                  | None \<Rightarrow> eff);
       Some (ldr, core, sr_stay eff) }
     else Some (ldr, core, sr_none))"

definition handle_append_response ::
    "Leader \<Rightarrow> Core \<Rightarrow> NodeId \<Rightarrow> AppendResponse \<Rightarrow> (Leader \<times> Core \<times> StepResult) option" where
  "handle_append_response ldr core from resp =
    (if \<not> is_member (effective_config core) from then Some (ldr, core, sr_none)
     else if ar_success resp then
       let ldr = insert_match ldr from (ar_last_log_index resp);
           ldr = (if \<not> pipelining (config core)
                  then insert_next ldr from (ar_last_log_index resp + 1) else ldr)
       in commit_and_reply ldr core
     else do {
       let match_idx = match_of ldr from;
       let hinted = max (ar_last_log_index resp + 1) 1;
       let new_next = (if pipelining (config core) then max hinted (match_idx + 1) else hinted);
       (ldr, eff) \<leftarrow> send_append_to (insert_next ldr from new_next) core from;
       Some (ldr, core, sr_stay eff) })"

definition handle_install_snapshot_response ::
    "Leader \<Rightarrow> Core \<Rightarrow> NodeId \<Rightarrow> InstallSnapshotResponse
      \<Rightarrow> (Leader \<times> Core \<times> StepResult) option" where
  "handle_install_snapshot_response ldr core from resp =
    (if \<not> isr_success resp \<or> \<not> is_member (effective_config core) from
     then Some (ldr, core, sr_none)
     else if isr_last_included_index resp \<le> match_of ldr from then Some (ldr, core, sr_none)
     else commit_and_reply
       (insert_next (insert_match ldr from (isr_last_included_index resp)) from
          (isr_last_included_index resp + 1)) core)"

definition leader_handle_vote_request :: "Core \<Rightarrow> NodeId \<Rightarrow> StepResult" where
  "leader_handle_vote_request core from =
    sr_stay (with_message effects_none
      \<lparr>m_from = core_id core, m_to = from, m_term = core_term core,
       m_payload = VoteResponse \<lparr>vr_granted = False\<rparr>\<rparr>)"

definition deny_prevote :: "Core \<Rightarrow> NodeId \<Rightarrow> Effects" where
  "deny_prevote core from =
    with_message effects_none
      \<lparr>m_from = core_id core, m_to = from, m_term = core_term core,
       m_payload = PreVoteResponse \<lparr>pvr_term = core_term core, pvr_granted = False\<rparr>\<rparr>"

definition leader_reject_stale :: "Core \<Rightarrow> Message \<Rightarrow> Effects" where
  "leader_reject_stale core msg =
    (let reply = (\<lambda>payload. with_message effects_none
           \<lparr>m_from = core_id core, m_to = m_from msg, m_term = core_term core,
            m_payload = payload\<rparr>)
     in case m_payload msg of
          VoteRequest _ \<Rightarrow> reply (VoteResponse \<lparr>vr_granted = False\<rparr>)
        | AppendRequest _ \<Rightarrow> reply (AppendResponse
            \<lparr>ar_success = False, ar_last_log_index = last_index (core_log core)\<rparr>)
        | _ \<Rightarrow> effects_none)"

definition leader_handle_message ::
    "Leader \<Rightarrow> Core \<Rightarrow> Message \<Rightarrow> (Leader \<times> Core \<times> StepResult) option" where
  "leader_handle_message ldr core msg =
    (if m_term msg > core_term core then
       let (core, _) = maybe_update_term core (m_term msg);
           leader = (case m_payload msg of AppendRequest _ \<Rightarrow> Some (m_from msg) | _ \<Rightarrow> None)
       in Some (ldr, core, sr_to_follower leader (with_persist effects_none))
     else if m_term msg < core_term core
     then Some (ldr, core, sr_stay (leader_reject_stale core msg))
     else
       case m_payload msg of
         AppendResponse resp \<Rightarrow> handle_append_response ldr core (m_from msg) resp
       | InstallSnapshotResponse resp \<Rightarrow>
           handle_install_snapshot_response ldr core (m_from msg) resp
       | ReadIndexResponse resp \<Rightarrow>
           let (ldr, r) = handle_read_index_response ldr (m_from msg) resp
           in Some (ldr, core, r)
       | VoteRequest _ \<Rightarrow> Some (ldr, core, leader_handle_vote_request core (m_from msg))
       | _ \<Rightarrow> Some (ldr, core, sr_none))"

definition leader_step ::
    "Leader \<Rightarrow> Core \<Rightarrow> Event \<Rightarrow> (Leader \<times> Core \<times> StepResult) option" where
  "leader_step ldr core event =
    (case event of
       Tick \<Rightarrow> leader_handle_tick ldr core
     | DiskWriteComplete index \<Rightarrow> handle_disk_write_complete ldr core index
     | Msg msg \<Rightarrow>
         (case m_payload msg of
            PreVoteRequest _ \<Rightarrow> Some (ldr, core, sr_stay (deny_prevote core (m_from msg)))
          | _ \<Rightarrow> leader_handle_message ldr core msg))"

section \<open>Frame lemmas\<close>

lemma log_slice_subset: "log_slice l s e = Some xs \<Longrightarrow> set xs \<subseteq> set (log_entries l)"
  by (auto simp: log_slice_def vec_slice_def Let_def split: if_splits option.splits
      dest: in_set_takeD in_set_dropD)

text \<open>What sending entries may do: it touches only \<open>next_index\<close>, and its messages are
  requests in the leader's own name and term.\<close>

definition send_post :: "Core \<Rightarrow> Leader \<Rightarrow> Leader \<Rightarrow> Effects \<Rightarrow> bool" where
  "send_post c ldr ldr' eff \<longleftrightarrow>
    (\<exists>nx. ldr' = ldr\<lparr>next_index := nx\<rparr>) \<and> \<not> persist eff
    \<and> ungranting (core_id c) (messages eff)
    \<and> (plain_log (core_log c) \<longrightarrow> (\<forall>m \<in> set (messages eff). plain_message m))"

lemma next_index_id [simp]: "\<exists>nx. ldr = ldr\<lparr>next_index := nx\<rparr>"
  by (rule exI [of _ "next_index ldr"]) simp

lemma send_append_to_post:
  assumes "send_append_to ldr c to = Some (ldr', eff)"
  shows "send_post c ldr ldr' eff"
proof -
  let ?next = "case next_index ldr to of Some n \<Rightarrow> n | None \<Rightarrow> 1"
  show ?thesis
  proof (cases "?next \<le> snapshot_index (core_log c)")
    case True
    with assms show ?thesis by (auto simp: send_append_to_def send_post_def Let_def)
  next
    case False
    then obtain es prev where
      es: "log_slice (core_log c) ?next
        (min (?next + max_entries_per_msg (config c)) (last_index (core_log c) + 1)) = Some es"
      and eff: "eff = with_message effects_none \<lparr>m_from = core_id c, m_to = to,
        m_term = core_term c, m_payload = AppendRequest
          \<lparr>prev_log_index = saturating_sub ?next 1, prev_log_term = prev,
           aq_entries = es, leader_commit = commit_index c\<rparr>\<rparr>"
      and ldr: "\<exists>nx. ldr' = ldr\<lparr>next_index := nx\<rparr>"
      using assms by (auto simp: send_append_to_def Let_def bind_eq_Some_conv split: if_splits)
    from log_slice_subset [OF es] eff ldr show ?thesis
      by (auto simp: send_post_def grants_def plain_message_def plain_log_def)
  qed
qed

lemma send_post_trans:
  "send_post c a b e \<Longrightarrow> send_post c b d e' \<Longrightarrow> send_post c a d (merge_effects e e')"
  by (auto simp: send_post_def)

lemma send_append_all_post:
  "send_append_all ldr c ps eff = Some (ldr', eff') \<Longrightarrow>
    \<exists>e. send_post c ldr ldr' e \<and> eff' = merge_effects eff e"
proof (induction ps arbitrary: ldr eff)
  case Nil
  then show ?case by (intro exI [of _ effects_none]) (simp add: send_post_def)
next
  case (Cons p ps)
  then obtain l1 e1 where 1: "send_append_to ldr c p = Some (l1, e1)"
    and 2: "send_append_all l1 c ps (merge_effects eff e1) = Some (ldr', eff')"
    by (auto simp: bind_eq_Some_conv)
  from Cons.IH [OF 2] obtain e where "send_post c l1 ldr' e"
    "eff' = merge_effects (merge_effects eff e1) e" by blast
  with send_append_to_post [OF 1] show ?case
    by (intro exI [of _ "merge_effects e1 e"]) (auto intro: send_post_trans)
qed

lemma broadcast_append_post:
  "broadcast_append ldr c = Some (ldr', eff) \<Longrightarrow> send_post c ldr ldr' eff"
  by (auto simp: broadcast_append_def dest: send_append_all_post)

lemma leader_newD:
  assumes "leader_new c = Some (ldr, c', eff)"
  shows "c' = c" "send_post c (leader_init c) ldr eff"
  using assms by (auto simp: leader_new_def bind_eq_Some_conv dest: broadcast_append_post)

text \<open>What a leader step without a newer term may do to the core: it never touches the term
  or the vote and only appends to the log. Without configuration entries in the log it
  appends nothing on commit.\<close>

definition log_extends :: "Log \<Rightarrow> Log \<Rightarrow> bool" where
  "log_extends l l' \<longleftrightarrow> (\<exists>es. l' = l\<lparr>log_entries := log_entries l @ es\<rparr>)"

definition leader_frame :: "Core \<Rightarrow> Core \<Rightarrow> bool" where
  "leader_frame c c' \<longleftrightarrow>
    config c' = config c \<and> core_term c' = core_term c
    \<and> voted_for (persistent c') = voted_for (persistent c)
    \<and> bootstrap_config (persistent c') = bootstrap_config (persistent c)
    \<and> log_extends (core_log c) (core_log c')
    \<and> (plain_log (core_log c) \<longrightarrow> core_log c' = core_log c)"

lemma log_extends_refl [simp]: "log_extends l l"
  unfolding log_extends_def by (rule exI [of _ "[]"]) simp

lemma log_extends_append [simp]: "log_extends l (log_append l e)"
  unfolding log_extends_def log_append_def by blast

lemma log_extends_trans: "log_extends a b \<Longrightarrow> log_extends b d \<Longrightarrow> log_extends a d"
  by (auto simp: log_extends_def)

lemma leader_frame_refl [simp]: "leader_frame c c"
  by (simp add: leader_frame_def)

lemma leader_frame_trans: "leader_frame a b \<Longrightarrow> leader_frame b d \<Longrightarrow> leader_frame a d"
  by (auto simp: leader_frame_def intro: log_extends_trans)

lemma leader_frame_vote_step: "leader_frame c c' \<Longrightarrow> vote_step c c'"
  by (auto simp: leader_frame_def intro: vote_stepI_same)

lemma leader_frame_id: "leader_frame c c' \<Longrightarrow> core_id c' = core_id c"
  by (simp add: leader_frame_def core_id_def)

lemma advance_commit_index_frame:
  "leader_frame c (advance_commit_index ldr c)"
  "persistent (advance_commit_index ldr c) = persistent c"
  "config (advance_commit_index ldr c) = config c"
  by (auto simp: advance_commit_index_def Let_def leader_frame_def split: option.splits)

lemma try_auto_transfer_facts [simp]:
  "ungranting (core_id c) (messages (try_auto_transfer ldr c cfg))"
  "\<forall>m \<in> set (messages (try_auto_transfer ldr c cfg)). plain_message m"
  "\<not> persist (try_auto_transfer ldr c cfg)"
  by (auto simp: try_auto_transfer_def timeout_now_def grants_def plain_message_def Let_def
      split: option.splits)

definition commit_result_ok :: "Core \<Rightarrow> Core \<Rightarrow> ConfigCommitResult \<Rightarrow> bool" where
  "commit_result_ok c c' r =
    (case r of
       Continue e \<Rightarrow> persist e \<and> ungranting (core_id c) (messages e) \<and> \<not> plain_log (core_log c)
         \<and> (\<exists>tgt. core_log c' = log_append (core_log c)
              \<lparr>e_term = core_term c, e_index = last_index (core_log c) + 1,
               e_payload = ConfigPayload tgt\<rparr> \<and> \<not> is_joint tgt)
     | StepDown e \<Rightarrow> c' = c \<and> \<not> persist e \<and> ungranting (core_id c) (messages e)
         \<and> \<not> plain_log (core_log c)
     | Done \<Rightarrow> c' = c)"

lemma transition_target_simple: "transition_target cfg = Some tgt \<Longrightarrow> \<not> is_joint tgt"
  by (cases cfg) auto

lemma log_get_mem: "log_get l i = Some e \<Longrightarrow> e \<in> set (log_entries l)"
  by (auto simp: log_get_def vec_get_def bind_eq_Some_conv split: if_splits)

lemma process_configs_post:
  "process_configs ldr c idxs = Some (ldr', c', r) \<Longrightarrow>
    leader_frame c c' \<and> commit_index c' = commit_index c \<and> commit_result_ok c c' r"
proof (induction idxs)
  case (Cons i idxs)
  show ?case
  proof (cases "\<exists>e cfg. log_get (core_log c) i = Some e \<and> e_payload e = ConfigPayload cfg")
    case False
    with Cons show ?thesis by (auto split: option.splits EntryPayload.splits)
  next
    case True
    then obtain e cfg where e: "log_get (core_log c) i = Some e" "e_payload e = ConfigPayload cfg"
      by blast
    then have np: "\<not> plain_log (core_log c)"
      using log_get_mem [OF e(1)] by (auto simp: plain_log_def intro!: bexI [of _ e])
    consider (down) "\<not> is_voter cfg (core_id c)" | (skip) "is_voter cfg (core_id c)"
        "transition_target cfg = None"
      | (cont) tgt where "is_voter cfg (core_id c)" "transition_target cfg = Some tgt"
      by (cases "transition_target cfg") auto
    then show ?thesis
    proof cases
      case down
      with e np Cons.prems show ?thesis by (auto simp: commit_result_ok_def)
    next
      case skip
      with e Cons show ?thesis by simp
    next
      case cont
      then obtain l1 e1 c1 where b: "broadcast_append l1 c1 = Some (ldr', e1)" "c' = c1"
        "r = Continue (with_persist e1)"
        "c1 = set_log c (log_append (core_log c) \<lparr>e_term = core_term c,
          e_index = last_index (core_log c) + 1, e_payload = ConfigPayload tgt\<rparr>)"
        using e Cons.prems by (auto simp: append_transition_target_def bind_eq_Some_conv Let_def)
      from broadcast_append_post [OF b(1)] b(2-) np transition_target_simple [OF cont(2)]
      show ?thesis by (auto simp: commit_result_ok_def send_post_def leader_frame_def)
    qed
  qed
qed (auto simp: commit_result_ok_def)

text \<open>The postcondition of the commit loop, relative to the effects it starts with.\<close>

definition loop_post :: "Core \<Rightarrow> Effects \<Rightarrow> Core \<Rightarrow> Effects \<Rightarrow> bool" where
  "loop_post c eff c' eff' \<longleftrightarrow>
    leader_frame c c'
    \<and> (persist eff \<longrightarrow> persist eff')
    \<and> (\<not> persist eff' \<longrightarrow> persistent c' = persistent c)
    \<and> (ungranting (core_id c) (messages eff) \<longrightarrow> ungranting (core_id c) (messages eff'))
    \<and> (plain_log (core_log c) \<longrightarrow> messages eff' = messages eff)"

lemma commit_loop_post_raw:
  assumes "commit_loop ldr c eff = Some y"
  shows "loop_post c eff (fst (snd y)) (fst (snd (snd y)))"
proof (rule commit_loop.raw_induct [where P = "\<lambda>ldr c eff y. loop_post c eff (fst (snd y)) (fst (snd (snd y)))",
      OF _ assms], goal_cases)
  case (1 loop ldr c eff y)
  obtain ldr' c' eff' b where y: "y = (ldr', c', eff', b)" by (cases y)
  let ?c1 = "advance_commit_index ldr c"
  note adv = advance_commit_index_frame [where c = c and ldr = ldr]
  have same: "core_id ?c1 = core_id c" "core_log ?c1 = core_log c"
    using adv(2,3) by (simp_all add: core_accessors)
  show ?case
  proof (cases "commit_index ?c1 = commit_index c")
    case True
    with 1(2) adv show ?thesis by (auto simp: loop_post_def Let_def)
  next
    case False
    then obtain l2 c2 r where p: "process_committed_configs ldr ?c1 (commit_index c) = Some (l2, c2, r)"
      and rest: "(case r of
             Continue e \<Rightarrow> loop l2 c2 (merge_effects eff e)
           | StepDown e \<Rightarrow> Some (l2, c2, merge_effects eff e, True)
           | Done \<Rightarrow> Some (l2, c2, eff, False)) = Some (ldr', c', eff', b)"
      using 1(2) y by (auto simp: Let_def bind_eq_Some_conv)
    have post: "leader_frame ?c1 c2" "commit_result_ok ?c1 c2 r"
      using process_configs_post p by (auto simp: process_committed_configs_def)
    have fr: "leader_frame c c2" using adv(1) post(1) by (rule leader_frame_trans)
    show ?thesis
    proof (cases r)
      case (Continue e)
      with rest 1(1) [of l2 c2 "merge_effects eff e"]
      have "loop_post c2 (merge_effects eff e) c' eff'" by simp
      with Continue post(2) fr same y leader_frame_id [OF fr] show ?thesis
        by (auto simp: loop_post_def commit_result_ok_def intro: leader_frame_trans)
    next
      case (StepDown e)
      with rest post(2) fr same adv(2) y show ?thesis
        by (auto simp: loop_post_def commit_result_ok_def)
    next
      case Done
      with rest post(2) fr adv(2) y show ?thesis
        by (auto simp: loop_post_def commit_result_ok_def)
    qed
  qed
qed

lemma commit_loop_post:
  "commit_loop ldr c eff = Some (ldr', c', eff', b) \<Longrightarrow> loop_post c eff c' eff'"
  using commit_loop_post_raw [of ldr c eff "(ldr', c', eff', b)"] by simp

definition leader_post :: "Core \<Rightarrow> Core \<Rightarrow> StepResult \<Rightarrow> bool" where
  "leader_post c c' r \<longleftrightarrow>
    vote_step c c' \<and> ungranting (core_id c') (messages (effects r))
    \<and> (transition r = Stay \<longrightarrow> leader_frame c c')
    \<and> (transition r = Stay \<or> (\<exists>l. transition r = ToFollower l))
    \<and> log_extends (core_log c) (core_log c')
    \<and> (plain_log (core_log c) \<longrightarrow>
        core_log c' = core_log c \<and> (\<forall>m \<in> set (messages (effects r)). plain_message m))
    \<and> (\<not> persist (effects r) \<longrightarrow> persistent c' = persistent c)"

lemma leader_post_frame:
  assumes "leader_frame c c'" "ungranting (core_id c) (messages (effects r))"
    "transition r = Stay \<or> (\<exists>l. transition r = ToFollower l)"
    "plain_log (core_log c) \<Longrightarrow> \<forall>m \<in> set (messages (effects r)). plain_message m"
    "\<not> persist (effects r) \<Longrightarrow> persistent c' = persistent c"
  shows "leader_post c c' r"
  using assms leader_frame_vote_step [OF assms(1)] leader_frame_id [OF assms(1)]
  by (auto simp: leader_post_def leader_frame_def)

lemma leader_post_none [simp]: "leader_post c c sr_none"
  by (rule leader_post_frame) auto

lemma commit_and_reply_post:
  assumes "commit_and_reply ldr c = Some (ldr', c', r)"
  shows "leader_post c c' r"
proof -
  obtain eff b where "commit_loop ldr c effects_none = Some (ldr', c', eff, b)"
    and r: "r = (if b then sr_to_follower None eff else sr_stay eff)"
    using assms by (auto simp: commit_and_reply_def maybe_commit_def bind_eq_Some_conv)
  then have "loop_post c effects_none c' eff" by (intro commit_loop_post)
  then show ?thesis
    by (intro leader_post_frame) (auto simp: r loop_post_def split: if_splits)
qed

lemma leader_handle_tick_post:
  assumes "leader_handle_tick ldr c = Some (ldr', c', r)"
  shows "leader_post c c' r"
proof -
  let ?c1 = "c\<lparr>ticks := ticks c + 1\<rparr>"
  have fr: "leader_frame c ?c1" by (simp add: leader_frame_def)
  show ?thesis
  proof (cases "ticks ?c1 \<ge> heartbeat_deadline ldr")
    case False
    with assms fr show ?thesis
      by (auto simp: leader_handle_tick_def Let_def intro!: leader_post_frame)
  next
    case True
    then obtain l0 e where b: "broadcast_append l0 ?c1 = Some (ldr', e)" and c': "c' = ?c1"
      and r: "r = sr_stay (case pending_read_index ldr' of
          Some pending \<Rightarrow> merge_effects e (read_index_requests ?c1 pending) | None \<Rightarrow> e)"
      using assms by (auto simp: leader_handle_tick_def Let_def bind_eq_Some_conv)
    from broadcast_append_post [OF b] fr show ?thesis
      unfolding c' r
      by (intro leader_post_frame)
        (auto simp: send_post_def read_index_requests_def ungranting_def grants_def
          plain_message_def split: option.splits)
  qed
qed

lemma handle_append_response_post:
  assumes "handle_append_response ldr c from resp = Some (ldr', c', r)"
  shows "leader_post c c' r"
proof (cases "is_member (effective_config c) from")
  case False
  with assms show ?thesis by (auto simp: handle_append_response_def)
next
  case member: True
  show ?thesis
  proof (cases "ar_success resp")
    case True
    with member assms show ?thesis
      by (auto simp: handle_append_response_def Let_def split: if_splits
          intro: commit_and_reply_post)
  next
    case False
    with member assms obtain l1 e where
      s: "send_append_to l1 c from = Some (ldr', e)" "c' = c" "r = sr_stay e"
      by (auto simp: handle_append_response_def Let_def bind_eq_Some_conv)
    from send_append_to_post [OF s(1)] show ?thesis
      unfolding s(2,3) by (intro leader_post_frame) (auto simp: send_post_def)
  qed
qed

lemma handle_install_snapshot_response_post:
  "handle_install_snapshot_response ldr c from resp = Some (ldr', c', r) \<Longrightarrow> leader_post c c' r"
  by (auto simp: handle_install_snapshot_response_def split: if_splits
      intro: commit_and_reply_post)

lemma handle_disk_write_complete_post:
  "handle_disk_write_complete ldr c idx = Some (ldr', c', r) \<Longrightarrow> leader_post c c' r"
  by (auto simp: handle_disk_write_complete_def split: if_splits
      intro: commit_and_reply_post)

lemma handle_read_index_response_none:
  "handle_read_index_response ldr from resp = (ldr', r) \<Longrightarrow> r = sr_none"
  by (auto simp: handle_read_index_response_def Let_def split: option.splits if_splits)

lemma leader_handle_message_post:
  assumes "leader_handle_message ldr c msg = Some (ldr', c', r)"
  shows "leader_post c c' r"
proof -
  consider (gt) "core_term c < m_term msg" | (lt) "m_term msg < core_term c"
    | (eq) "m_term msg = core_term c"
    by (metis linorder_neqE)
  then show ?thesis
  proof cases
    case gt
    obtain c0 b where c0: "maybe_update_term c (m_term msg) = (c0, b)" by force
    then have "c' = c0" "r = sr_to_follower (case m_payload msg of AppendRequest _ \<Rightarrow>
        Some (m_from msg) | _ \<Rightarrow> None) (with_persist effects_none)"
      using assms gt by (auto simp: leader_handle_message_def)
    then show ?thesis
      using maybe_update_term_sel [OF c0] vote_step_maybe_update [OF c0]
      by (simp add: leader_post_def)
  next
    case lt
    then have "\<not> core_term c < m_term msg" by simp
    with lt assms show ?thesis
      by (auto simp: leader_handle_message_def leader_reject_stale_def Let_def grants_def
          plain_message_def split: Payload.splits intro!: leader_post_frame)
  next
    case eq
    with assms consider (ar) resp where "handle_append_response ldr c (m_from msg) resp = Some (ldr', c', r)"
      | (sn) resp where "handle_install_snapshot_response ldr c (m_from msg) resp = Some (ldr', c', r)"
      | (ri) resp where "c' = c" "handle_read_index_response ldr (m_from msg) resp = (ldr', r)"
      | (vr) "c' = c" "r = leader_handle_vote_request c (m_from msg)"
      | (none) "c' = c" "r = sr_none"
      by (cases "m_payload msg") (auto simp: leader_handle_message_def split: prod.splits)
    then show ?thesis
    proof cases
      case ri
      with handle_read_index_response_none [OF ri(2)] show ?thesis
        by (auto intro!: leader_post_frame)
    next
      case vr
      then show ?thesis
        by (auto simp: leader_handle_vote_request_def grants_def plain_message_def
            intro!: leader_post_frame)
    next
      case none
      then show ?thesis by (auto intro!: leader_post_frame)
    qed (auto intro: handle_append_response_post handle_install_snapshot_response_post)
  qed
qed

lemma leader_step_post:
  assumes "leader_step ldr c ev = Some (ldr', c', r)"
  shows "leader_post c c' r"
proof (cases ev)
  case (Msg msg)
  with assms consider "c' = c" "r = sr_stay (deny_prevote c (m_from msg))"
    | "leader_handle_message ldr c msg = Some (ldr', c', r)"
    by (cases "m_payload msg") (auto simp: leader_step_def)
  then show ?thesis
  proof cases
    case 1
    then show ?thesis
      by (auto simp: deny_prevote_def grants_def plain_message_def intro!: leader_post_frame)
  qed (rule leader_handle_message_post)
qed (use assms in \<open>auto simp: leader_step_def intro: leader_handle_tick_post
    handle_disk_write_complete_post\<close>)

text \<open>A proposal appends exactly the proposed entry, and what the commit loop appends after
  it; without configuration entries that is nothing.\<close>

lemma leader_propose_post:
  assumes "leader_propose ldr c cmd = Some (ldr', c', idx, eff, down)"
  shows "vote_step c c'" "ungranting (core_id c') (messages eff)" "persist eff"
    "core_term c' = core_term c" "config c' = config c"
    "idx = last_index (core_log c) + 1"
    "log_extends (log_append (core_log c)
        \<lparr>e_term = core_term c, e_index = idx, e_payload = CommandPayload cmd\<rparr>) (core_log c')"
    "plain_log (core_log c) \<Longrightarrow> plain_log (core_log c') \<and> (\<forall>m \<in> set (messages eff). plain_message m)
      \<and> core_log c' = log_append (core_log c)
        \<lparr>e_term = core_term c, e_index = idx, e_payload = CommandPayload cmd\<rparr>"
proof -
  let ?e = "\<lparr>e_term = core_term c, e_index = last_index (core_log c) + 1,
    e_payload = CommandPayload cmd\<rparr>"
  let ?c1 = "set_log c (log_append (core_log c) ?e)"
  obtain l1 l2 ce be where idx: "idx = last_index (core_log c) + 1"
    and mc: "maybe_commit l1 ?c1 = Some (l2, c', ce, down)"
    and bc: "broadcast_append l2 c' = Some (ldr', be)"
    and eff: "eff = merge_effects (with_persist be) ce"
    using assms by (auto simp: leader_propose_def bind_eq_Some_conv Let_def split: if_splits)
  have lp: "loop_post ?c1 effects_none c' ce"
    using mc by (intro commit_loop_post) (simp add: maybe_commit_def)
  have sp: "send_post c' l2 ldr' be" by (rule broadcast_append_post [OF bc])
  have fr: "leader_frame ?c1 c'" using lp by (simp add: loop_post_def)
  show "vote_step c c'"
    using vote_step_trans [OF vote_step_set_log leader_frame_vote_step [OF fr]] .
  show "core_term c' = core_term c" "config c' = config c"
    using fr by (simp_all add: leader_frame_def)
  show "idx = last_index (core_log c) + 1" by (rule idx)
  show "log_extends (log_append (core_log c)
      \<lparr>e_term = core_term c, e_index = idx, e_payload = CommandPayload cmd\<rparr>) (core_log c')"
    using fr idx by (simp add: leader_frame_def)
  show "ungranting (core_id c') (messages eff)"
    using lp sp leader_frame_id [OF fr] by (auto simp: eff loop_post_def send_post_def)
  show "persist eff" by (simp add: eff)
  assume pl: "plain_log (core_log c)"
  then have "plain_log (core_log ?c1)" by simp
  with fr have "core_log c' = core_log ?c1" unfolding leader_frame_def by blast
  with lp sp idx pl show "plain_log (core_log c') \<and> (\<forall>m \<in> set (messages eff). plain_message m)
      \<and> core_log c' = log_append (core_log c)
        \<lparr>e_term = core_term c, e_index = idx, e_payload = CommandPayload cmd\<rparr>"
    by (auto simp: eff loop_post_def send_post_def)
qed

end
