(* ===== verification/RaftNode.thy ===== *)
theory RaftNode
  imports Follower PreCandidate Candidate Leader
begin

text \<open>
  A Raft node (\<open>basisdb-raft/src/raft/mod.rs\<close>): the core with the state of the current role.
  \<open>step_event\<close> hands an event to the role and applies the role transition it asks for; the
  public operations wrap it and the leader's operations. \<open>None\<close> is a panic.
\<close>

section \<open>State\<close>

datatype RoleState =
  Follower Follower
| PreCandidate PreCandidate
| Candidate Candidate
| Leader Leader

fun role_is_leader :: "RoleState \<Rightarrow> bool" where
  "role_is_leader (Leader _) \<longleftrightarrow> True"
| "role_is_leader _ \<longleftrightarrow> False"

fun role_is_candidate :: "RoleState \<Rightarrow> bool" where
  "role_is_candidate (Candidate _) \<longleftrightarrow> True"
| "role_is_candidate _ \<longleftrightarrow> False"

fun role_is_precandidate :: "RoleState \<Rightarrow> bool" where
  "role_is_precandidate (PreCandidate _) \<longleftrightarrow> True"
| "role_is_precandidate _ \<longleftrightarrow> False"

fun role_is_follower :: "RoleState \<Rightarrow> bool" where
  "role_is_follower (Follower _) \<longleftrightarrow> True"
| "role_is_follower _ \<longleftrightarrow> False"

record RaftNode =
  core :: Core
  role :: RoleState

definition node_new :: "Config \<Rightarrow> NodeId list \<Rightarrow> RaftNode option" where
  "node_new cfg vs = do {
     (f, c) \<leftarrow> follower_new (core_new cfg vs) None;
     Some \<lparr>core = c, role = Follower f\<rparr> }"

definition node_restore :: "Config \<Rightarrow> Persistent \<Rightarrow> RaftNode option" where
  "node_restore cfg p = do {
     (f, c) \<leftarrow> follower_new (core_restore cfg p) None;
     Some \<lparr>core = c, role = Follower f\<rparr> }"

definition node_id :: "RaftNode \<Rightarrow> NodeId" where
  "node_id n = core_id (core n)"

definition node_term :: "RaftNode \<Rightarrow> Term" where
  "node_term n = core_term (core n)"

definition node_is_leader :: "RaftNode \<Rightarrow> bool" where
  "node_is_leader n = role_is_leader (role n)"

definition node_leader :: "RaftNode \<Rightarrow> NodeId option" where
  "node_leader n =
    (case role n of
       Leader _ \<Rightarrow> Some (core_id (core n))
     | Follower f \<Rightarrow> f_leader f
     | PreCandidate _ \<Rightarrow> None
     | Candidate _ \<Rightarrow> None)"

definition ticks_until_deadline :: "RaftNode \<Rightarrow> u64" where
  "ticks_until_deadline n =
    (case role n of
       Follower f \<Rightarrow> follower_ticks_until_deadline f (ticks (core n))
     | PreCandidate p \<Rightarrow> precandidate_ticks_until_deadline p (ticks (core n))
     | Candidate c \<Rightarrow> candidate_ticks_until_deadline c (ticks (core n))
     | Leader l \<Rightarrow> leader_ticks_until_deadline l (ticks (core n)))"

section \<open>Transitions\<close>

definition become_leader :: "Core \<Rightarrow> (RaftNode \<times> Effects) option" where
  "become_leader c = do {
     (leader, c, eff) \<leftarrow> leader_new c;
     Some (\<lparr>core = c, role = Leader leader\<rparr>, eff) }"

definition become_candidate :: "Core \<Rightarrow> (RaftNode \<times> Effects) option" where
  "become_candidate c = do {
     (candidate, c, eff) \<leftarrow> candidate_new c;
     if candidate_has_quorum candidate c then do {
       (n, leader_effects) \<leftarrow> become_leader c;
       Some (n, merge_effects eff leader_effects) }
     else Some (\<lparr>core = c, role = Candidate candidate\<rparr>, eff) }"

definition become_precandidate :: "Core \<Rightarrow> (RaftNode \<times> Effects) option" where
  "become_precandidate c = do {
     (precandidate, c, eff) \<leftarrow> precandidate_new c;
     if precandidate_has_quorum precandidate c then do {
       (n, candidate_effects) \<leftarrow> become_candidate c;
       Some (n, merge_effects eff candidate_effects) }
     else Some (\<lparr>core = c, role = PreCandidate precandidate\<rparr>, eff) }"

definition apply_transition :: "RaftNode \<Rightarrow> Transition \<Rightarrow> (RaftNode \<times> Effects) option" where
  "apply_transition n t =
    (case t of
       Stay \<Rightarrow> Some (n, effects_none)
     | ToFollower leader \<Rightarrow> do {
         (f, c) \<leftarrow> follower_new (core n) leader;
         Some (\<lparr>core = c, role = Follower f\<rparr>, effects_none) }
     | ToFollowerAfterContact leader \<Rightarrow> do {
         (f, c) \<leftarrow> after_leader_contact (core n) leader;
         Some (\<lparr>core = c, role = Follower f\<rparr>, effects_none) }
     | ToPreCandidate \<Rightarrow> become_precandidate (core n)
     | ToCandidate \<Rightarrow> become_candidate (core n)
     | ToLeader \<Rightarrow> become_leader (core n))"

definition role_step :: "RaftNode \<Rightarrow> Event \<Rightarrow> (RaftNode \<times> StepResult) option" where
  "role_step n event =
    (case role n of
       Follower f \<Rightarrow> do {
         (f, c, r) \<leftarrow> follower_step f (core n) event;
         Some (\<lparr>core = c, role = Follower f\<rparr>, r) }
     | PreCandidate p \<Rightarrow> do {
         (p, c, r) \<leftarrow> precandidate_step p (core n) event;
         Some (\<lparr>core = c, role = PreCandidate p\<rparr>, r) }
     | Candidate cd \<Rightarrow> do {
         (cd, c, r) \<leftarrow> candidate_step cd (core n) event;
         Some (\<lparr>core = c, role = Candidate cd\<rparr>, r) }
     | Leader l \<Rightarrow> do {
         (l, c, r) \<leftarrow> leader_step l (core n) event;
         Some (\<lparr>core = c, role = Leader l\<rparr>, r) })"

definition step_event :: "RaftNode \<Rightarrow> Event \<Rightarrow> (RaftNode \<times> Effects) option" where
  "step_event n event = do {
     (n, r) \<leftarrow> role_step n event;
     (case transition r of
        Stay \<Rightarrow> Some (n, effects r)
      | t \<Rightarrow> do {
          (n, transition_effects) \<leftarrow> apply_transition n t;
          Some (n, merge_effects (effects r) transition_effects) }) }"

section \<open>Public operations\<close>

definition node_tick :: "RaftNode \<Rightarrow> (RaftNode \<times> Effects) option" where
  "node_tick n = step_event n Tick"

definition node_step :: "RaftNode \<Rightarrow> Message \<Rightarrow> (RaftNode \<times> Effects) option" where
  "node_step n msg = step_event n (Msg msg)"

definition disk_write_complete :: "RaftNode \<Rightarrow> LogIndex \<Rightarrow> (RaftNode \<times> Effects) option" where
  "disk_write_complete n index = step_event n (DiskWriteComplete index)"

definition step_down_if :: "bool \<Rightarrow> Leader \<Rightarrow> Core \<Rightarrow> RaftNode option" where
  "step_down_if should_step_down leader c =
    (if should_step_down then do {
       (f, c) \<leftarrow> follower_new c None;
       Some \<lparr>core = c, role = Follower f\<rparr> }
     else Some \<lparr>core = c, role = Leader leader\<rparr>)"

definition propose ::
    "RaftNode \<Rightarrow> Command \<Rightarrow> (RaftNode \<times> (ProposeError + LogIndex \<times> Effects)) option" where
  "propose n cmd =
    (case role n of
       Leader leader \<Rightarrow> do {
         exceeded \<leftarrow> proposal_limit_exceeded (core n) cmd;
         if exceeded then Some (n, Inl Throttled)
         else do {
           (leader, c, index, eff, should_step_down) \<leftarrow> leader_propose leader (core n) cmd;
           n \<leftarrow> step_down_if should_step_down leader c;
           Some (n, Inr (index, eff)) } }
     | _ \<Rightarrow> Some (n, Inl (NotLeader (node_leader n))))"

definition request_read_index ::
    "RaftNode \<Rightarrow> RaftNode \<times> (ReadIndexError + LogIndex \<times> Effects)" where
  "request_read_index n =
    (case role n of
       Leader leader \<Rightarrow>
         let (leader, r) = leader_request_read_index leader (core n)
         in (n\<lparr>role := Leader leader\<rparr>, r)
     | _ \<Rightarrow> (n, Inl (RiNotLeader (node_leader n))))"

definition read_index_ready :: "RaftNode \<Rightarrow> LogIndex \<Rightarrow> bool" where
  "read_index_ready n idx =
    (case role n of
       Leader leader \<Rightarrow> leader_read_index_ready leader (core n) idx
     | _ \<Rightarrow> False)"

definition propose_config_change ::
    "RaftNode \<Rightarrow> ConfigChange
      \<Rightarrow> (RaftNode \<times> (ConfigChangeError + LogIndex \<times> Effects)) option" where
  "propose_config_change n change =
    (case role n of
       Leader leader \<Rightarrow> do {
         (leader, c, r) \<leftarrow> leader_propose_config_change leader (core n) change;
         (case r of
            Inl e \<Rightarrow> Some (\<lparr>core = c, role = Leader leader\<rparr>, Inl e)
          | Inr (index, eff, should_step_down) \<Rightarrow> do {
              n \<leftarrow> step_down_if should_step_down leader c;
              Some (n, Inr (index, eff)) }) }
     | _ \<Rightarrow> Some (n, Inl CcNotLeader))"

definition transfer_leadership :: "RaftNode \<Rightarrow> NodeId \<Rightarrow> TransferError + Effects" where
  "transfer_leadership n target =
    (case role n of
       Leader leader \<Rightarrow> leader_transfer_leadership leader (core n) target
     | _ \<Rightarrow> Inl TrNotLeader)"

definition committed :: "RaftNode \<Rightarrow> CommittedEntry list" where
  "committed n =
    (let start = last_applied (core n) + 1;
         stop = commit_index (core n) + 1
     in List.map_filter (\<lambda>idx.
          Option.bind (log_get (core_log (core n)) idx) (\<lambda>entry.
            case e_payload entry of
              CommandPayload cmd \<Rightarrow>
                Some \<lparr>ce_index = e_index entry, ce_term = e_term entry, ce_command = cmd\<rparr>
            | ConfigPayload _ \<Rightarrow> None))
          (range_excl start stop))"

definition advance :: "RaftNode \<Rightarrow> LogIndex \<Rightarrow> RaftNode" where
  "advance n applied_to = n\<lparr>core := (core n)\<lparr>last_applied := applied_to\<rparr>\<rparr>"

section \<open>Transitions keep terms, votes and logs\<close>

text \<open>\<open>backed B n\<close>: the votes a candidate counts, and those a leader was elected with, are
  votes that \<open>B\<close> records for the node's term.\<close>

definition backed :: "(Term \<Rightarrow> NodeId \<Rightarrow> bool) \<Rightarrow> RaftNode \<Rightarrow> bool" where
  "backed B n =
    (case role n of
       Candidate cd \<Rightarrow> \<forall>v \<in> elems (c_votes cd). B (node_term n) v
     | Leader _ \<Rightarrow> has_quorum (effective_config (core n)) (B (node_term n))
     | _ \<Rightarrow> True)"

definition self_backed :: "(Term \<Rightarrow> NodeId \<Rightarrow> bool) \<Rightarrow> Core \<Rightarrow> bool" where
  "self_backed B c \<longleftrightarrow>
    (voted_for (persistent c) = Some (core_id c) \<longrightarrow> B (core_term c) (core_id c))"

text \<open>The postcondition of a role transition from core \<open>c\<close>.\<close>

definition become_post :: "Core \<Rightarrow> RaftNode \<Rightarrow> Effects \<Rightarrow> bool" where
  "become_post c n eff \<longleftrightarrow>
    (core_term c \<noteq> u64_max \<longrightarrow> vote_step c (core n))
    \<and> core_log (core n) = core_log c
    \<and> ungranting (core_id c) (messages eff) \<and> core_id (core n) = core_id c
    \<and> (plain_log (core_log c) \<longrightarrow> (\<forall>m \<in> set (messages eff). plain_message m))
    \<and> (\<not> persist eff \<longrightarrow> persistent (core n) = persistent c)
    \<and> (\<forall>B. self_backed B (core n) \<longrightarrow> backed B n)"

lemma become_candidate_post:
  assumes "become_candidate c = Some (n, eff)"
  shows "become_post c n eff"
proof -
  obtain cd c1 e1 where new: "candidate_new c = Some (cd, c1, e1)"
    using assms by (auto simp: become_candidate_def bind_eq_Some_conv)
  note self = candidate_new_self_vote [OF new]
  from new show ?thesis
  proof (rule candidate_newE)
    assume rf: "rng_frame (start_election c) c1" and "persist e1"
      and msgs: "messages e1 = [] \<or> messages e1 = vote_requests c1"
    have vs: "core_term c \<noteq> u64_max \<Longrightarrow> vote_step c c1"
      using vote_step_trans [OF vote_step_start_election vote_step_rng [OF rf]] .
    have same: "core_log c1 = core_log c" "core_id c1 = core_id c"
      using rng_frameD(6,8) [OF rf] by simp_all
    have m1: "ungranting (core_id c1) (messages e1)" "\<forall>m \<in> set (messages e1). plain_message m"
      using msgs by auto
    show ?thesis
    proof (cases "candidate_has_quorum cd c1")
      case True
      then obtain ldr e2 where ln: "leader_new c1 = Some (ldr, c1, e2)"
        and n: "n = \<lparr>core = c1, role = Leader ldr\<rparr>" and eff: "eff = merge_effects e1 e2"
        using assms new leader_newD(1)
        by (fastforce simp: become_candidate_def become_leader_def bind_eq_Some_conv)
      have "has_quorum (effective_config c1) (B (core_term c1))" if "self_backed B c1" for B
        using True that self
        by (auto simp: candidate_has_quorum_def self_backed_def
            intro: config_quorum.quorum_mono)
      with vs same m1 leader_newD(2) [OF ln] \<open>persist e1\<close> show ?thesis
        by (auto simp: become_post_def n eff send_post_def backed_def node_term_def)
    next
      case False
      then have n: "n = \<lparr>core = c1, role = Candidate cd\<rparr>" and eff: "eff = e1"
        using assms new by (auto simp: become_candidate_def)
      with vs same m1 self \<open>persist e1\<close> show ?thesis
        by (auto simp: become_post_def backed_def self_backed_def node_term_def)
    qed
  qed
qed

lemma become_precandidate_post:
  assumes "become_precandidate c = Some (n, eff)"
  shows "become_post c n eff"
proof -
  obtain p c1 e1 where new: "precandidate_new c = Some (p, c1, e1)"
    using assms by (auto simp: become_precandidate_def bind_eq_Some_conv)
  then show ?thesis
  proof (rule precandidate_newE)
    assume rf: "rng_frame c c1" and "\<not> persist e1"
      and msgs: "messages e1 = [] \<or> messages e1 = prevote_requests c1"
    have m1: "ungranting (core_id c1) (messages e1)" "\<forall>m \<in> set (messages e1). plain_message m"
      using msgs by auto
    note same = rng_frameD [OF rf]
    show ?thesis
    proof (cases "precandidate_has_quorum p c1")
      case True
      then obtain e2 where bc: "become_candidate c1 = Some (n, e2)"
        and eff: "eff = merge_effects e1 e2"
        using assms new by (auto simp: become_precandidate_def bind_eq_Some_conv)
      from become_candidate_post [OF bc] m1 same show ?thesis
        by (auto simp: become_post_def eff intro: vote_step_trans [OF vote_step_rng [OF rf]])
    next
      case False
      then have n: "n = \<lparr>core = c1, role = PreCandidate p\<rparr>" and eff: "eff = e1"
        using assms new by (auto simp: become_precandidate_def)
      with m1 same vote_step_rng [OF rf] show ?thesis
        by (auto simp: become_post_def backed_def)
    qed
  qed
qed

lemma become_follower_post:
  assumes "rng_frame c c1"
  shows "become_post c \<lparr>core = c1, role = Follower f\<rparr> effects_none"
  using rng_frameD [OF assms] vote_step_rng [OF assms]
  by (simp add: become_post_def backed_def)

lemma apply_transition_post:
  assumes "apply_transition n t = Some (n', eff)" "t \<noteq> Stay" "t \<noteq> ToLeader"
  shows "become_post (core n) n' eff"
  using assms
  by (auto simp: apply_transition_def bind_eq_Some_conv split: Transition.splits
      intro: become_candidate_post become_precandidate_post
      intro!: become_follower_post dest!: follower_newD(1) after_leader_contactD(1))

section \<open>Steps keep terms, votes and logs\<close>

definition node_post :: "RaftNode \<Rightarrow> Event \<Rightarrow> RaftNode \<Rightarrow> Effects \<Rightarrow> bool" where
  "node_post n ev n' eff \<longleftrightarrow>
    vote_step (core n) (core n') \<and> sound_messages (core n') (messages eff)
    \<and> (plain_log (core_log (core n)) \<and> plain_event ev \<longrightarrow>
        plain_log (core_log (core n')) \<and> (\<forall>m \<in> set (messages eff). plain_message m))
    \<and> (\<not> persist eff \<longrightarrow> node_term n' = node_term n
        \<and> voted_for (persistent (core n')) = voted_for (persistent (core n)))"

text \<open>No term of the node or of the message is the largest \<open>u64\<close>, so starting an election
  does not wrap.\<close>

definition term_room :: "RaftNode \<Rightarrow> Event \<Rightarrow> bool" where
  "term_room n ev \<longleftrightarrow>
    node_term n \<noteq> u64_max \<and> (case ev of Msg m \<Rightarrow> m_term m \<noteq> u64_max | _ \<Rightarrow> True)"

text \<open>What the four roles have in common after a step.\<close>

definition role_post :: "RaftNode \<Rightarrow> Event \<Rightarrow> RaftNode \<Rightarrow> StepResult \<Rightarrow> bool" where
  "role_post n ev n' r \<longleftrightarrow>
    vote_step (core n) (core n')
    \<and> (if transition r = Stay then sound_messages (core n') (messages (effects r))
       else ungranting (core_id (core n')) (messages (effects r)))
    \<and> (plain_log (core_log (core n)) \<and> plain_event ev \<longrightarrow>
        plain_log (core_log (core n')) \<and> (\<forall>m \<in> set (messages (effects r)). plain_message m))
    \<and> (transition r \<in> {ToCandidate, ToPreCandidate} \<and> term_room n ev \<longrightarrow>
        node_term n' \<noteq> u64_max)
    \<and> (\<not> persist (effects r) \<longrightarrow> node_term n' = node_term n
        \<and> voted_for (persistent (core n')) = voted_for (persistent (core n)))"

lemma role_step_post:
  assumes "role_step n ev = Some (n', r)"
  shows "role_post n ev n' r"
proof (cases "role n")
  case (Follower f)
  with assms obtain f' where "follower_step f (core n) ev = Some (f', core n', r)"
    by (auto simp: role_step_def bind_eq_Some_conv)
  from follower_step_post [OF this] show ?thesis
    by (auto simp: role_post_def follower_post_def node_term_def term_room_def)
next
  case (PreCandidate p)
  with assms obtain p' where "precandidate_step p (core n) ev = Some (p', core n', r)"
    by (auto simp: role_step_def bind_eq_Some_conv)
  from precandidate_step_post [OF this] show ?thesis
    by (auto simp: role_post_def precandidate_post_def node_term_def term_room_def
        ungranting_sound core_term_def)
next
  case (Candidate cd)
  with assms obtain cd' where "candidate_step cd (core n) ev = Some (cd', core n', r)"
    by (auto simp: role_step_def bind_eq_Some_conv)
  from candidate_step_post [OF this] show ?thesis
    by (auto simp: role_post_def candidate_post_def node_term_def term_room_def ungranting_sound
        core_term_def)
next
  case (Leader l)
  with assms obtain l' where "leader_step l (core n) ev = Some (l', core n', r)"
    by (auto simp: role_step_def bind_eq_Some_conv)
  from leader_step_post [OF this] show ?thesis
    by (auto simp: role_post_def leader_post_def ungranting_sound node_term_def core_term_def)
qed

lemma step_eventE:
  assumes "step_event n ev = Some (n', eff)"
  obtains (stay) r where "role_step n ev = Some (n', r)" "transition r = Stay" "eff = effects r"
  | (move) n1 r e where "role_step n ev = Some (n1, r)" "transition r \<noteq> Stay"
      "apply_transition n1 (transition r) = Some (n', e)" "eff = merge_effects (effects r) e"
proof -
  obtain n1 r where "role_step n ev = Some (n1, r)"
    and "(case transition r of Stay \<Rightarrow> Some (n1, effects r)
      | t \<Rightarrow> do { (n, e) \<leftarrow> apply_transition n1 t; Some (n, merge_effects (effects r) e) })
      = Some (n', eff)"
    using assms by (auto simp: step_event_def bind_eq_Some_conv)
  then show ?thesis
    by (cases "transition r") (auto simp: bind_eq_Some_conv intro: stay move)
qed

text \<open>Becoming leader from a candidate that has a quorum keeps the core.\<close>

lemma become_leaderD:
  assumes "become_leader c = Some (n, eff)"
  obtains ldr where "n = \<lparr>core = c, role = Leader ldr\<rparr>" "send_post c (leader_init c) ldr eff"
  using assms leader_newD by (fastforce simp: become_leader_def bind_eq_Some_conv)

lemma step_event_post:
  assumes "step_event n ev = Some (n', eff)" "term_room n ev"
  shows "node_post n ev n' eff"
  using assms(1)
proof (cases rule: step_eventE)
  case (stay r)
  from role_step_post [OF stay(1)] stay(2,3) show ?thesis
    by (simp add: role_post_def node_post_def)
next
  case (move n1 r e)
  note rp = role_step_post [OF move(1)]
  show ?thesis
  proof (cases "transition r = ToLeader")
    case True
    then have "become_leader (core n1) = Some (n', e)"
      using move(3) by (simp add: apply_transition_def)
    then show ?thesis
    proof (rule become_leaderD)
      fix ldr
      assume "n' = \<lparr>core = core n1, role = Leader ldr\<rparr>"
        and "send_post (core n1) (leader_init (core n1)) ldr e"
      with rp True move(4) show ?thesis
        by (auto simp: role_post_def node_post_def send_post_def ungranting_sound node_term_def)
    qed
  next
    case False
    then have bp: "become_post (core n1) n' e"
      using move(2,3) by (intro apply_transition_post)
    have "core_term (core n1) \<noteq> u64_max \<or> transition r \<notin> {ToCandidate, ToPreCandidate}"
      using rp assms(2) by (auto simp: role_post_def node_term_def)
    moreover have "vote_step (core n1) (core n')"
      if "transition r \<notin> {ToCandidate, ToPreCandidate}"
      using that move(2,3) False
      by (cases "transition r") (auto simp: apply_transition_def bind_eq_Some_conv
          dest!: follower_newD(1) after_leader_contactD(1) intro: vote_step_rng)
    ultimately have vs: "vote_step (core n1) (core n')"
      using bp by (auto simp: become_post_def)
    have "ungranting (core_id (core n')) (messages eff)"
      using rp bp move(2,4) by (auto simp: role_post_def become_post_def)
    with rp bp vs move(2,4) show ?thesis
      by (auto simp: role_post_def node_post_def become_post_def ungranting_sound node_term_def
          core_term_def intro: vote_step_trans)
  qed
qed

section \<open>Votes behind candidates and leaders\<close>

lemma step_event_backed:
  assumes step: "step_event n ev = Some (n', eff)"
    and bk: "backed B n"
    and votes: "\<And>t v. vote_from ev t v \<Longrightarrow> B t v"
    and self: "self_backed B (core n')"
    and plain: "plain_log (core_log (core n))"
  shows "backed B n'"
  using step
proof (cases rule: step_eventE)
  case (stay r)
  show ?thesis
  proof (cases "role n")
    case (Candidate cd)
    with stay(1) obtain cd' where cs: "candidate_step cd (core n) ev = Some (cd', core n', r)"
      "role n' = Candidate cd'"
      by (auto simp: role_step_def bind_eq_Some_conv)
    from candidate_step_post [OF cs(1)] stay(2) cs(2) bk votes Candidate show ?thesis
      by (auto simp: candidate_post_def backed_def node_term_def)
  next
    case (Leader l)
    with stay(1) obtain l' where ls: "leader_step l (core n) ev = Some (l', core n', r)"
      "role n' = Leader l'"
      by (auto simp: role_step_def bind_eq_Some_conv)
    then have fr: "leader_frame (core n) (core n')"
      using leader_step_post stay(2) by (auto simp: leader_post_def)
    then have "effective_config (core n') = effective_config (core n)" "node_term n' = node_term n"
      using plain by (auto simp: leader_frame_def plain_effective_config node_term_def)
    with bk Leader ls(2) show ?thesis by (simp add: backed_def)
  qed (use stay in \<open>auto simp: role_step_def bind_eq_Some_conv backed_def\<close>)
next
  case (move n1 r e)
  show ?thesis
  proof (cases "transition r = ToLeader")
    case False
    then have "become_post (core n1) n' e"
      using move(2,3) by (intro apply_transition_post)
    with self show ?thesis by (simp add: become_post_def)
  next
    case True
    then obtain cd cd' where cd: "role n = Candidate cd"
      and cs: "candidate_step cd (core n) ev = Some (cd', core n1, r)"
      using move(1) by (cases "role n") (auto simp: role_step_def bind_eq_Some_conv
          follower_post_def precandidate_post_def leader_post_def
          dest!: follower_step_post precandidate_step_post leader_step_post)
    note cp = candidate_step_post [OF cs]
    have "B (core_term (core n1)) v" if "v \<in> elems (c_votes cd')" for v
      using that cp True bk cd votes
      by (auto simp: candidate_post_def backed_def node_term_def)
    then have q: "has_quorum (effective_config (core n1)) (B (core_term (core n1)))"
      using cp True by (auto simp: candidate_post_def candidate_has_quorum_def
          intro: config_quorum.quorum_mono)
    have "become_leader (core n1) = Some (n', e)"
      using move(3) True by (simp add: apply_transition_def)
    then show ?thesis
      using q by (elim become_leaderD) (simp add: backed_def node_term_def)
  qed
qed

lemma step_down_ifE:
  assumes "step_down_if b ldr c = Some n"
  obtains f where "rng_frame c (core n)" "role n = Follower f"
  | "core n = c" "role n = Leader ldr"
  using assms by (auto simp: step_down_if_def bind_eq_Some_conv split: if_splits
      dest!: follower_newD(1))

lemma propose_InrE:
  assumes "propose n cmd = Some (n', Inr (idx, eff))"
  obtains ldr ldr' c' b where "role n = Leader ldr"
    "leader_propose ldr (core n) cmd = Some (ldr', c', idx, eff, b)"
    "step_down_if b ldr' c' = Some n'"
  using assms by (auto simp: propose_def bind_eq_Some_conv split: RoleState.splits if_splits)

lemma propose_post:
  assumes "propose n cmd = Some (n', Inr (idx, eff))"
  shows "vote_step (core n) (core n')" "sound_messages (core n') (messages eff)" "persist eff"
    "plain_log (core_log (core n)) \<Longrightarrow> plain_log (core_log (core n'))
      \<and> (\<forall>m \<in> set (messages eff). plain_message m)"
    "plain_log (core_log (core n)) \<Longrightarrow> backed B n \<Longrightarrow> backed B n'"
proof -
  obtain ldr ldr' c' b where n: "role n = Leader ldr"
    and p: "leader_propose ldr (core n) cmd = Some (ldr', c', idx, eff, b)"
    and d: "step_down_if b ldr' c' = Some n'"
    using assms by (rule propose_InrE)
  note post = leader_propose_post [OF p]
  have fin: "rng_frame c' (core n')" using d by (rule step_down_ifE) auto
  note same = rng_frameD [OF fin]
  show "vote_step (core n) (core n')"
    using post(1) vote_step_rng [OF fin] by (rule vote_step_trans)
  show "sound_messages (core n') (messages eff)" "persist eff"
    using post(2,3) same(6) by (auto intro: ungranting_sound)
  show "plain_log (core_log (core n)) \<Longrightarrow> plain_log (core_log (core n'))
      \<and> (\<forall>m \<in> set (messages eff). plain_message m)"
    using post(8) same(8) by simp
  assume plain: "plain_log (core_log (core n))" and bk: "backed B n"
  have "effective_config c' = effective_config (core n)"
    using post(1,8) plain by (simp add: plain_effective_config vote_step_def)
  with d bk post(4) n show "backed B n'"
    by (elim step_down_ifE) (auto simp: backed_def node_term_def)
qed

lemma request_read_index_post:
  assumes "request_read_index n = (n', Inr (idx, eff))"
  shows "core n' = core n" "ungranting (core_id (core n)) (messages eff)"
    "\<forall>m \<in> set (messages eff). plain_message m" "\<not> persist eff" "backed B n \<Longrightarrow> backed B n'"
    "node_is_leader n' = node_is_leader n"
  using assms
  by (auto simp: request_read_index_def leader_request_read_index_def Let_def
      read_index_requests_def ungranting_def grants_def plain_message_def backed_def
      node_term_def node_is_leader_def
      split: RoleState.splits option.splits if_splits prod.splits)

lemma transfer_leadership_post:
  assumes "transfer_leadership n t = Inr eff"
  shows "ungranting (core_id (core n)) (messages eff)"
    "\<forall>m \<in> set (messages eff). plain_message m" "\<not> persist eff"
  using assms
  by (auto simp: transfer_leadership_def leader_transfer_leadership_def Let_def timeout_now_def
      grants_def plain_message_def split: RoleState.splits if_splits)

end
