(* ===== verification/Cluster.thy ===== *)
theory Cluster
  imports RaftNode
begin

text \<open>
  A cluster of nodes over an asynchronous network. A step of a node runs one operation of
  \<open>RaftNode\<close> and then does what the node runtime does with its effects
  (\<open>basisdb-node/src/runtime.rs\<close>, \<open>handle_effects\<close>): it saves the persistent state when the
  effects ask for it and only then sends the messages. The network may delay, reorder,
  duplicate and drop messages, and a node may crash at any moment and restart from what it
  last saved. The membership is fixed: clients propose commands and no configuration
  changes. Two history variables record every vote that was ever in a node's persistent
  state and every node that was ever leader of a term; no step reads them.
\<close>

section \<open>The system\<close>

record Cluster =
  nodes :: "NodeId \<Rightarrow> RaftNode option"
  durable :: "NodeId \<Rightarrow> Persistent option"
  network :: "Message set"
  votes :: "(NodeId \<times> Term \<times> NodeId) set"
  leaders :: "(NodeId \<times> Term) set"

definition cast_votes :: "NodeId \<Rightarrow> RaftNode \<Rightarrow> (NodeId \<times> Term \<times> NodeId) set" where
  "cast_votes i n =
    (case voted_for (persistent (core n)) of None \<Rightarrow> {} | Some x \<Rightarrow> {(i, node_term n, x)})"

definition leaderships :: "NodeId \<Rightarrow> RaftNode \<Rightarrow> (NodeId \<times> Term) set" where
  "leaderships i n = (if node_is_leader n then {(i, node_term n)} else {})"

text \<open>Node \<open>i\<close> has become \<open>n'\<close> with effects \<open>eff\<close>: save, then send.\<close>

definition handle_effects :: "Cluster \<Rightarrow> NodeId \<Rightarrow> RaftNode \<Rightarrow> Effects \<Rightarrow> Cluster" where
  "handle_effects S i n' eff =
    S\<lparr>nodes := (nodes S)(i \<mapsto> n'),
      durable := (if persist eff then (durable S)(i \<mapsto> persistent (core n')) else durable S),
      network := network S \<union> set (messages eff),
      votes := votes S \<union> cast_votes i n',
      leaders := leaders S \<union> leaderships i n'\<rparr>"

definition deliverable :: "Cluster \<Rightarrow> NodeId \<Rightarrow> Event \<Rightarrow> bool" where
  "deliverable S i ev = (case ev of Msg m \<Rightarrow> m \<in> network S \<and> m_to m = i | _ \<Rightarrow> True)"

definition node_open :: "Config \<Rightarrow> NodeId list \<Rightarrow> Persistent option \<Rightarrow> RaftNode option" where
  "node_open cfg vs saved =
    (case saved of Some p \<Rightarrow> node_restore cfg p | None \<Rightarrow> node_new cfg vs)"

inductive cluster_step :: "NodeId list \<Rightarrow> Cluster \<Rightarrow> Cluster \<Rightarrow> bool"
  for vs :: "NodeId list" where
  event: "nodes S i = Some n \<Longrightarrow> deliverable S i ev \<Longrightarrow> term_room n ev \<Longrightarrow>
    step_event n ev = Some (n', eff) \<Longrightarrow> cluster_step vs S (handle_effects S i n' eff)"
| propose: "nodes S i = Some n \<Longrightarrow> propose n cmd = Some (n', Inr (idx, eff)) \<Longrightarrow>
    cluster_step vs S (handle_effects S i n' eff)"
| read: "nodes S i = Some n \<Longrightarrow> request_read_index n = (n', Inr (idx, eff)) \<Longrightarrow>
    cluster_step vs S (handle_effects S i n' eff)"
| transfer: "nodes S i = Some n \<Longrightarrow> transfer_leadership n target = Inr eff \<Longrightarrow>
    cluster_step vs S (handle_effects S i n eff)"
| applied: "nodes S i = Some n \<Longrightarrow>
    cluster_step vs S (handle_effects S i (advance n idx) effects_none)"
| restart: "nodes S i = Some n \<Longrightarrow> node_open (config (core n)) vs (durable S i) = Some n' \<Longrightarrow>
    cluster_step vs S (handle_effects S i n' effects_none)"

text \<open>Every node starts with its own identity and the same voters, nothing saved and
  nothing sent.\<close>

definition cluster_init :: "NodeId list \<Rightarrow> Cluster \<Rightarrow> bool" where
  "cluster_init vs S \<longleftrightarrow>
    (\<forall>i n. nodes S i = Some n \<longrightarrow>
      (\<exists>cfg. cfg_id cfg = i \<and> node_new cfg vs = Some n))
    \<and> (\<forall>i. durable S i = None) \<and> network S = {} \<and> votes S = {} \<and> leaders S = {}"

inductive reachable :: "NodeId list \<Rightarrow> Cluster \<Rightarrow> bool" for vs :: "NodeId list" where
  init: "cluster_init vs S \<Longrightarrow> reachable vs S"
| step: "reachable vs S \<Longrightarrow> cluster_step vs S S' \<Longrightarrow> reachable vs S'"

section \<open>The invariant\<close>

text \<open>What holds of one node, given the votes recorded so far.\<close>

definition node_inv ::
    "NodeId list \<Rightarrow> (NodeId \<times> Term \<times> NodeId) set \<Rightarrow> NodeId \<Rightarrow> RaftNode \<Rightarrow> bool" where
  "node_inv vs V i n \<longleftrightarrow>
    core_id (core n) = i \<and> bootstrap_config (persistent (core n)) = simple vs
    \<and> plain_log (core_log (core n))
    \<and> backed (\<lambda>t v. (v, t, i) \<in> V) n
    \<and> cast_votes i n \<subseteq> V
    \<and> (\<forall>t x. (i, t, x) \<in> V \<longrightarrow> t \<le> node_term n
        \<and> (t = node_term n \<longrightarrow> voted_for (persistent (core n)) = Some x))"

text \<open>What is on disk carries the term and vote the running node has.\<close>

definition durable_inv :: "NodeId list \<Rightarrow> RaftNode \<Rightarrow> Persistent option \<Rightarrow> bool" where
  "durable_inv vs n saved =
    (case saved of
       None \<Rightarrow> node_term n = 0 \<and> voted_for (persistent (core n)) = None
     | Some p \<Rightarrow> p_term p = node_term n \<and> voted_for p = voted_for (persistent (core n))
         \<and> bootstrap_config p = simple vs \<and> plain_log (p_log p))"

definition cluster_inv :: "NodeId list \<Rightarrow> Cluster \<Rightarrow> bool" where
  "cluster_inv vs S \<longleftrightarrow>
    (\<forall>i n. nodes S i = Some n \<longrightarrow> node_inv vs (votes S) i n \<and> durable_inv vs n (durable S i))
    \<and> (\<forall>v t x y. (v, t, x) \<in> votes S \<longrightarrow> (v, t, y) \<in> votes S \<longrightarrow> x = y)
    \<and> (\<forall>i t. (i, t) \<in> leaders S \<longrightarrow> has_quorum (simple vs) (\<lambda>v. (v, t, i) \<in> votes S))
    \<and> (\<forall>m \<in> network S. plain_message m
        \<and> (grants m \<longrightarrow> (m_from m, m_term m, m_to m) \<in> votes S))"

lemma backed_mono:
  "backed B n \<Longrightarrow> (\<And>t v. B t v \<Longrightarrow> B' t v) \<Longrightarrow> backed B' n"
  by (auto simp: backed_def split: RoleState.splits intro: config_quorum.quorum_mono)

lemma cast_votes_iff:
  "(v, t, x) \<in> cast_votes i n \<longleftrightarrow>
    v = i \<and> t = node_term n \<and> voted_for (persistent (core n)) = Some x"
  by (auto simp: cast_votes_def split: option.splits)

text \<open>The invariant is kept by any step that keeps terms and votes, sends sound plain
  messages and saves the term and vote when they change.\<close>

lemma handle_effects_inv:
  assumes inv: "cluster_inv vs S" and n: "nodes S i = Some n"
    and vs: "vote_step (core n) (core n')"
    and snd: "sound_messages (core n') (messages eff)"
    and pl: "plain_log (core_log (core n'))" "\<forall>m \<in> set (messages eff). plain_message m"
    and bk: "backed (\<lambda>t v. (v, t, i) \<in> votes S \<union> cast_votes i n') n'"
    and kept: "\<not> persist eff \<Longrightarrow> node_term n' = node_term n
      \<and> voted_for (persistent (core n')) = voted_for (persistent (core n))"
  shows "cluster_inv vs (handle_effects S i n' eff)"
proof -
  let ?V = "votes S \<union> cast_votes i n'"
  have ni: "node_inv vs (votes S) i n" and di: "durable_inv vs n (durable S i)"
    using inv n by (auto simp: cluster_inv_def)
  have id: "core_id (core n') = i" and boot: "bootstrap_config (persistent (core n')) = simple vs"
    using ni vs by (auto simp: node_inv_def vote_step_def core_id_def)
  have old: "t \<le> node_term n' \<and> (t = node_term n' \<longrightarrow> voted_for (persistent (core n')) = Some x)"
    if "(i, t, x) \<in> votes S" for t x
    using that ni vs by (fastforce simp: node_inv_def vote_step_def node_term_def)
  have ni': "node_inv vs ?V i n'"
    using id boot pl(1) bk old by (auto simp: node_inv_def cast_votes_iff)
  have other: "node_inv vs ?V j k" if "nodes S j = Some k" "j \<noteq> i" for j k
    using inv that
    by (fastforce simp: cluster_inv_def node_inv_def cast_votes_iff intro: backed_mono)
  have di': "durable_inv vs n' (if persist eff then Some (persistent (core n')) else durable S i)"
    using di kept boot pl(1)
    by (auto simp: durable_inv_def node_term_def core_term_def core_log_def split: option.splits)
  have uniq: "x = y" if "(v, t, x) \<in> ?V" "(v, t, y) \<in> ?V" for v t x y
    using that inv old by (auto simp: cluster_inv_def cast_votes_iff)
  have lead: "has_quorum (simple vs) (\<lambda>v. (v, t, j) \<in> ?V)"
    if "(j, t) \<in> leaders S \<union> leaderships i n'" for j t
  proof -
    have "has_quorum (simple vs) (\<lambda>v. (v, t, j) \<in> votes S)" if "(j, t) \<in> leaders S"
      using that inv by (simp add: cluster_inv_def)
    moreover have "has_quorum (simple vs) (\<lambda>v. (v, t, j) \<in> ?V)" if "(j, t) \<in> leaderships i n'"
      using that bk plain_effective_config [OF pl(1)] boot
      by (auto simp: leaderships_def node_is_leader_def backed_def split: if_splits RoleState.splits)
    ultimately show ?thesis
      using that config_quorum.quorum_mono [of "simple vs" "\<lambda>v. (v, t, j) \<in> votes S"
          "\<lambda>v. (v, t, j) \<in> ?V"] by blast
  qed
  have net: "plain_message m \<and> (grants m \<longrightarrow> (m_from m, m_term m, m_to m) \<in> ?V)"
    if "m \<in> network S \<union> set (messages eff)" for m
    using that inv snd pl(2) id
    by (auto simp: cluster_inv_def sound_messages_def sound_message_def cast_votes_iff node_term_def)
  show ?thesis
    unfolding cluster_inv_def
    using ni' di' other inv uniq lead net
    by (auto simp: handle_effects_def cluster_inv_def split: if_splits)
qed

section \<open>Every step keeps the invariant\<close>

lemma node_openD:
  assumes "node_open cfg vs saved = Some n'"
  shows "config (core n') = cfg" "\<exists>f. role n' = Follower f"
    "saved = Some p \<Longrightarrow> persistent (core n') = p"
    "saved = None \<Longrightarrow> persistent (core n') = persistent_default\<lparr>bootstrap_config := simple vs\<rparr>"
  using assms
  by (auto simp: node_open_def node_restore_def node_new_def core_restore_def core_new_def
      bind_eq_Some_conv Let_def rng_frameD(1,2) split: option.splits dest!: follower_newD(1))

lemma follower_backed: "role n = Follower f \<Longrightarrow> backed B n"
  by (simp add: backed_def)

lemma restart_inv:
  assumes inv: "cluster_inv vs S" and n: "nodes S i = Some n"
    and op: "node_open (config (core n)) vs (durable S i) = Some n'"
  shows "cluster_inv vs (handle_effects S i n' effects_none)"
proof -
  note op' = node_openD [OF op]
  have ni: "node_inv vs (votes S) i n" and di: "durable_inv vs n (durable S i)"
    using inv n by (auto simp: cluster_inv_def)
  have same: "node_term n' = node_term n"
    "voted_for (persistent (core n')) = voted_for (persistent (core n))"
    "bootstrap_config (persistent (core n')) = simple vs" "plain_log (core_log (core n'))"
    using di op'(3,4) by (cases "durable S i"; force simp: durable_inv_def persistent_default_def
        node_term_def core_accessors)+
  have "vote_step (core n) (core n')"
    using ni same op'(1) by (intro vote_stepI_same) (auto simp: node_inv_def node_term_def)
  then show ?thesis
    using same op'(2) by (intro handle_effects_inv [OF inv n]) (auto simp: follower_backed)
qed

lemma cluster_step_inv:
  assumes "cluster_step vs S S'" "cluster_inv vs S"
  shows "cluster_inv vs S'"
  using assms
proof (induction rule: cluster_step.induct)
  case (event S i n ev n' eff)
  have ni: "node_inv vs (votes S) i n" using event by (auto simp: cluster_inv_def)
  have np: "node_post n ev n' eff" using event by (intro step_event_post)
  have pe: "plain_event ev"
    using event by (auto simp: plain_event_def deliverable_def cluster_inv_def split: Event.splits)
  have vf: "(v, t, i) \<in> votes S" if "vote_from ev t v" for t v
    using that event by (auto simp: vote_from_def deliverable_def cluster_inv_def)
  have idn: "core_id (core n') = i"
    using ni np by (auto simp: node_inv_def node_post_def vote_step_def core_id_def)
  let ?B = "\<lambda>t v. (v, t, i) \<in> votes S \<union> cast_votes i n'"
  have bkn: "backed ?B n"
    by (rule backed_mono [of "\<lambda>t v. (v, t, i) \<in> votes S"]) (use ni in \<open>auto simp: node_inv_def\<close>)
  have sb: "self_backed ?B (core n')"
    using idn by (auto simp: self_backed_def cast_votes_iff node_term_def)
  have bk: "backed ?B n'"
    by (rule step_event_backed [OF event(4) bkn _ sb]) (use vf ni in \<open>auto simp: node_inv_def\<close>)
  show ?case
    using event np pe ni bk
    by (intro handle_effects_inv [of vs S i n]) (auto simp: node_post_def node_inv_def)
next
  case (propose S i n cmd n' idx eff)
  have ni: "node_inv vs (votes S) i n" using propose by (auto simp: cluster_inv_def)
  have "backed (\<lambda>t v. (v, t, i) \<in> votes S) n'"
    using propose_post(5) [OF propose(2)] ni by (simp add: node_inv_def)
  then have "backed (\<lambda>t v. (v, t, i) \<in> votes S \<union> cast_votes i n') n'"
    by (rule backed_mono) auto
  then show ?case
    using propose ni propose_post [OF propose(2)]
    by (intro handle_effects_inv [of vs S i n]) (auto simp: node_inv_def)
next
  case (read S i n n' idx eff)
  have ni: "node_inv vs (votes S) i n" using read by (auto simp: cluster_inv_def)
  note post = request_read_index_post [OF read(2)]
  have "backed (\<lambda>t v. (v, t, i) \<in> votes S \<union> cast_votes i n') n'"
    by (rule backed_mono [of "\<lambda>t v. (v, t, i) \<in> votes S"])
      (use ni post(5) in \<open>auto simp: node_inv_def\<close>)
  then show ?case
    using read ni post
    by (intro handle_effects_inv [of vs S i n])
      (auto simp: node_inv_def node_term_def intro: ungranting_sound)
next
  case (transfer S i n target eff)
  have ni: "node_inv vs (votes S) i n" using transfer by (auto simp: cluster_inv_def)
  have "backed (\<lambda>t v. (v, t, i) \<in> votes S \<union> cast_votes i n) n"
    by (rule backed_mono [of "\<lambda>t v. (v, t, i) \<in> votes S"])
      (use ni in \<open>auto simp: node_inv_def\<close>)
  then show ?case
    using transfer ni transfer_leadership_post [OF transfer(2)]
    by (intro handle_effects_inv [of vs S i n]) (auto simp: node_inv_def intro: ungranting_sound)
next
  case (applied S i n idx)
  have ni: "node_inv vs (votes S) i n" using applied by (auto simp: cluster_inv_def)
  have adv: "persistent (core (advance n idx)) = persistent (core n)"
    "node_term (advance n idx) = node_term n" "role (advance n idx) = role n"
    "vote_step (core n) (core (advance n idx))" "core_log (core (advance n idx)) = core_log (core n)"
    "effective_config (core (advance n idx)) = effective_config (core n)"
    by (simp_all add: advance_def node_term_def)
  have "backed (\<lambda>t v. (v, t, i) \<in> votes S) (advance n idx)"
    using ni adv by (auto simp: node_inv_def backed_def split: RoleState.splits)
  then have "backed (\<lambda>t v. (v, t, i) \<in> votes S \<union> cast_votes i (advance n idx)) (advance n idx)"
    by (rule backed_mono) auto
  then show ?case
    using applied ni adv by (intro handle_effects_inv [of vs S i n]) (auto simp: node_inv_def)
next
  case (restart S i n n')
  then show ?case by (intro restart_inv)
qed

lemma cluster_init_inv:
  assumes "cluster_init vs S"
  shows "cluster_inv vs S"
proof -
  have "node_inv vs {} i n \<and> durable_inv vs n None" if n: "nodes S i = Some n" for i n
  proof -
    obtain cfg where cfg: "cfg_id cfg = i" "node_new cfg vs = Some n"
      using assms n by (auto simp: cluster_init_def)
    then have "node_open cfg vs None = Some n" by (simp add: node_open_def)
    note op = node_openD [OF this]
    from op(2) op(1) op(4) [OF refl] cfg(1) show ?thesis
      by (auto simp: node_inv_def durable_inv_def persistent_default_def core_accessors
          node_term_def cast_votes_def follower_backed)
  qed
  then show ?thesis using assms by (auto simp: cluster_inv_def cluster_init_def)
qed

lemma reachable_inv: "reachable vs S \<Longrightarrow> cluster_inv vs S"
  by (induction rule: reachable.induct) (auto intro: cluster_init_inv cluster_step_inv)

section \<open>Executable runs\<close>

text \<open>A run is a list of actions on an executable state, in which nodes and network are
  lists; an action that is not enabled stops it. Every run is an execution of the cluster.\<close>

datatype Action = EventAt NodeId Event | ProposeAt NodeId Command

record Sim =
  sim_nodes :: "(NodeId \<times> RaftNode) list"
  sim_net :: "Message list"

fun set_node :: "NodeId \<Rightarrow> RaftNode \<Rightarrow> (NodeId \<times> RaftNode) list \<Rightarrow> (NodeId \<times> RaftNode) list" where
  "set_node i n [] = []"
| "set_node i n ((j, m) # ns) = (if j = i then (i, n) # ns else (j, m) # set_node i n ns)"

definition sim_effects :: "Sim \<Rightarrow> NodeId \<Rightarrow> RaftNode \<Rightarrow> Effects \<Rightarrow> Sim" where
  "sim_effects s i n eff =
    \<lparr>sim_nodes = set_node i n (sim_nodes s), sim_net = sim_net s @ messages eff\<rparr>"

definition sim_enabled :: "Sim \<Rightarrow> NodeId \<Rightarrow> RaftNode \<Rightarrow> Event \<Rightarrow> bool" where
  "sim_enabled s i n ev \<longleftrightarrow> term_room n ev
    \<and> (case ev of Msg m \<Rightarrow> m \<in> set (sim_net s) \<and> m_to m = i | _ \<Rightarrow> True)"

fun sim_act :: "Sim \<Rightarrow> Action \<Rightarrow> Sim option" where
  "sim_act s (EventAt i ev) = do {
     n \<leftarrow> map_of (sim_nodes s) i;
     (n', eff) \<leftarrow> (if sim_enabled s i n ev then step_event n ev else None);
     Some (sim_effects s i n' eff) }"
| "sim_act s (ProposeAt i cmd) = do {
     n \<leftarrow> map_of (sim_nodes s) i;
     (n', r) \<leftarrow> propose n cmd;
     (case r of Inr (idx, eff) \<Rightarrow> Some (sim_effects s i n' eff) | Inl _ \<Rightarrow> None) }"

fun sim_run :: "Sim \<Rightarrow> Action list \<Rightarrow> Sim option" where
  "sim_run s [] = Some s"
| "sim_run s (a # as) = do { s \<leftarrow> sim_act s a; sim_run s as }"

fun new_nodes :: "(NodeId \<Rightarrow> Config) \<Rightarrow> NodeId list \<Rightarrow> NodeId list \<Rightarrow> (NodeId \<times> RaftNode) list option" where
  "new_nodes cfgs vs [] = Some []"
| "new_nodes cfgs vs (i # is) = do {
     n \<leftarrow> node_new (cfgs i) vs;
     ns \<leftarrow> new_nodes cfgs vs is;
     Some ((i, n) # ns) }"

definition sim_new :: "(NodeId \<Rightarrow> Config) \<Rightarrow> NodeId list \<Rightarrow> Sim option" where
  "sim_new cfgs vs = map_option (\<lambda>ns. \<lparr>sim_nodes = ns, sim_net = []\<rparr>) (new_nodes cfgs vs vs)"

definition sim_rel :: "NodeId list \<Rightarrow> Sim \<Rightarrow> Cluster \<Rightarrow> bool" where
  "sim_rel vs s S \<longleftrightarrow>
    reachable vs S \<and> nodes S = map_of (sim_nodes s) \<and> network S = set (sim_net s)
    \<and> (\<forall>i n. map_of (sim_nodes s) i = Some n \<longrightarrow> leaderships i n \<subseteq> leaders S)"

lemma map_of_set_node:
  "map_of ns i = Some m \<Longrightarrow> map_of (set_node i n ns) = (map_of ns)(i \<mapsto> n)"
  by (induction i n ns rule: set_node.induct) (auto simp: fun_eq_iff)

lemma sim_effects_rel:
  assumes "sim_rel vs s S" "map_of (sim_nodes s) i = Some n"
    and "cluster_step vs S (handle_effects S i n' eff)"
  shows "sim_rel vs (sim_effects s i n' eff) (handle_effects S i n' eff)"
proof -
  have "reachable vs (handle_effects S i n' eff)"
    using assms reachable.step by (auto simp: sim_rel_def)
  moreover have "leaderships j k \<subseteq> leaders S \<union> leaderships i n'"
    if "((map_of (sim_nodes s))(i \<mapsto> n')) j = Some k" for j k
    using assms(1) that by (cases "j = i") (auto simp: sim_rel_def)
  ultimately show ?thesis
    using assms(1,2)
    by (simp add: sim_rel_def sim_effects_def handle_effects_def map_of_set_node)
qed

lemma sim_act_rel:
  assumes rel: "sim_rel vs s S" and act: "sim_act s a = Some s'"
  shows "\<exists>S'. sim_rel vs s' S'"
proof (cases a)
  case (EventAt i ev)
  with act obtain n n' eff where *: "map_of (sim_nodes s) i = Some n" "sim_enabled s i n ev"
    "step_event n ev = Some (n', eff)" "s' = sim_effects s i n' eff"
    by (auto simp: bind_eq_Some_conv split: if_splits)
  moreover have "cluster_step vs S (handle_effects S i n' eff)"
    using rel * by (intro cluster_step.event [of S i n ev])
      (auto simp: sim_rel_def sim_enabled_def deliverable_def split: Event.splits)
  ultimately show ?thesis using rel sim_effects_rel by blast
next
  case (ProposeAt i cmd)
  with act obtain n n' r where *: "map_of (sim_nodes s) i = Some n" "propose n cmd = Some (n', r)"
    "(case r of Inr (idx, eff) \<Rightarrow> Some (sim_effects s i n' eff) | Inl _ \<Rightarrow> None) = Some s'"
    by (auto simp: bind_eq_Some_conv)
  then obtain idx eff where r: "r = Inr (idx, eff)" "s' = sim_effects s i n' eff"
    by (cases r) auto
  have "cluster_step vs S (handle_effects S i n' eff)"
    using rel * r by (intro cluster_step.propose [of S i n cmd]) (auto simp: sim_rel_def)
  then show ?thesis using rel * r sim_effects_rel by blast
qed

lemma sim_run_rel:
  "sim_run s as = Some s' \<Longrightarrow> sim_rel vs s S \<Longrightarrow> \<exists>S'. sim_rel vs s' S'"
proof (induction as arbitrary: s S)
  case (Cons a as)
  then obtain s1 where "sim_act s a = Some s1" "sim_run s1 as = Some s'"
    by (auto simp: bind_eq_Some_conv)
  with Cons sim_act_rel show ?case by blast
qed auto

lemma new_nodes_map_of:
  "new_nodes cfgs vs is = Some ns \<Longrightarrow> map_of ns i = Some n \<Longrightarrow> node_new (cfgs i) vs = Some n"
  by (induction "is" arbitrary: ns) (auto simp: bind_eq_Some_conv split: if_splits)

lemma new_not_leader: "node_new cfg vs = Some n \<Longrightarrow> leaderships i n = {}"
  by (auto simp: node_new_def leaderships_def node_is_leader_def bind_eq_Some_conv)

lemma sim_new_rel:
  assumes "sim_new cfgs vs = Some s" "\<And>i. cfg_id (cfgs i) = i"
  shows "\<exists>S. sim_rel vs s S"
proof -
  obtain ns where ns: "new_nodes cfgs vs vs = Some ns" "s = \<lparr>sim_nodes = ns, sim_net = []\<rparr>"
    using assms(1) by (auto simp: sim_new_def)
  let ?S = "\<lparr>nodes = map_of ns, durable = (\<lambda>_. None), network = {}, votes = {}, leaders = {}\<rparr>"
  have "cluster_init vs ?S"
    using new_nodes_map_of [OF ns(1)] assms(2) by (fastforce simp: cluster_init_def)
  moreover have "leaderships i n = {}" if "map_of ns i = Some n" for i n
    using new_not_leader new_nodes_map_of [OF ns(1) that] by blast
  ultimately show ?thesis
    using ns by (intro exI [of _ ?S]) (simp add: sim_rel_def reachable.init)
qed

text \<open>The result of a run from fresh nodes is the node states of a reachable cluster.\<close>

lemma sim_reachable:
  assumes "Option.bind (sim_new cfgs vs) (\<lambda>s. sim_run s as) = Some s'"
    and "\<And>i. cfg_id (cfgs i) = i"
  shows "\<exists>S. sim_rel vs s' S"
  using assms sim_new_rel sim_run_rel by (fastforce simp: bind_eq_Some_conv)

section \<open>Properties\<close>

text \<open>C1. Election safety: with a fixed membership, at most one node is ever leader of a given
  term, in every execution with message loss, duplication and reordering and with crashes
  and restarts.\<close>

theorem election_safety:
  assumes "reachable vs S" and "(a, t) \<in> leaders S" and "(b, t) \<in> leaders S"
  shows "a = b"
proof -
  have inv: "cluster_inv vs S" using assms(1) by (rule reachable_inv)
  show ?thesis
  proof (rule config_quorum.quorum_unique [where backs = "\<lambda>v x. (v, t, x) \<in> votes S"])
    show "has_quorum (simple vs) (\<lambda>v. (v, t, a) \<in> votes S)"
      "has_quorum (simple vs) (\<lambda>v. (v, t, b) \<in> votes S)"
      using inv assms(2,3) by (auto simp: cluster_inv_def)
  qed (use inv in \<open>auto simp: cluster_inv_def\<close>)
qed

text \<open>C7. One vote per term: over a whole execution, crashes and restarts included, no node
  has ever had votes for two different candidates in one term in its persistent state, and
  every granted vote in the network is one of the recorded votes.\<close>

theorem one_vote_per_term:
  assumes "reachable vs S"
  shows "((v, t, x) \<in> votes S \<and> (v, t, y) \<in> votes S \<longrightarrow> x = y)
    \<and> (m \<in> network S \<and> grants m \<longrightarrow> (m_from m, m_term m, m_to m) \<in> votes S)"
  using reachable_inv [OF assms] by (auto simp: cluster_inv_def)

end
