(* ===== verification/Scenarios.thy ===== *)
theory Scenarios
  imports Cluster
begin

text \<open>
  Concrete executions of a three-node cluster, evaluated on the model. They witness the
  cluster properties, and they show a place where the code does not do what it means to: a
  leader that counts a follower's conflicting entries as replicated, and so commits an
  entry that only it holds.
\<close>

section \<open>Messages and nodes of the executions\<close>

definition fast_config :: "NodeId \<Rightarrow> Config" where
  "fast_config i =
    with_parallel_disk_write (with_heartbeat_interval
      (with_prevote (with_election_timeout (config_new i) 1 2) False) 1) False"

abbreviation n1 :: NodeId where "n1 \<equiv> NodeId 1"
abbreviation n2 :: NodeId where "n2 \<equiv> NodeId 2"
abbreviation n3 :: NodeId where "n3 \<equiv> NodeId 3"

definition three :: "NodeId list" where
  "three = [n1, n2, n3]"

definition ask_vote :: "NodeId \<Rightarrow> NodeId \<Rightarrow> Term \<Rightarrow> LogIndex \<Rightarrow> Term \<Rightarrow> Event" where
  "ask_vote a b t li lt =
    Msg \<lparr>m_from = a, m_to = b, m_term = t,
      m_payload = VoteRequest \<lparr>vq_last_log_index = li, vq_last_log_term = lt\<rparr>\<rparr>"

definition give_vote :: "NodeId \<Rightarrow> NodeId \<Rightarrow> Term \<Rightarrow> Event" where
  "give_vote a b t =
    Msg \<lparr>m_from = a, m_to = b, m_term = t, m_payload = VoteResponse \<lparr>vr_granted = True\<rparr>\<rparr>"

definition append_to ::
    "NodeId \<Rightarrow> NodeId \<Rightarrow> Term \<Rightarrow> LogIndex \<Rightarrow> Term \<Rightarrow> Entry list \<Rightarrow> LogIndex \<Rightarrow> Event" where
  "append_to a b t prev prev_t es commit =
    Msg \<lparr>m_from = a, m_to = b, m_term = t, m_payload = AppendRequest
      \<lparr>prev_log_index = prev, prev_log_term = prev_t, aq_entries = es, leader_commit = commit\<rparr>\<rparr>"

definition append_reply :: "NodeId \<Rightarrow> NodeId \<Rightarrow> Term \<Rightarrow> bool \<Rightarrow> LogIndex \<Rightarrow> Event" where
  "append_reply a b t ok li =
    Msg \<lparr>m_from = a, m_to = b, m_term = t,
      m_payload = AppendResponse \<lparr>ar_success = ok, ar_last_log_index = li\<rparr>\<rparr>"

definition command_entry :: "LogIndex \<Rightarrow> Term \<Rightarrow> u8 \<Rightarrow> Entry" where
  "command_entry i t x =
    \<lparr>e_term = t, e_index = i, e_payload = CommandPayload (Command [x])\<rparr>"

section \<open>An election\<close>

definition election_run :: "Action list" where
  "election_run =
    [EventAt n1 Tick, EventAt n2 (ask_vote n1 n2 1 0 0), EventAt n1 (give_vote n2 n1 1)]"

definition leader_of_run :: "Action list \<Rightarrow> NodeId \<Rightarrow> Term \<Rightarrow> bool" where
  "leader_of_run as i t =
    (case Option.bind (sim_new fast_config three) (\<lambda>s. sim_run s as) of
       None \<Rightarrow> False
     | Some s \<Rightarrow>
         (case map_of (sim_nodes s) i of
            None \<Rightarrow> False | Some n \<Rightarrow> node_is_leader n \<and> node_term n = t))"

section \<open>Two committed entries at one index\<close>

text \<open>Node 1 leads term 1 and appends an entry that no one else gets. Node 2 leads term 2
  with an empty log; its heartbeat is consistent with node 1's log, so node 1 answers with
  success and its own last index 1, which node 2 stores as node 1's match index. The next
  proposal of node 2 is thereby committed at once, at index 1, while no other node holds it.
  Node 1 then wins term 3 with the vote of node 3 and commits its own entry at index 1.\<close>

definition divergence_run :: "Action list" where
  "divergence_run =
    [EventAt n1 Tick, EventAt n2 (ask_vote n1 n2 1 0 0), EventAt n1 (give_vote n2 n1 1),
     ProposeAt n1 (Command [1]),
     EventAt n2 Tick, EventAt n3 (ask_vote n2 n3 2 0 0), EventAt n2 (give_vote n3 n2 2),
     EventAt n1 (append_to n2 n1 2 0 0 [] 0), EventAt n1 (append_to n2 n1 2 0 0 [] 0),
     EventAt n2 (append_reply n1 n2 2 True 1),
     ProposeAt n2 (Command [2]),
     EventAt n1 Tick, EventAt n3 (ask_vote n1 n3 3 1 1), EventAt n1 (give_vote n3 n1 3),
     ProposeAt n1 (Command [3]),
     EventAt n3 (append_to n1 n3 3 1 1 [command_entry 2 3 3] 0),
     EventAt n1 (append_reply n3 n1 3 False 0),
     EventAt n3 (append_to n1 n3 3 0 0 [command_entry 1 1 1, command_entry 2 3 3] 0),
     EventAt n1 (append_reply n3 n1 3 True 2)]"

definition committed_entry :: "RaftNode \<Rightarrow> LogIndex \<Rightarrow> Entry option" where
  "committed_entry n i =
    (if i \<le> commit_index (core n) then log_get (core_log (core n)) i else None)"

definition committed_in_run :: "Action list \<Rightarrow> NodeId \<Rightarrow> LogIndex \<Rightarrow> Entry option" where
  "committed_in_run as i idx =
    Option.bind (Option.bind (sim_new fast_config three) (\<lambda>s. sim_run s as))
      (\<lambda>s. Option.bind (map_of (sim_nodes s) i) (\<lambda>n. committed_entry n idx))"

lemma fast_config_id: "cfg_id (fast_config i) = i"
  by (simp add: fast_config_def config_new_def with_parallel_disk_write_def
      with_heartbeat_interval_def with_prevote_def with_election_timeout_def)

lemma election_run_leader: "leader_of_run election_run n1 1"
  by code_simp

lemma divergence_run_commits:
  "committed_in_run divergence_run n1 1 = Some (command_entry 1 1 1)
    \<and> committed_in_run divergence_run n2 1 = Some (command_entry 1 2 2)"
  by code_simp

lemma leader_of_run_reachable:
  assumes "leader_of_run as i t"
  shows "\<exists>S. reachable three S \<and> (i, t) \<in> leaders S"
proof -
  obtain s n where s: "Option.bind (sim_new fast_config three) (\<lambda>s. sim_run s as) = Some s"
    and n: "map_of (sim_nodes s) i = Some n" "node_is_leader n" "node_term n = t"
    using assms by (auto simp: leader_of_run_def split: option.splits)
  obtain S where "sim_rel three s S" using sim_reachable [OF s fast_config_id] by blast
  then have "reachable three S" "leaderships i n \<subseteq> leaders S"
    using n(1) by (auto simp: sim_rel_def)
  with n(2,3) show ?thesis by (auto simp: leaderships_def)
qed

lemma election_reachable: "\<exists>S. reachable three S \<and> (n1, 1) \<in> leaders S"
  using leader_of_run_reachable [OF election_run_leader] .

section \<open>Witnesses\<close>

theorem election_safety_witness:
  "\<exists>S. reachable three S \<and> {b. (b, 1) \<in> leaders S} = {n1}"
proof -
  obtain S where "reachable three S" "(n1, 1) \<in> leaders S" using election_reachable by blast
  then show ?thesis using election_safety [of three S _ 1 n1] by blast
qed

theorem one_vote_per_term_witness:
  "\<exists>S. reachable three S \<and> (\<exists>v. {x. (v, 1, x) \<in> votes S} = {n1})"
proof -
  obtain S where S: "reachable three S" "(n1, 1) \<in> leaders S" using election_reachable by blast
  then have "has_quorum (simple three) (\<lambda>v. (v, 1, n1) \<in> votes S)"
    using reachable_inv by (auto simp: cluster_inv_def)
  then obtain v where "(v, 1, n1) \<in> votes S"
    using config_quorum.quorum_nonempty by blast
  then have "{x. (v, 1, x) \<in> votes S} = {n1}"
    using one_vote_per_term [OF S(1), of v 1 _ n1] by blast
  with S(1) show ?thesis by blast
qed

section \<open>A divergence of committed entries\<close>

text \<open>C36. The code does not have the State Machine Safety property: there is an execution of
  three nodes without crashes in which two nodes have committed different entries at
  index 1.\<close>

theorem state_machine_safety_fails:
  "\<exists>S a b ea eb. reachable three S \<and> nodes S n1 = Some a \<and> nodes S n2 = Some b
    \<and> committed_entry a 1 = Some ea \<and> committed_entry b 1 = Some eb \<and> ea \<noteq> eb"
proof -
  obtain s where s: "Option.bind (sim_new fast_config three) (\<lambda>s. sim_run s divergence_run) = Some s"
    using divergence_run_commits by (auto simp: committed_in_run_def bind_eq_Some_conv)
  obtain a b where n: "map_of (sim_nodes s) n1 = Some a" "map_of (sim_nodes s) n2 = Some b"
    and "committed_entry a 1 = Some (command_entry 1 1 1)"
    "committed_entry b 1 = Some (command_entry 1 2 2)"
    using divergence_run_commits s by (auto simp: committed_in_run_def bind_eq_Some_conv)
  moreover obtain S where "sim_rel three s S"
    using sim_reachable [OF s fast_config_id] by blast
  moreover have "command_entry 1 1 1 \<noteq> command_entry 1 2 2" by (simp add: command_entry_def)
  ultimately show ?thesis by (auto simp: sim_rel_def)
qed

end
