(* ===== verification/Session.thy ===== *)
theory Session
  imports Collections
begin

text \<open>
  Client sessions for duplicate detection (\<open>basisdb-raft-io/src/session.rs\<close>), the library
  version that an embedding state machine uses around its own commands: register, check a
  request, record its response, expire.
\<close>

datatype ClientId = ClientId (client_num: u64)

type_synonym SequenceNum = u64

instantiation ClientId :: linorder
begin

definition less_eq_ClientId :: "ClientId \<Rightarrow> ClientId \<Rightarrow> bool" where
  "less_eq_ClientId a b \<longleftrightarrow> client_num a \<le> client_num b"

definition less_ClientId :: "ClientId \<Rightarrow> ClientId \<Rightarrow> bool" where
  "less_ClientId a b \<longleftrightarrow> client_num a < client_num b"

instance
  by standard (auto simp: less_eq_ClientId_def less_ClientId_def ClientId.expand)

end

record 'a SessionRequest =
  sreq_client_id :: ClientId
  sreq_sequence :: SequenceNum
  sreq_payload :: 'a

definition session_request_new :: "ClientId \<Rightarrow> SequenceNum \<Rightarrow> 'a \<Rightarrow> 'a SessionRequest" where
  "session_request_new client_id sequence payload =
    \<lparr>sreq_client_id = client_id, sreq_sequence = sequence, sreq_payload = payload\<rparr>"

record 'r ClientSession =
  cs_last_sequence :: SequenceNum
  cs_last_response :: "'r option"

definition client_session_default :: "'r ClientSession" where
  "client_session_default = \<lparr>cs_last_sequence = 0, cs_last_response = None\<rparr>"

datatype 'r DuplicateCheck = New | Duplicate 'r | Stale

record 'r SessionTracker =
  tr_sessions :: "(ClientId, 'r ClientSession) btreemap"
  tr_next_client_id :: u64

definition tracker_new :: "'r SessionTracker" where
  "tracker_new = \<lparr>tr_sessions = bm_empty, tr_next_client_id = 1\<rparr>"

definition register_client :: "'r SessionTracker \<Rightarrow> 'r SessionTracker \<times> ClientId" where
  "register_client t =
    (let i = ClientId (tr_next_client_id t) in
     (t\<lparr>tr_next_client_id := tr_next_client_id t + 1,
        tr_sessions := bm_insert i client_session_default (tr_sessions t)\<rparr>, i))"

definition check_duplicate ::
    "'r SessionTracker \<Rightarrow> ClientId \<Rightarrow> SequenceNum \<Rightarrow> 'r DuplicateCheck" where
  "check_duplicate t client_id sequence =
    (case bm_get (tr_sessions t) client_id of
       None \<Rightarrow> New
     | Some s \<Rightarrow>
         if sequence > cs_last_sequence s then New
         else if sequence = cs_last_sequence s then
           (case cs_last_response s of Some resp \<Rightarrow> Duplicate resp | None \<Rightarrow> New)
         else Stale)"

definition record_completion ::
    "'r SessionTracker \<Rightarrow> ClientId \<Rightarrow> SequenceNum \<Rightarrow> 'r \<Rightarrow> 'r SessionTracker" where
  "record_completion t client_id sequence response =
    (let s = (case bm_get (tr_sessions t) client_id of
                Some s \<Rightarrow> s | None \<Rightarrow> client_session_default);
         s = (if sequence > cs_last_sequence s
              then s\<lparr>cs_last_sequence := sequence, cs_last_response := Some response\<rparr> else s)
     in t\<lparr>tr_sessions := bm_insert client_id s (tr_sessions t)\<rparr>)"

definition expire_session :: "'r SessionTracker \<Rightarrow> ClientId \<Rightarrow> 'r SessionTracker \<times> bool" where
  "expire_session t client_id =
    (t\<lparr>tr_sessions := bm_remove client_id (tr_sessions t)\<rparr>,
     bm_get (tr_sessions t) client_id \<noteq> None)"

definition is_registered :: "'r SessionTracker \<Rightarrow> ClientId \<Rightarrow> bool" where
  "is_registered t client_id \<longleftrightarrow> bm_get (tr_sessions t) client_id \<noteq> None"

definition session_count :: "'r SessionTracker \<Rightarrow> nat" where
  "session_count t = length (bm_keys (tr_sessions t))"

definition last_sequence :: "'r SessionTracker \<Rightarrow> ClientId \<Rightarrow> SequenceNum option" where
  "last_sequence t client_id = map_option cs_last_sequence (bm_get (tr_sessions t) client_id)"

section \<open>Executions\<close>

text \<open>The operations that change a tracker, and the tracker after a sequence of them.\<close>

datatype 'r TrackerOp = Register | Complete ClientId SequenceNum 'r | Expire ClientId

fun tracker_op :: "'r SessionTracker \<Rightarrow> 'r TrackerOp \<Rightarrow> 'r SessionTracker" where
  "tracker_op t Register = fst (register_client t)"
| "tracker_op t (Complete i sq r) = record_completion t i sq r"
| "tracker_op t (Expire i) = fst (expire_session t i)"

definition tracker_run :: "'r SessionTracker \<Rightarrow> 'r TrackerOp list \<Rightarrow> 'r SessionTracker" where
  "tracker_run t ops = foldl tracker_op t ops"

text \<open>A session that has completed a request holds its response.\<close>

definition tracker_inv :: "'r SessionTracker \<Rightarrow> bool" where
  "tracker_inv t \<longleftrightarrow>
    (\<forall>i s. bm_get (tr_sessions t) i = Some s \<longrightarrow>
        cs_last_sequence s = 0 \<or> cs_last_response s \<noteq> None)"

lemma tracker_inv_new: "tracker_inv tracker_new"
  by (simp add: tracker_inv_def tracker_new_def)

lemma tracker_inv_op: "tracker_inv t \<Longrightarrow> tracker_inv (tracker_op t x)"
  by (cases x)
     (auto simp: tracker_inv_def register_client_def record_completion_def expire_session_def
       bm_get_insert bm_get_remove client_session_default_def Let_def split: option.splits)

lemma tracker_inv_run: "tracker_inv t \<Longrightarrow> tracker_inv (tracker_run t ops)"
  by (induction ops arbitrary: t) (simp_all add: tracker_run_def tracker_inv_op)

text \<open>A registered session that is not expired is never reset: its sequence number only grows,
  and later registrations use other ids until the id counter wraps.\<close>

lemma tracker_op_keeps:
  assumes "bm_get (tr_sessions t) i = Some s" "x \<noteq> Expire i"
    and "client_num i < tr_next_client_id t" "tr_next_client_id t \<noteq> u64_max"
  shows "\<exists>s'. bm_get (tr_sessions (tracker_op t x)) i = Some s'
    \<and> cs_last_sequence s \<le> cs_last_sequence s'"
proof (cases x)
  case Register
  then show ?thesis using assms
    by (auto simp: register_client_def Let_def bm_get_insert)
qed (use assms in \<open>auto simp: record_completion_def expire_session_def Let_def bm_get_insert
      bm_get_remove split: option.splits\<close>)

lemma tracker_op_next:
  assumes "tr_next_client_id t \<noteq> u64_max"
  shows "tr_next_client_id t \<le> tr_next_client_id (tracker_op t x)
    \<and> unat (tr_next_client_id (tracker_op t x)) \<le> Suc (unat (tr_next_client_id t))"
  using assms u64_less_Suc [OF assms]
  by (cases x)
     (simp_all add: register_client_def record_completion_def expire_session_def Let_def
       unat_u64_Suc less_imp_le)

lemma tracker_run_keeps:
  assumes "bm_get (tr_sessions t) i = Some s" "\<forall>x \<in> set ops. x \<noteq> Expire i"
    and "client_num i < tr_next_client_id t"
    and "unat (tr_next_client_id t) + length ops < 2 ^ 64"
  shows "\<exists>s'. bm_get (tr_sessions (tracker_run t ops)) i = Some s'
    \<and> cs_last_sequence s \<le> cs_last_sequence s'"
  using assms
proof (induction ops arbitrary: t s)
  case (Cons x ops)
  have nm: "tr_next_client_id t \<noteq> u64_max" using Cons.prems(4) by auto
  obtain s1 where s1: "bm_get (tr_sessions (tracker_op t x)) i = Some s1"
    "cs_last_sequence s \<le> cs_last_sequence s1"
    using tracker_op_keeps [OF Cons.prems(1) _ Cons.prems(3) nm] Cons.prems(2) by auto
  have "client_num i < tr_next_client_id (tracker_op t x)"
    "unat (tr_next_client_id (tracker_op t x)) + length ops < 2 ^ 64"
    using tracker_op_next [OF nm, of x] Cons.prems(3,4) by auto
  from Cons.IH [OF s1(1) _ this] s1(2) Cons.prems(2) show ?case
    by (auto simp: tracker_run_def intro: order_trans)
qed (simp add: tracker_run_def)

section \<open>Properties\<close>

text \<open>C35. A completed request is never executed again: after \<open>record_completion\<close> for a
  registered client, whatever is registered, completed or expired afterwards (short of expiring
  this client, and of wrapping the id counter), \<open>check_duplicate\<close> answers with the cached
  response or with \<open>Stale\<close>, never with \<open>New\<close>.\<close>

theorem completed_request_not_new:
  assumes "tracker_inv t" and "is_registered t i" and "client_num i < tr_next_client_id t"
    and "sq \<noteq> 0" and "\<forall>x \<in> set ops. x \<noteq> Expire i"
    and "unat (tr_next_client_id t) + length ops < 2 ^ 64"
  shows "check_duplicate (tracker_run (record_completion t i sq r) ops) i sq \<noteq> New"
proof -
  let ?t = "record_completion t i sq r"
  have "\<exists>s. bm_get (tr_sessions ?t) i = Some s \<and> sq \<le> cs_last_sequence s"
    by (simp add: record_completion_def bm_get_insert Let_def not_less)
  then obtain s where s: "bm_get (tr_sessions ?t) i = Some s" "sq \<le> cs_last_sequence s"
    by blast
  have nxt: "tr_next_client_id ?t = tr_next_client_id t"
    by (simp add: record_completion_def Let_def)
  obtain s' where s': "bm_get (tr_sessions (tracker_run ?t ops)) i = Some s'"
    "cs_last_sequence s \<le> cs_last_sequence s'"
    using tracker_run_keeps [OF s(1) assms(5)] assms(3,6) nxt by auto
  have "tracker_inv (tracker_run ?t ops)"
    using tracker_inv_run [OF tracker_inv_op [OF assms(1), of "Complete i sq r"], of ops] by simp
  moreover have "sq \<le> cs_last_sequence s'" using s(2) s'(2) by (rule order_trans)
  moreover have "cs_last_sequence s' = 0 \<or> cs_last_response s' \<noteq> None"
    using calculation(1) s'(1) unfolding tracker_inv_def by blast
  ultimately show ?thesis using s'(1) assms(4)
    by (auto simp: check_duplicate_def split: option.splits)
qed

theorem completed_request_not_new_witness:
  "check_duplicate (tracker_run (record_completion (fst (register_client tracker_new)) (ClientId 1) 3 ())
      [Register, Complete (ClientId 1) 7 ()]) (ClientId 1) 3 \<noteq> New"
proof -
  let ?t = "fst (register_client tracker_new) :: unit SessionTracker"
  have "tracker_inv ?t" using tracker_inv_op [OF tracker_inv_new, of Register] by simp
  moreover have "is_registered ?t (ClientId 1)" "tr_next_client_id ?t = 2"
    by (simp_all add: is_registered_def register_client_def tracker_new_def bm_get_insert Let_def)
  ultimately show ?thesis
    using completed_request_not_new [of ?t "ClientId 1" 3 "[Register, Complete (ClientId 1) 7 ()]" "()"]
    by simp
qed

text \<open>The answers of \<open>check_duplicate\<close> right after a new request was recorded: its own
  number is a duplicate with the recorded response, smaller numbers are stale, larger ones are
  new, and no other client is affected.\<close>

theorem record_completion_spec:
  assumes "check_duplicate t i sq = New" and "sq \<noteq> 0" and "tracker_inv t"
  shows "check_duplicate (record_completion t i sq r) i sq' =
      (if sq' < sq then Stale else if sq' = sq then Duplicate r else New)
    \<and> (j \<noteq> i \<longrightarrow> check_duplicate (record_completion t i sq r) j sq' = check_duplicate t j sq')"
proof -
  let ?s = "case bm_get (tr_sessions t) i of Some s \<Rightarrow> s | None \<Rightarrow> client_session_default"
  have "cs_last_sequence ?s < sq"
    using assms
    by (fastforce simp: check_duplicate_def client_session_default_def tracker_inv_def word_gt_0
        split: option.splits if_splits)
  then show ?thesis
    by (auto simp: record_completion_def check_duplicate_def Let_def bm_get_insert)
qed

theorem record_completion_spec_witness:
  "check_duplicate (record_completion tracker_new (ClientId 5) 2 True) (ClientId 5) 2 = Duplicate True"
proof -
  have "check_duplicate (tracker_new :: bool SessionTracker) (ClientId 5) 2 = New"
    by (simp add: check_duplicate_def tracker_new_def)
  from record_completion_spec [OF this _ tracker_inv_new, of True 2] show ?thesis by simp
qed

end
