(* ===== verification/ReadIndex.thy ===== *)
theory ReadIndex
  imports Membership
begin

text \<open>
  The read-index coordinator of \<open>basisdb-raft-io/src/read_index.rs\<close>: reads wait for a round of
  heartbeats and complete when a majority of the voters has acknowledged it. An acknowledgement
  carries no round number; \<open>record_ack\<close> counts it for the round that is current when it
  arrives.
\<close>

datatype ReadId = ReadId (read_num: u64)

instantiation ReadId :: linorder
begin

definition less_eq_ReadId :: "ReadId \<Rightarrow> ReadId \<Rightarrow> bool" where
  "less_eq_ReadId a b \<longleftrightarrow> read_num a \<le> read_num b"

definition less_ReadId :: "ReadId \<Rightarrow> ReadId \<Rightarrow> bool" where
  "less_ReadId a b \<longleftrightarrow> read_num a < read_num b"

instance
  by standard (auto simp: less_eq_ReadId_def less_ReadId_def ReadId.expand)

end

text \<open>\<open>ReadId::next\<close>: the current id, and the counter after it.\<close>

definition read_id_next :: "ReadId \<Rightarrow> ReadId \<times> ReadId" where
  "read_id_next i = (ReadId (read_num i + 1), i)"

record PendingRead =
  pd_read_index :: LogIndex
  pd_round :: u64

record ReadIndexResult =
  rr_id :: ReadId
  rr_read_index :: LogIndex

datatype CoordinatorError = CoNotLeader | CoLeaderNotReady

record ReadIndexCoordinator =
  co_voters :: "NodeId list"
  co_me :: NodeId
  co_next_read_id :: ReadId
  co_current_round :: u64
  co_round_acks :: "NodeId list"
  co_pending :: "(ReadId, PendingRead) btreemap"
  co_completed :: "ReadIndexResult list"

definition coordinator_new :: "NodeId \<Rightarrow> NodeId list \<Rightarrow> ReadIndexCoordinator" where
  "coordinator_new me vs =
    \<lparr>co_voters = vs, co_me = me, co_next_read_id = ReadId 0, co_current_round = 0,
     co_round_acks = [], co_pending = bm_empty, co_completed = []\<rparr>"

definition request_read ::
    "ReadIndexCoordinator \<Rightarrow> LogIndex \<Rightarrow> ReadIndexCoordinator \<times> ReadId" where
  "request_read c read_index =
    (let (nxt, i) = read_id_next (co_next_read_id c) in
     (c\<lparr>co_next_read_id := nxt,
        co_pending := bm_insert i \<lparr>pd_read_index = read_index, pd_round = co_current_round c\<rparr>
          (co_pending c)\<rparr>, i))"

fun complete_reads :: "(ReadId \<times> LogIndex) list \<Rightarrow> ReadIndexCoordinator \<Rightarrow> ReadIndexCoordinator" where
  "complete_reads [] c = c"
| "complete_reads ((i, read_index) # rest) c =
    complete_reads rest (c\<lparr>co_pending := bm_remove i (co_pending c),
      co_completed := co_completed c @ [\<lparr>rr_id = i, rr_read_index = read_index\<rparr>]\<rparr>)"

definition check_quorum :: "ReadIndexCoordinator \<Rightarrow> ReadIndexCoordinator" where
  "check_quorum c =
    (let quorum = length (co_voters c) div 2 + 1 in
     if length (co_round_acks c) \<ge> quorum then
       let current = co_current_round c;
           to_complete = map (\<lambda>(i, p). (i, pd_read_index p))
             (filter (\<lambda>(_, p). pd_round p \<le> current) (entries_of (co_pending c)))
       in complete_reads to_complete c
     else c)"

definition set_rounds ::
    "u64 \<Rightarrow> (ReadId, PendingRead) btreemap \<Rightarrow> (ReadId, PendingRead) btreemap" where
  "set_rounds r m = fold (\<lambda>(i, p). bm_insert i (p\<lparr>pd_round := r\<rparr>)) (entries_of m) m"

definition begin_heartbeat_round :: "ReadIndexCoordinator \<Rightarrow> ReadIndexCoordinator" where
  "begin_heartbeat_round c =
    (let c = c\<lparr>co_current_round := co_current_round c + 1, co_round_acks := [co_me c]\<rparr>;
         c = c\<lparr>co_pending := set_rounds (co_current_round c) (co_pending c)\<rparr>
     in check_quorum c)"

definition record_ack :: "ReadIndexCoordinator \<Rightarrow> NodeId \<Rightarrow> ReadIndexCoordinator" where
  "record_ack c from =
    (if from \<notin> set (co_round_acks c) \<and> from \<in> set (co_voters c)
     then check_quorum (c\<lparr>co_round_acks := co_round_acks c @ [from]\<rparr>)
     else c)"

definition poll_completed :: "ReadIndexCoordinator \<Rightarrow> ReadIndexCoordinator \<times> ReadIndexResult list" where
  "poll_completed c = (c\<lparr>co_completed := []\<rparr>, co_completed c)"

definition pending_count :: "ReadIndexCoordinator \<Rightarrow> nat" where
  "pending_count c = length (bm_keys (co_pending c))"

definition has_pending :: "ReadIndexCoordinator \<Rightarrow> bool" where
  "has_pending c \<longleftrightarrow> bm_keys (co_pending c) \<noteq> []"

definition coordinator_clear :: "ReadIndexCoordinator \<Rightarrow> ReadIndexCoordinator \<times> nat" where
  "coordinator_clear c =
    (c\<lparr>co_pending := bm_empty, co_round_acks := []\<rparr>, pending_count c)"

section \<open>Invariants\<close>

text \<open>Acknowledgements are distinct nodes, each a voter or the node itself, and no pending read
  waits for a round that has not begun.\<close>

definition coordinator_inv :: "ReadIndexCoordinator \<Rightarrow> bool" where
  "coordinator_inv c \<longleftrightarrow>
    distinct (co_round_acks c) \<and> set (co_round_acks c) \<subseteq> insert (co_me c) (set (co_voters c))
    \<and> (\<forall>i p. bm_get (co_pending c) i = Some p \<longrightarrow> pd_round p \<le> co_current_round c)"

lemma complete_reads_frame:
  "co_voters (complete_reads xs c) = co_voters c \<and> co_me (complete_reads xs c) = co_me c
    \<and> co_round_acks (complete_reads xs c) = co_round_acks c
    \<and> co_current_round (complete_reads xs c) = co_current_round c
    \<and> co_next_read_id (complete_reads xs c) = co_next_read_id c"
  by (induction xs c rule: complete_reads.induct) simp_all

lemma complete_reads_completed:
  "co_completed (complete_reads xs c) =
    co_completed c @ map (\<lambda>(i, r). \<lparr>rr_id = i, rr_read_index = r\<rparr>) xs"
  by (induction xs c rule: complete_reads.induct) simp_all

lemma complete_reads_pending:
  "bm_get (co_pending (complete_reads xs c)) i =
    (if i \<in> fst ` set xs then None else bm_get (co_pending c) i)"
  by (induction xs c rule: complete_reads.induct) (simp_all add: bm_get_remove)

lemma set_rounds_get: "bm_get (set_rounds r m) i = map_option (pd_round_update (\<lambda>_. r)) (bm_get m i)"
proof -
  have "bm_get (fold (\<lambda>(i, p). bm_insert i (p\<lparr>pd_round := r\<rparr>)) xs acc) i =
      (case map_of (rev xs) i of Some p \<Rightarrow> Some (p\<lparr>pd_round := r\<rparr>) | None \<Rightarrow> bm_get acc i)"
    for xs :: "(ReadId \<times> PendingRead) list" and acc
    by (induction xs arbitrary: acc)
       (auto simp: bm_get_insert map_add_def split: option.splits)
  moreover have "map_of (rev (entries_of m)) i = bm_get m i"
    using bm_keys_distinct [of m] map_of_inject_set [of "rev (entries_of m)" "entries_of m"]
    by (simp add: bm_get_def bm_keys_def rev_map [symmetric])
  ultimately show ?thesis
    by (auto simp: set_rounds_def split: option.splits)
qed

text \<open>\<open>check_quorum\<close> completes every pending read, in id order, once the acknowledgements make a
  majority, and does nothing before.\<close>

lemma check_quorum_eq:
  assumes "coordinator_inv c"
  shows "check_quorum c =
    (if length (co_voters c) div 2 < length (co_round_acks c)
     then c\<lparr>co_pending := bm_empty, co_completed := co_completed c @
         map (\<lambda>(i, p). \<lparr>rr_id = i, rr_read_index = pd_read_index p\<rparr>) (entries_of (co_pending c))\<rparr>
     else c)"
proof (cases "length (co_voters c) div 2 < length (co_round_acks c)")
  case True
  let ?xs = "map (\<lambda>(i, p). (i, pd_read_index p)) (entries_of (co_pending c))"
  have "filter (\<lambda>(_, p). pd_round p \<le> co_current_round c) (entries_of (co_pending c)) =
      entries_of (co_pending c)"
    using assms by (auto simp: coordinator_inv_def in_entries_iff intro!: filter_True)
  then have eq: "check_quorum c = complete_reads ?xs c"
    using True by (simp add: check_quorum_def Let_def Suc_le_eq)
  have "fst ` set ?xs = set (bm_keys (co_pending c))"
    by (auto simp: bm_keys_def image_image case_prod_unfold)
  then have "co_pending (complete_reads ?xs c) = bm_empty"
    by (intro bm.map_extensional) (simp add: complete_reads_pending bm_keys_iff)
  then show ?thesis
    using True complete_reads_frame [of ?xs c] complete_reads_completed [of ?xs c]
    unfolding eq by (simp add: case_prod_unfold o_def)
next
  case False
  then show ?thesis by (simp add: check_quorum_def Let_def)
qed

lemma coordinator_inv_check: "coordinator_inv c \<Longrightarrow> coordinator_inv (check_quorum c)"
  by (simp add: check_quorum_eq) (simp add: coordinator_inv_def)

lemma coordinator_inv_ops:
  assumes "coordinator_inv c"
  shows "coordinator_inv (fst (request_read c r))" "coordinator_inv (record_ack c n)"
    "coordinator_inv (fst (poll_completed c))" "coordinator_inv (fst (coordinator_clear c))"
    "coordinator_inv (begin_heartbeat_round c)"
proof -
  show "coordinator_inv (fst (request_read c r))"
    using assms by (auto simp: coordinator_inv_def request_read_def read_id_next_def bm_get_insert)
  show "coordinator_inv (record_ack c n)"
    using assms coordinator_inv_check [of "c\<lparr>co_round_acks := co_round_acks c @ [n]\<rparr>"]
    by (simp add: record_ack_def coordinator_inv_def)
  show "coordinator_inv (fst (poll_completed c))" "coordinator_inv (fst (coordinator_clear c))"
    using assms by (simp_all add: coordinator_inv_def poll_completed_def coordinator_clear_def)
  let ?c = "c\<lparr>co_current_round := co_current_round c + 1, co_round_acks := [co_me c],
    co_pending := set_rounds (co_current_round c + 1) (co_pending c)\<rparr>"
  have "coordinator_inv ?c" by (auto simp: coordinator_inv_def set_rounds_get)
  then show "coordinator_inv (begin_heartbeat_round c)"
    using coordinator_inv_check [of ?c] by (simp add: begin_heartbeat_round_def)
qed

section \<open>Properties\<close>

text \<open>Reads complete exactly when an acknowledgement makes a majority: a new voter's
  acknowledgement that brings the distinct acknowledging nodes of the round above half the
  voters completes every pending read, each with its own read index and in the order of the
  requests; without a majority, or for a repeated or foreign acknowledgement, nothing
  completes.\<close>

theorem record_ack_spec:
  assumes "coordinator_inv c"
  shows "co_completed (record_ack c n) =
      (if n \<in> set (co_voters c) - set (co_round_acks c)
          \<and> length (co_voters c) div 2 < Suc (length (co_round_acks c))
       then co_completed c @ map (\<lambda>(i, p). \<lparr>rr_id = i, rr_read_index = pd_read_index p\<rparr>)
              (entries_of (co_pending c))
       else co_completed c)
    \<and> coordinator_inv (record_ack c n)"
proof -
  have "coordinator_inv (c\<lparr>co_round_acks := co_round_acks c @ [n]\<rparr>)"
    if "n \<in> set (co_voters c)" "n \<notin> set (co_round_acks c)"
    using assms that by (simp add: coordinator_inv_def)
  then show ?thesis
    using coordinator_inv_ops(2) [OF assms]
    by (auto simp: record_ack_def check_quorum_eq)
qed

definition three_voters :: "NodeId list" where
  "three_voters = [NodeId 0, NodeId 1, NodeId 2]"

lemma coordinator_inv_new: "coordinator_inv (coordinator_new me vs)"
  by (simp add: coordinator_inv_def coordinator_new_def)

theorem record_ack_spec_witness:
  "co_completed (record_ack (begin_heartbeat_round (fst (request_read
      (coordinator_new (NodeId 0) three_voters) 42))) (NodeId 9)) = []"
proof -
  let ?c = "begin_heartbeat_round (fst (request_read (coordinator_new (NodeId 0) three_voters) 42))"
  have inv: "coordinator_inv ?c" by (intro coordinator_inv_ops coordinator_inv_new)
  have "co_completed ?c = []" "co_voters ?c = three_voters"
    by (simp_all add: begin_heartbeat_round_def check_quorum_def request_read_def
        read_id_next_def coordinator_new_def three_voters_def Let_def)
  with record_ack_spec [OF inv, of "NodeId 9"] show ?thesis by (simp add: three_voters_def)
qed


end
