(* ===== verification/LeaderSpec.thy ===== *)
theory LeaderSpec
  imports Leader
begin

text \<open>
  What the leader's commit loop does (\<open>maybe_commit\<close> in \<open>basisdb-raft/src/raft/leader.rs\<close>): on a
  well-formed log with room for the entries that joint consensus appends it returns, and the
  commit index moves by the commit rule of Raft.
\<close>

section \<open>Sending does not panic\<close>

lemma send_append_to_total:
  assumes "wf_log (core_log c)"
  shows "\<exists>r. send_append_to ldr c to = Some r"
  using log_slice_filter [OF assms] by (simp add: send_append_to_def Let_def)

lemma send_append_all_total:
  assumes "wf_log (core_log c)"
  shows "\<exists>r. send_append_all ldr c ps eff = Some r"
proof (induction ps arbitrary: ldr eff)
  case (Cons p ps)
  obtain l e where "send_append_to ldr c p = Some (l, e)" using send_append_to_total [OF assms] by (metis surj_pair)
  with Cons show ?case by simp
qed simp

lemma broadcast_append_total: "wf_log (core_log c) \<Longrightarrow> \<exists>r. broadcast_append ldr c = Some r"
  unfolding broadcast_append_def by (rule send_append_all_total)

section \<open>The largest index that can be committed\<close>

lemma find_rev_greatest:
  "sorted xs \<Longrightarrow> find P (rev xs) = Some x \<Longrightarrow> \<forall>y \<in> set xs. P y \<longrightarrow> y \<le> x"
  by (induction xs rule: rev_induct) (auto simp: sorted_append split: if_splits dest: find_SomeD)

lemma sorted_range_incl: "sorted (range_incl a b)"
proof -
  have "of_nat i \<le> (of_nat j :: u64)" if "i \<le> j" "j \<le> unat b" for i j
  proof -
    have "i < 2 ^ 64" "j < 2 ^ 64" using that unat_u64_lt [of b] by linarith+
    with that(1) show ?thesis by (simp add: word_le_nat_alt unat_u64_of_nat)
  qed
  then show ?thesis
    unfolding range_incl_def by (auto simp: sorted_wrt_map intro!: sorted_wrt_mono_rel [OF _ sorted_upt] simp del: upt_Suc)
qed

text \<open>The commit rule: an entry of the leader's own term, after the commit index, that a quorum
  is known to store.\<close>

definition committable :: "Leader \<Rightarrow> Core \<Rightarrow> LogIndex \<Rightarrow> bool" where
  "committable ldr c i \<longleftrightarrow> commit_index c < i \<and> i \<le> last_index (core_log c)
    \<and> term_at (core_log c) i = core_term c
    \<and> has_quorum (effective_config c) (\<lambda>v. i \<le> match_of ldr v)"

lemma advance_commit_index_spec:
  assumes "commit_index c \<noteq> u64_max"
  shows "if \<exists>i. committable ldr c i
    then committable ldr c (commit_index (advance_commit_index ldr c))
      \<and> (\<forall>i. committable ldr c i \<longrightarrow> i \<le> commit_index (advance_commit_index ldr c))
    else advance_commit_index ldr c = c"
proof -
  let ?P = "\<lambda>i. term_at (core_log c) i = core_term c \<and> has_quorum (effective_config c) (\<lambda>v. match_of ldr v \<ge> i)"
  let ?xs = "range_incl (commit_index c + 1) (last_index (core_log c))"
  have iff: "committable ldr c i \<longleftrightarrow> i \<in> set ?xs \<and> ?P i" for i
    using u64_Suc_le_iff [of "commit_index c" i] assms by (auto simp: committable_def)
  show ?thesis
  proof (cases "find ?P (rev ?xs)")
    case None
    then have "\<nexists>i. committable ldr c i" by (auto simp: find_None_iff iff)
    with None show ?thesis by (simp add: advance_commit_index_def)
  next
    case (Some i)
    then have "committable ldr c i" using find_SomeD [OF Some] by (simp add: iff)
    moreover have "\<forall>j. committable ldr c j \<longrightarrow> j \<le> i"
      using find_rev_greatest [OF sorted_range_incl Some] by (auto simp: iff)
    ultimately show ?thesis using Some by (auto simp: advance_commit_index_def)
  qed
qed

section \<open>The loop returns\<close>

text \<open>Entries above the commit index whose commitment ends a joint configuration.\<close>

definition opens_transition :: "Entry \<Rightarrow> bool" where
  "opens_transition e = (case e_payload e of ConfigPayload cfg \<Rightarrow> is_joint cfg | _ \<Rightarrow> False)"

definition joint_above :: "Core \<Rightarrow> nat" where
  "joint_above c = length (filter (\<lambda>e. commit_index c < e_index e \<and> opens_transition e) (log_entries (core_log c)))"

lemma process_configs_total:
  assumes "wf_log (core_log c)" "last_index (core_log c) \<noteq> u64_max"
  shows "\<exists>r. process_configs ldr c idxs = Some r"
proof (induction idxs)
  case (Cons i idxs)
  have "\<exists>r. append_transition_target ldr c target = Some r" for target
  proof -
    let ?c = "set_log c (log_append (core_log c) \<lparr>e_term = core_term c, e_index = last_index (core_log c) + 1,
      e_payload = ConfigPayload target\<rparr>)"
    have "wf_log (core_log ?c)" using assms by (simp add: wf_log_append)
    from broadcast_append_total [OF this, of "reinit_progress ldr ?c"] show ?thesis
      by (auto simp: append_transition_target_def Let_def)
  qed
  then have "\<exists>r. do { (ldr, core, eff) \<leftarrow> append_transition_target ldr c target; Some (ldr, core, Continue eff) } = Some r"
    for target
  proof -
    obtain l c1 e where "append_transition_target ldr c target = Some (l, c1, e)"
      using \<open>\<And>target. \<exists>r. append_transition_target ldr c target = Some r\<close> by (metis prod_cases3)
    then show ?thesis by simp
  qed
  with Cons show ?case by (auto split: option.split EntryPayload.split)
qed simp

lemma process_configs_continue:
  assumes "process_configs ldr c idxs = Some (ldr', c', Continue e)"
  shows "\<exists>i \<in> set idxs. \<exists>x. log_get (core_log c) i = Some x \<and> opens_transition x"
  using assms
proof (induction idxs)
  case (Cons i idxs)
  show ?case
  proof (cases "log_get (core_log c) i")
    case None
    with Cons show ?thesis by simp
  next
    case (Some x)
    show ?thesis
    proof (cases "opens_transition x")
      case False
      with Some Cons show ?thesis
        by (auto simp: opens_transition_def split: EntryPayload.splits if_splits option.splits
            elim: transition_target.elims)
    qed (use Some in auto)
  qed
qed simp

lemma filter_less:
  assumes "\<And>y. Q y \<Longrightarrow> P y" "x \<in> set xs" "P x" "\<not> Q x"
  shows "length (filter Q xs) < length (filter P xs)"
proof -
  have "filter Q xs = filter Q (filter P xs)" using assms(1) by (induction xs) auto
  moreover have "length (filter Q (filter P xs)) < length (filter P xs)"
    using assms(2-4) by (intro length_filter_less [of x]) auto
  ultimately show ?thesis by simp
qed

lemma joint_above_less:
  assumes wf: "wf_log (core_log c)" and get: "log_get (core_log c) i = Some x" "opens_transition x"
    and i: "commit_index c < i" "i \<le> commit_index c'"
    and log: "core_log c' = log_append (core_log c) e" "\<not> opens_transition e"
  shows "joint_above c' < joint_above c"
proof -
  have x: "x \<in> set (log_entries (core_log c))" "e_index x = i"
    using wf get(1) log_get_index log_get_mem by blast+
  have "joint_above c' = length (filter (\<lambda>e. commit_index c' < e_index e \<and> opens_transition e) (log_entries (core_log c)))"
    using log by (simp add: joint_above_def)
  also have "\<dots> < joint_above c"
    unfolding joint_above_def by (rule filter_less [OF _ x(1)]) (use x(2) i get(2) in auto)
  finally show ?thesis .
qed

lemma term_at_extends:
  assumes "wf_log l" "log_extends l l'" "i \<le> last_index l"
  shows "term_at l' i = term_at l i"
proof -
  obtain es where l': "l' = l\<lparr>log_entries := log_entries l @ es\<rparr>" using assms(2) by (auto simp: log_extends_def)
  have "unat i \<le> unat (snapshot_index l) + length (log_entries l)"
    using assms(3) unat_last_index [OF assms(1)] by (simp add: word_le_nat_alt)
  then have "log_get l' i = log_get l i" by (auto simp: log_get_eq l' nth_append)
  then have "log_get l' i = log_get l i" "snapshot_index l' = snapshot_index l" "snapshot_term l' = snapshot_term l"
    by (simp_all add: l')
  then show ?thesis by (simp only: term_at_eq)
qed

text \<open>What one run of the loop leaves: the commit index has not moved, or it has moved to an entry
  of the current term.\<close>

definition commit_moved :: "Core \<Rightarrow> Core \<Rightarrow> bool" where
  "commit_moved c c' \<longleftrightarrow> commit_index c \<le> commit_index c' \<and> commit_index c' \<le> last_index (core_log c')
    \<and> (commit_index c' \<noteq> commit_index c \<longrightarrow> term_at (core_log c') (commit_index c') = core_term c)"

text \<open>The premises of the loop.\<close>

definition commit_ready :: "Core \<Rightarrow> bool" where
  "commit_ready c \<longleftrightarrow> wf_log (core_log c) \<and> commit_index c \<le> last_index (core_log c)
    \<and> unat (last_index (core_log c)) + joint_above c < 2 ^ 64 - 1"

lemma commit_readyD:
  assumes "commit_ready c"
  shows "wf_log (core_log c)" "commit_index c \<le> last_index (core_log c)"
    "last_index (core_log c) \<noteq> u64_max" "commit_index c \<noteq> u64_max"
proof -
  have u: "unat (last_index (core_log c)) < 2 ^ 64 - 1" and le: "commit_index c \<le> last_index (core_log c)"
    using assms by (simp_all add: commit_ready_def)
  show "last_index (core_log c) \<noteq> u64_max" using u by (auto simp: unat_u64_max)
  show "commit_index c \<noteq> u64_max" using u le by (auto simp: word_le_nat_alt unat_u64_max)
qed (use assms in \<open>simp_all add: commit_ready_def\<close>)

text \<open>One round of the loop that appends the end of a joint configuration.\<close>

lemma continue_round:
  assumes ready: "commit_ready c" and adv: "commit_index (advance_commit_index ldr c) \<noteq> commit_index c"
    and p: "process_committed_configs ldr (advance_commit_index ldr c) (commit_index c) = Some (ldr', c', Continue e)"
  shows "commit_ready c' \<and> joint_above c' < joint_above c \<and> commit_moved c c' \<and> commit_index c' \<noteq> commit_index c
    \<and> core_term c' = core_term c"
proof -
  let ?c1 = "advance_commit_index ldr c"
  note r = commit_readyD [OF ready]
  have same: "core_log ?c1 = core_log c" "core_term ?c1 = core_term c"
    using advance_commit_index_frame [where c = c and ldr = ldr] by (simp_all add: core_accessors)
  have cm: "committable ldr c (commit_index ?c1)"
    using advance_commit_index_spec [OF r(4), of ldr] adv by (metis (no_types, lifting))
  have post: "leader_frame ?c1 c'" "commit_index c' = commit_index ?c1" "commit_result_ok ?c1 c' (Continue e)"
    using process_configs_post p by (auto simp: process_committed_configs_def)
  then obtain tgt where log: "core_log c' = log_append (core_log c) \<lparr>e_term = core_term c,
      e_index = last_index (core_log c) + 1, e_payload = ConfigPayload tgt\<rparr>" "\<not> is_joint tgt"
    by (auto simp: commit_result_ok_def same)
  obtain i x where i: "commit_index c < i" "i \<le> commit_index ?c1" "log_get (core_log c) i = Some x" "opens_transition x"
    using process_configs_continue [OF p [unfolded process_committed_configs_def]] u64_Suc_le_iff [of "commit_index c"] r(4)
    by (auto simp: same)
  have less: "joint_above c' < joint_above c"
    using joint_above_less [OF r(1) i(3,4,1) _ log(1)] i(2) post(2) log(2) by (simp add: opens_transition_def)
  have up: "unat (last_index (core_log c) + 1) = unat (last_index (core_log c)) + 1"
    using r(3) by (simp add: unat_u64_Suc)
  have le: "commit_index ?c1 \<le> last_index (core_log c)" using cm by (simp add: committable_def)
  have "commit_ready c'"
    using ready less up le post(2) wf_log_append [OF r(1) _ r(3)]
    by (simp add: commit_ready_def log(1) word_le_nat_alt)
  moreover have "term_at (core_log c') (commit_index c') = core_term c"
    using term_at_extends [OF r(1) _ le, of "core_log c'"] cm by (simp add: log(1) post(2) committable_def)
  ultimately show ?thesis
    using less cm post(1,2) same(2) commit_readyD(2) [OF \<open>commit_ready c'\<close>]
    by (auto simp: commit_moved_def committable_def leader_frame_def)
qed

lemma commit_loop_returns:
  "commit_ready c \<Longrightarrow> \<exists>ldr' c' eff' down. commit_loop ldr c eff = Some (ldr', c', eff', down) \<and> commit_moved c c'"
proof (induction "joint_above c" arbitrary: c ldr eff rule: less_induct)
  case less
  let ?c1 = "advance_commit_index ldr c"
  note r = commit_readyD [OF less.prems]
  have same: "core_log ?c1 = core_log c" using advance_commit_index_frame [where c = c and ldr = ldr] by (simp add: core_accessors)
  show ?case
  proof (cases "commit_index ?c1 = commit_index c")
    case True
    then show ?thesis using r(2) same by (subst commit_loop.simps) (auto simp: Let_def commit_moved_def)
  next
    case False
    have cm: "committable ldr c (commit_index ?c1)"
      using advance_commit_index_spec [OF r(4), of ldr] False by (metis (no_types, lifting))
    then have moved: "commit_moved c ?c1" by (auto simp: commit_moved_def committable_def same)
    obtain l2 c2 res where p: "process_committed_configs ldr ?c1 (commit_index c) = Some (l2, c2, res)"
      using process_configs_total [of ?c1 ldr] r(1,3) same unfolding process_committed_configs_def by (metis prod_cases3)
    note unfold = commit_loop.simps [of ldr c eff]
    show ?thesis
    proof (cases res)
      case (Continue e)
      from continue_round [OF less.prems False p [unfolded Continue]]
      have c2: "commit_ready c2" "joint_above c2 < joint_above c" "commit_moved c c2" "commit_index c2 \<noteq> commit_index c"
        "core_term c2 = core_term c" by blast+
      from less.hyps [OF c2(2,1)] obtain l3 c3 eff3 down
        where l3: "commit_loop l2 c2 (merge_effects eff e) = Some (l3, c3, eff3, down)" "commit_moved c2 c3" by blast
      have "log_extends (core_log c2) (core_log c3)"
        using commit_loop_post [OF l3(1)] by (simp add: loop_post_def leader_frame_def)
      from term_at_extends [OF commit_readyD(1) [OF c2(1)] this commit_readyD(2) [OF c2(1)]]
      have "commit_moved c c3" using c2(3-5) l3(2) by (auto simp: commit_moved_def)
      with unfold False p Continue l3(1) show ?thesis by (simp add: Let_def)
    next
      case (StepDown e)
      with p process_configs_post [of ldr ?c1 _ l2 c2 res] have "c2 = ?c1"
        by (simp add: process_committed_configs_def commit_result_ok_def)
      with unfold False p StepDown moved show ?thesis by (auto simp: Let_def)
    next
      case Done
      with p process_configs_post [of ldr ?c1 _ l2 c2 res] have "c2 = ?c1"
        by (simp add: process_committed_configs_def commit_result_ok_def)
      with unfold False p Done moved show ?thesis by (auto simp: Let_def)
    qed
  qed
qed

lemma commit_loop_no_joint:
  assumes "commit_ready c" "joint_above c = 0" "commit_loop ldr c eff = Some (ldr', c', eff', down)"
  shows "c' = advance_commit_index ldr c"
proof (cases "commit_index (advance_commit_index ldr c) = commit_index c")
  case True
  with assms(3) show ?thesis by (auto simp: commit_loop.simps [of ldr c] Let_def)
next
  case False
  let ?c1 = "advance_commit_index ldr c"
  obtain l2 c2 res where p: "process_committed_configs ldr ?c1 (commit_index c) = Some (l2, c2, res)"
    using assms(3) False by (auto simp: commit_loop.simps [of ldr c] Let_def bind_eq_Some_conv)
  have "\<nexists>e. res = Continue e" using continue_round [OF assms(1) False] p assms(2) by auto
  moreover have "commit_result_ok ?c1 c2 res"
    using process_configs_post p by (auto simp: process_committed_configs_def)
  ultimately show ?thesis
    using assms(3) False p
    by (cases res) (auto simp: commit_loop.simps [of ldr c] Let_def commit_result_ok_def)
qed

section \<open>Property\<close>

text \<open>C9. The leader's commit loop returns, on any well-formed log with room for the entries it
  appends to end joint configurations, and it commits by Raft's rule: the commit index never
  moves back nor past the log, it moves only to an entry of the current term, and while no joint
  configuration is waiting to be committed it moves to the largest such index that a quorum is
  known to store, or stays if there is none.\<close>

theorem maybe_commit_spec:
  assumes "wf_log (core_log c)" and "commit_index c \<le> last_index (core_log c)"
    and "unat (last_index (core_log c)) + joint_above c < 2 ^ 64 - 1"
  shows "\<exists>ldr' c' eff down. maybe_commit ldr c = Some (ldr', c', eff, down)
    \<and> commit_index c \<le> commit_index c' \<and> commit_index c' \<le> last_index (core_log c')
    \<and> (commit_index c' \<noteq> commit_index c \<longrightarrow> term_at (core_log c') (commit_index c') = core_term c)
    \<and> (joint_above c = 0 \<longrightarrow>
        (if \<exists>i. committable ldr c i
         then committable ldr c (commit_index c') \<and> (\<forall>i. committable ldr c i \<longrightarrow> i \<le> commit_index c')
         else commit_index c' = commit_index c))"
proof -
  have r: "commit_ready c" using assms by (simp add: commit_ready_def)
  from commit_loop_returns [OF r, of ldr effects_none] obtain ldr' c' eff down where
    l: "commit_loop ldr c effects_none = Some (ldr', c', eff, down)" "commit_moved c c'" by blast
  have "c' = advance_commit_index ldr c" if "joint_above c = 0"
    using commit_loop_no_joint [OF r that l(1)] .
  with l advance_commit_index_spec [OF commit_readyD(4) [OF r], of ldr] show ?thesis
    unfolding maybe_commit_def commit_moved_def by (auto split: if_splits)
qed

definition replicated_core :: Core where
  "replicated_core = (core_new (config_new (NodeId 1)) [NodeId 1, NodeId 2, NodeId 3])\<lparr>persistent :=
     persistent_default\<lparr>p_term := 1, bootstrap_config := simple [NodeId 1, NodeId 2, NodeId 3],
       p_log := default_log\<lparr>log_entries := [\<lparr>e_term = 1, e_index = 1, e_payload = CommandPayload (Command [7])\<rparr>]\<rparr>\<rparr>\<rparr>"

definition replicated_leader :: Leader where
  "replicated_leader = (leader_init replicated_core)\<lparr>match_index := [NodeId 1 \<mapsto> 1, NodeId 3 \<mapsto> 1]\<rparr>"

lemma replicated_facts:
  "last_index (core_log replicated_core) = 1" "commit_index replicated_core = 0" "core_term replicated_core = 1"
  "term_at (core_log replicated_core) 1 = 1" "joint_above replicated_core = 0"
  "has_quorum (effective_config replicated_core) (\<lambda>v. 1 \<le> match_of replicated_leader v)"
  by code_simp+

theorem maybe_commit_spec_witness:
  "\<exists>ldr' c' eff down. maybe_commit replicated_leader replicated_core = Some (ldr', c', eff, down)
    \<and> commit_index replicated_core = 0 \<and> commit_index c' = 1"
proof -
  have wf: "wf_log (core_log replicated_core)"
    by (simp add: replicated_core_def core_accessors wf_log_def default_log_def)
  have room: "commit_index replicated_core \<le> last_index (core_log replicated_core)"
    "unat (last_index (core_log replicated_core)) + joint_above replicated_core < 2 ^ 64 - 1"
    by (simp_all add: replicated_facts)
  have one: "committable replicated_leader replicated_core 1"
    using replicated_facts by (simp add: committable_def)
  from maybe_commit_spec [OF wf room, of replicated_leader] obtain ldr' c' eff down where
    m: "maybe_commit replicated_leader replicated_core = Some (ldr', c', eff, down)"
      "if \<exists>i. committable replicated_leader replicated_core i
       then committable replicated_leader replicated_core (commit_index c')
         \<and> (\<forall>i. committable replicated_leader replicated_core i \<longrightarrow> i \<le> commit_index c')
       else commit_index c' = commit_index replicated_core"
    using replicated_facts(5) by blast
  with one have "1 \<le> commit_index c'" "commit_index c' \<le> 1"
    by (auto simp: committable_def replicated_facts(1) split: if_splits)
  then have "commit_index c' = 1" by simp
  with m(1) replicated_facts(2) show ?thesis by blast
qed

end
