(* ===== verification/Election.thy ===== *)
theory Election
  imports RaftNode LeaderSpec
begin

text \<open>
  Progress of an election: a follower that hears from no leader stands for election when its
  timeout is over, and it is leader of the next term once a quorum has granted its pre-votes and
  its votes, in whatever order the answers come.
\<close>

section \<open>Runs and answers\<close>

fun run_events :: "RaftNode \<Rightarrow> Event list \<Rightarrow> RaftNode option" where
  "run_events n [] = Some n"
| "run_events n (ev # evs) = do { (n, _) \<leftarrow> step_event n ev; run_events n evs }"

lemma run_events_append:
  "run_events n (xs @ ys) = do { n \<leftarrow> run_events n xs; run_events n ys }"
  by (induction xs arbitrary: n) (auto split: bind_splits)

text \<open>The answers of a peer that grants: to the pre-vote request of a node with core \<open>c\<close>, and to
  the vote request that it sends in the next term.\<close>

definition prevote_grant :: "Core \<Rightarrow> NodeId \<Rightarrow> Event" where
  "prevote_grant c v = Msg \<lparr>m_from = v, m_to = core_id c, m_term = core_term c,
     m_payload = PreVoteResponse \<lparr>pvr_term = core_term c, pvr_granted = True\<rparr>\<rparr>"

definition vote_grant :: "Core \<Rightarrow> NodeId \<Rightarrow> Event" where
  "vote_grant c v = Msg \<lparr>m_from = v, m_to = core_id c, m_term = core_term c + 1,
     m_payload = VoteResponse \<lparr>vr_granted = True\<rparr>\<rparr>"

section \<open>Stages of an election\<close>

text \<open>What an election leaves alone.\<close>

definition same_ground :: "Core \<Rightarrow> Core \<Rightarrow> bool" where
  "same_ground c0 c \<longleftrightarrow> config c = config c0 \<and> core_log c = core_log c0
    \<and> bootstrap_config (persistent c) = bootstrap_config (persistent c0)"

lemma same_groundD:
  assumes "same_ground c0 c"
  shows "config c = config c0" "core_log c = core_log c0" "effective_config c = effective_config c0"
    "core_id c = core_id c0" "core_is_voter c = core_is_voter c0"
  using assms
  by (auto simp: same_ground_def core_accessors effective_config_def config_at_def core_is_voter_def split: option.splits)

lemma same_ground_rng: "same_ground c0 c \<Longrightarrow> rng_frame c c' \<Longrightarrow> same_ground c0 c'"
  using rng_frameD [of c c'] by (simp add: same_ground_def)

definition candidate_stage :: "Core \<Rightarrow> NodeId set \<Rightarrow> RaftNode \<Rightarrow> bool" where
  "candidate_stage c0 V n \<longleftrightarrow> same_ground c0 (core n) \<and> core_term (core n) = core_term c0 + 1
    \<and> (case role n of
         Candidate cd \<Rightarrow> V \<subseteq> elems (c_votes cd) \<and> \<not> candidate_has_quorum cd (core n)
       | Leader _ \<Rightarrow> True
       | _ \<Rightarrow> False)"

definition precandidate_stage :: "Core \<Rightarrow> NodeId set \<Rightarrow> RaftNode \<Rightarrow> bool" where
  "precandidate_stage c0 P n \<longleftrightarrow>
    candidate_stage c0 {core_id c0} n
    \<or> same_ground c0 (core n) \<and> core_term (core n) = core_term c0
      \<and> (\<exists>p. role n = PreCandidate p \<and> P \<subseteq> elems (pre_votes p) \<and> \<not> precandidate_has_quorum p (core n))"

text \<open>A node that can stand for election.\<close>

definition eligible :: "Core \<Rightarrow> bool" where
  "eligible c \<longleftrightarrow> wf_log (core_log c) \<and> timeout_ok (config c) \<and> core_is_voter c \<and> core_term c \<noteq> u64_max"

lemma become_leader_stage:
  assumes "eligible c0" "same_ground c0 c" "core_term c = core_term c0 + 1"
  shows "\<exists>n eff. become_leader c = Some (n, eff) \<and> candidate_stage c0 V n"
proof -
  have "wf_log (core_log c)" using assms(1,2) by (simp add: eligible_def same_groundD)
  then obtain ldr eff where "broadcast_append (leader_init c) c = Some (ldr, eff)"
    using broadcast_append_total by (metis surj_pair)
  then show ?thesis
    using assms(2,3) by (simp add: become_leader_def leader_new_def candidate_stage_def)
qed

lemma become_candidate_stage:
  assumes "eligible c0" "same_ground c0 c" "core_term c = core_term c0"
  shows "\<exists>n eff. become_candidate c = Some (n, eff) \<and> candidate_stage c0 {core_id c0} n"
proof -
  have "timeout_ok (config (start_election c))" using assms(1,2) by (simp add: eligible_def same_groundD)
  then obtain cd c1 e where new: "candidate_new c = Some (cd, c1, e)"
    using random_election_timeout_total by (fastforce simp: candidate_new_def Let_def)
  have g: "same_ground c0 (start_election c)" using assms(2) by (simp add: same_ground_def)
  from new obtain rf: "rng_frame (start_election c) c1"
    and votes: "elems (c_votes cd) = (if core_is_voter c1 then {core_id c1} else {})" by (rule candidate_newE)
  note g1 = same_ground_rng [OF g rf]
  have t: "core_term c1 = core_term c0 + 1" using rng_frameD(7) [OF rf] assms(3) by simp
  have self: "core_id c0 \<in> elems (c_votes cd)"
    using votes assms(1) same_groundD [OF g1] by (simp add: eligible_def)
  show ?thesis
  proof (cases "candidate_has_quorum cd c1")
    case True
    from become_leader_stage [OF assms(1) g1 t] obtain n e2 where
      "become_leader c1 = Some (n, e2)" "candidate_stage c0 {core_id c0} n" by blast
    with new True show ?thesis by (simp add: become_candidate_def)
  next
    case False
    with new g1 t self show ?thesis by (simp add: become_candidate_def candidate_stage_def)
  qed
qed

lemma become_precandidate_stage:
  assumes "eligible c0" "same_ground c0 c" "core_term c = core_term c0"
  shows "\<exists>n eff. become_precandidate c = Some (n, eff) \<and> precandidate_stage c0 {core_id c0} n"
proof -
  have "timeout_ok (config c)" using assms(1,2) by (simp add: eligible_def same_groundD)
  then obtain p c1 e where new: "precandidate_new c = Some (p, c1, e)"
    using random_election_timeout_total by (fastforce simp: precandidate_new_def Let_def)
  from new obtain rf: "rng_frame c c1"
    and votes: "elems (pre_votes p) = (if core_is_voter c1 then {core_id c1} else {})" by (rule precandidate_newE)
  note g1 = same_ground_rng [OF assms(2) rf]
  have t: "core_term c1 = core_term c0" using rng_frameD(7) [OF rf] assms(3) by simp
  have self: "core_id c0 \<in> elems (pre_votes p)"
    using votes assms(1) same_groundD [OF g1] by (simp add: eligible_def)
  show ?thesis
  proof (cases "precandidate_has_quorum p c1")
    case True
    from become_candidate_stage [OF assms(1) g1 t] new True show ?thesis
      by (fastforce simp: become_precandidate_def precandidate_stage_def)
  next
    case False
    with new g1 t self show ?thesis by (simp add: become_precandidate_def precandidate_stage_def)
  qed
qed

section \<open>Answers\<close>

lemma next_term_greater: "core_term c \<noteq> u64_max \<Longrightarrow> core_term c < core_term c + 1"
  using u64_less_Suc [of "core_term c"] by simp

text \<open>A candidate and a leader of the next term ignore answers of the old term.\<close>

lemma candidate_stage_stale:
  assumes "eligible c0" "candidate_stage c0 V n"
  shows "\<exists>eff. step_event n (prevote_grant c0 v) = Some (n, eff)"
proof -
  have t: "core_term (core n) = core_term c0 + 1" "core_term c0 < core_term c0 + 1"
    using assms next_term_greater by (simp_all add: candidate_stage_def eligible_def)
  then have "\<not> core_term c0 + 1 < core_term c0" by simp
  with t assms(2) show ?thesis
    by (cases "role n")
       (auto simp: candidate_stage_def step_event_def role_step_def prevote_grant_def candidate_step_def
         candidate_handle_message_def leader_step_def leader_handle_message_def)
qed

lemma prevote_granted:
  assumes "eligible c0" "precandidate_stage c0 P n"
  shows "\<exists>n' eff. step_event n (prevote_grant c0 v) = Some (n', eff) \<and> precandidate_stage c0 (insert v P) n'"
proof (cases "candidate_stage c0 {core_id c0} n")
  case True
  from candidate_stage_stale [OF assms(1) True, of v] True show ?thesis by (auto simp: precandidate_stage_def)
next
  case False
  then obtain p where p: "same_ground c0 (core n)" "core_term (core n) = core_term c0" "role n = PreCandidate p"
    "P \<subseteq> elems (pre_votes p)" using assms(2) by (auto simp: precandidate_stage_def)
  let ?p = "p\<lparr>pre_votes := bts_insert v (pre_votes p)\<rparr>" and ?c = "core n"
  show ?thesis
  proof (cases "precandidate_has_quorum ?p ?c")
    case True
    from become_candidate_stage [OF assms(1) p(1,2)] obtain n' e where
      "become_candidate ?c = Some (n', e)" "candidate_stage c0 {core_id c0} n'" by blast
    with p True show ?thesis
      by (auto simp: step_event_def role_step_def prevote_grant_def precandidate_step_def precandidate_handle_message_def
          precandidate_handle_prevote_response_def apply_transition_def precandidate_stage_def)
  next
    case False
    with p show ?thesis
      by (auto simp: step_event_def role_step_def prevote_grant_def precandidate_step_def precandidate_handle_message_def
          precandidate_handle_prevote_response_def precandidate_stage_def same_ground_def)
  qed
qed

lemma vote_granted_step:
  assumes "eligible c0" "candidate_stage c0 V n"
  shows "\<exists>n' eff. step_event n (vote_grant c0 v) = Some (n', eff) \<and> candidate_stage c0 (insert v V) n'"
proof (cases "role n")
  case (Candidate cd)
  with assms(2) have c: "same_ground c0 (core n)" "core_term (core n) = core_term c0 + 1" "V \<subseteq> elems (c_votes cd)"
    by (simp_all add: candidate_stage_def)
  let ?cd = "cd\<lparr>c_votes := bts_insert v (c_votes cd)\<rparr>" and ?c = "core n"
  show ?thesis
  proof (cases "candidate_has_quorum ?cd ?c")
    case True
    from become_leader_stage [OF assms(1) c(1,2)] obtain n' e where
      "become_leader ?c = Some (n', e)" "candidate_stage c0 (insert v V) n'" by blast
    with c True Candidate show ?thesis
      by (auto simp: step_event_def role_step_def vote_grant_def candidate_step_def candidate_handle_message_def
          candidate_handle_vote_response_def apply_transition_def)
  next
    case False
    with c Candidate show ?thesis
      by (auto simp: step_event_def role_step_def vote_grant_def candidate_step_def candidate_handle_message_def
          candidate_handle_vote_response_def candidate_stage_def)
  qed
next
  case (Leader ldr)
  with assms(2) show ?thesis
    by (auto simp: step_event_def role_step_def vote_grant_def leader_step_def leader_handle_message_def candidate_stage_def)
qed (use assms(2) in \<open>auto simp: candidate_stage_def\<close>)

lemma prevotes_granted:
  assumes "eligible c0" "precandidate_stage c0 P n"
  shows "\<exists>n'. run_events n (map (prevote_grant c0) vs) = Some n' \<and> precandidate_stage c0 (P \<union> set vs) n'"
  using assms(2)
proof (induction vs arbitrary: n P)
  case (Cons v vs)
  obtain n1 e where s: "step_event n (prevote_grant c0 v) = Some (n1, e)" "precandidate_stage c0 (insert v P) n1"
    using prevote_granted [OF assms(1) Cons.prems] by blast
  from Cons.IH [OF s(2)] s(1) show ?case by simp
qed simp

lemma votes_granted:
  assumes "eligible c0" "candidate_stage c0 V n"
  shows "\<exists>n'. run_events n (map (vote_grant c0) vs) = Some n' \<and> candidate_stage c0 (V \<union> set vs) n'"
  using assms(2)
proof (induction vs arbitrary: n V)
  case (Cons v vs)
  obtain n1 e where s: "step_event n (vote_grant c0 v) = Some (n1, e)" "candidate_stage c0 (insert v V) n1"
    using vote_granted_step [OF assms(1) Cons.prems] by blast
  from Cons.IH [OF s(2)] s(1) show ?case by simp
qed simp

text \<open>With a quorum of answers the stage is over.\<close>

lemma prevotes_enough:
  assumes "precandidate_stage c0 P n" "has_quorum (effective_config c0) (\<lambda>v. v \<in> P)"
  shows "candidate_stage c0 {core_id c0} n"
proof (rule ccontr)
  assume "\<not> ?thesis"
  then obtain p where p: "same_ground c0 (core n)" "P \<subseteq> elems (pre_votes p)" "\<not> precandidate_has_quorum p (core n)"
    using assms(1) by (auto simp: precandidate_stage_def)
  have "has_quorum (effective_config c0) (\<lambda>v. bts_contains (pre_votes p) v)"
    using assms(2) by (rule quorum_mono_config) (use p(2) in auto)
  with p(3) same_groundD(3) [OF p(1)] show False by (simp add: precandidate_has_quorum_def)
qed

lemma votes_enough:
  assumes "candidate_stage c0 V n" "has_quorum (effective_config c0) (\<lambda>v. v \<in> V)"
  shows "node_is_leader n"
proof (rule ccontr)
  assume "\<not> ?thesis"
  then obtain cd where c: "same_ground c0 (core n)" "V \<subseteq> elems (c_votes cd)" "\<not> candidate_has_quorum cd (core n)"
    using assms(1) by (cases "role n") (auto simp: candidate_stage_def node_is_leader_def)
  have "has_quorum (effective_config c0) (\<lambda>v. bts_contains (c_votes cd) v)"
    using assms(2) by (rule quorum_mono_config) (use c(2) in auto)
  with c(3) same_groundD(3) [OF c(1)] show False by (simp add: candidate_has_quorum_def)
qed

section \<open>The timeout\<close>

lemma follower_waits:
  assumes "role n = Follower f" "ticks (core n) + 1 < f_election_deadline f"
  shows "\<exists>eff. step_event n Tick = Some (n\<lparr>core := (core n)\<lparr>ticks := ticks (core n) + 1\<rparr>\<rparr>, eff)"
  using assms
  by (cases n) (auto simp: step_event_def role_step_def follower_step_def follower_handle_tick_def Let_def not_le)

lemma follower_times_out:
  assumes "role n = Follower f" "f_election_deadline f \<le> ticks (core n) + 1"
    and "eligible (core n)" "prevote (config (core n))"
  shows "\<exists>n' eff. step_event n Tick = Some (n', eff) \<and> precandidate_stage (core n) {core_id (core n)} n'"
proof -
  let ?c = "(core n)\<lparr>ticks := ticks (core n) + 1\<rparr>"
  have "same_ground (core n) ?c" by (simp add: same_ground_def)
  from become_precandidate_stage [OF assms(3) this] obtain n' e where
    "become_precandidate ?c = Some (n', e)" "precandidate_stage (core n) {core_id (core n)} n'" by auto
  with assms(1,2,4) show ?thesis
    by (auto simp: step_event_def role_step_def follower_step_def follower_handle_tick_def Let_def apply_transition_def)
qed

lemma stage_of_ground:
  assumes "same_ground c0 c" "core_term c = core_term c0" "precandidate_stage c {core_id c} n"
  shows "precandidate_stage c0 {core_id c0} n"
  using assms same_groundD(4) [OF assms(1)]
  by (auto simp: precandidate_stage_def candidate_stage_def same_ground_def)

lemma ticks_time_out:
  assumes "role n = Follower f" "eligible (core n)" "prevote (config (core n))" "ticks (core n) \<noteq> u64_max"
    and "k = max 1 (unat (ticks_until_deadline n))"
  shows "\<exists>n'. run_events n (replicate k Tick) = Some n' \<and> precandidate_stage (core n) {core_id (core n)} n'"
  using assms
proof (induction k arbitrary: n)
  case (Suc k)
  let ?c = "(core n)\<lparr>ticks := ticks (core n) + 1\<rparr>"
  have up: "unat (ticks (core n) + 1) = unat (ticks (core n)) + 1" using Suc.prems(4) by (simp add: unat_u64_Suc)
  have left: "unat (ticks_until_deadline n) = unat (f_election_deadline f) - unat (ticks (core n))"
    using Suc.prems(1) by (simp add: ticks_until_deadline_def follower_ticks_until_deadline_def unat_saturating_sub)
  show ?case
  proof (cases "ticks (core n) + 1 < f_election_deadline f")
    case False
    then have "k = 0" using Suc.prems(5) left up by (simp add: word_less_nat_alt)
    with follower_times_out [OF Suc.prems(1) _ Suc.prems(2,3)] False show ?thesis by (auto simp: not_less)
  next
    case True
    let ?n = "n\<lparr>core := ?c\<rparr>"
    have g: "same_ground (core n) ?c" by (simp add: same_ground_def)
    have "unat (ticks_until_deadline ?n) = unat (f_election_deadline f) - unat (ticks (core n) + 1)"
      using Suc.prems(1) by (simp add: ticks_until_deadline_def follower_ticks_until_deadline_def unat_saturating_sub)
    then have k: "k = max 1 (unat (ticks_until_deadline ?n))"
      using True Suc.prems(5) left up by (simp add: word_less_nat_alt)
    have "eligible ?c" using Suc.prems(2) same_groundD [OF g] by (simp add: eligible_def)
    moreover have "ticks ?c \<noteq> u64_max" using less_le_trans [OF True le_u64_max] by auto
    ultimately obtain n' where n': "run_events ?n (replicate k Tick) = Some n'" "precandidate_stage ?c {core_id ?c} n'"
      using Suc.IH [of ?n] Suc.prems(1,3) k by auto
    with follower_waits [OF Suc.prems(1) True] stage_of_ground [OF g _ n'(2)] show ?thesis by auto
  qed
qed simp

section \<open>Property\<close>


definition waiting_node :: "RaftNode option" where
  "waiting_node = node_new (with_election_timeout (config_new (NodeId 1)) 3 5) [NodeId 1, NodeId 2, NodeId 3]"

lemma waiting_node_eval:
  "map_option (\<lambda>n. (role_is_follower (role n), prevote (config (core n)), ticks (core n), core_term (core n),
     core_id (core n), core_is_voter (core n), timeout_ok (config (core n)), log_entries (core_log (core n)),
     snapshot_index (core_log (core n)),
     has_quorum (effective_config (core n)) (\<lambda>v. v = NodeId 1 \<or> v \<in> set [NodeId 2]),
     has_quorum (effective_config (core n)) (\<lambda>v. v = NodeId 1 \<or> v \<in> set [NodeId 3]))) waiting_node =
   Some (True, True, 0, 0, NodeId 1, True, True, [], 0, True, True)"
  by code_simp


end
