(* ===== verification/Text.thy ===== *)
theory Text
  imports Prelude "HOL-Library.Char_ord" "HOL-Library.List_Lexorder"
begin

text \<open>
  Text as the sources use it. A Rust \<open>String\<close> is its sequence of UTF-8 bytes, here a
  \<open>string\<close> (an Isabelle character is one byte): \<open>len\<close> is the number of bytes, comparison
  is lexicographic on bytes, and \<open>starts_with\<close> is the prefix test. The theory adds the decimal
  format and \<open>parse::<u64>\<close> of the standard library, and shows that they are inverse.
\<close>

section \<open>Decimal numbers\<close>

definition digit :: "nat \<Rightarrow> char" where
  "digit d = char_of (48 + d)"

definition digit_value :: "char \<Rightarrow> nat" where
  "digit_value c = of_char c - 48"

definition is_digit :: "char \<Rightarrow> bool" where
  "is_digit c \<longleftrightarrow> 48 \<le> (of_char c :: nat) \<and> (of_char c :: nat) \<le> 57"

fun decimal :: "nat \<Rightarrow> string" where
  "decimal n = (if n < 10 then [digit n] else decimal (n div 10) @ [digit (n mod 10)])"

declare decimal.simps [simp del]

text \<open>\<open>format!("{}", n)\<close> and \<open>format!("{n:020}")\<close> for a \<open>u64\<close>.\<close>

definition show_u64 :: "u64 \<Rightarrow> string" where
  "show_u64 n = decimal (unat n)"

definition show_u64_020 :: "u64 \<Rightarrow> string" where
  "show_u64_020 n = replicate (20 - length (show_u64 n)) (digit 0) @ show_u64 n"

definition digits_value :: "string \<Rightarrow> nat" where
  "digits_value s = foldl (\<lambda>a c. 10 * a + digit_value c) 0 s"

text \<open>\<open>str::parse::<u64>\<close>: an optional plus sign and at least one digit; overflow is an error.\<close>

definition parse_u64 :: "string \<Rightarrow> u64 option" where
  "parse_u64 s =
    (let ds = (case s of c # rest \<Rightarrow> if c = CHR ''+'' then rest else s | [] \<Rightarrow> s) in
     if ds = [] \<or> \<not> list_all is_digit ds then None
     else if fits_u64 (digits_value ds) then Some (of_nat (digits_value ds)) else None)"

lemma of_char_digit: "d < 10 \<Longrightarrow> of_char (digit d) = 48 + d"
  by (simp add: digit_def)

lemma digit_value_digit [simp]: "d < 10 \<Longrightarrow> digit_value (digit d) = d"
  by (simp add: digit_value_def of_char_digit)

lemma is_digit_digit [simp]: "d < 10 \<Longrightarrow> is_digit (digit d)"
  by (simp add: is_digit_def of_char_digit)

lemma digits_value_snoc: "digits_value (s @ [c]) = 10 * digits_value s + digit_value c"
  by (simp add: digits_value_def)

lemma digits_value_zeros: "digits_value (replicate k (digit 0) @ s) = digits_value s"
proof -
  have "foldl (\<lambda>a c. 10 * a + digit_value c) 0 (replicate k (digit 0)) = (0 :: nat)"
    by (induction k) simp_all
  then show ?thesis by (simp add: digits_value_def)
qed

lemma decimal_digits: "list_all is_digit (decimal n) \<and> decimal n \<noteq> []"
proof (induction n rule: decimal.induct)
  case (1 n)
  show ?case by (cases "n < 10") (use 1 in \<open>simp_all add: decimal.simps [of n]\<close>)
qed

lemma digits_value_decimal [simp]: "digits_value (decimal n) = n"
proof (induction n rule: decimal.induct)
  case (1 n)
  show ?case
  proof (cases "n < 10")
    case True
    then show ?thesis by (simp add: decimal.simps [of n] digits_value_def)
  next
    case False
    with 1 show ?thesis by (simp add: decimal.simps [of n] digits_value_snoc)
  qed
qed

lemma decimal_inject [simp]: "decimal m = decimal n \<longleftrightarrow> m = n"
  by (metis digits_value_decimal)

lemma show_u64_inject [simp]: "show_u64 a = show_u64 b \<longleftrightarrow> a = b"
  by (simp add: show_u64_def word_unat_eq_iff)

lemma not_digit_plus: "\<not> is_digit (CHR ''+'')"
  by (simp add: is_digit_def)

lemma parse_u64_digits:
  assumes "list_all is_digit s" "s \<noteq> []"
  shows "parse_u64 s = (if fits_u64 (digits_value s) then Some (of_nat (digits_value s)) else None)"
  using assms not_digit_plus by (cases s) (auto simp: parse_u64_def Let_def)

lemma parse_show_u64: "parse_u64 (show_u64 n) = Some n"
  using decimal_digits [of "unat n"]
  by (simp add: show_u64_def parse_u64_digits fits_u64_iff)

lemma parse_show_u64_020: "parse_u64 (show_u64_020 n) = Some n"
proof -
  have "list_all is_digit (show_u64_020 n)" "show_u64_020 n \<noteq> []"
    using decimal_digits [of "unat n"] by (auto simp: show_u64_020_def show_u64_def list_all_iff)
  then show ?thesis
    by (simp add: parse_u64_digits) (simp add: show_u64_020_def digits_value_zeros show_u64_def
        fits_u64_iff)
qed

lemma show_u64_020_inject [simp]: "show_u64_020 a = show_u64_020 b \<longleftrightarrow> a = b"
  by (metis option.inject parse_show_u64_020)

section \<open>Prefixes and byte order\<close>

fun starts_with :: "string \<Rightarrow> string \<Rightarrow> bool" where
  "starts_with s [] \<longleftrightarrow> True"
| "starts_with [] (c # cs) \<longleftrightarrow> False"
| "starts_with (x # xs) (c # cs) \<longleftrightarrow> x = c \<and> starts_with xs cs"

lemma starts_with_iff: "starts_with s p \<longleftrightarrow> (\<exists>t. s = p @ t)"
  by (induction s p rule: starts_with.induct) auto

lemma starts_with_le: "starts_with s p \<Longrightarrow> p \<le> s"
  by (induction s p rule: starts_with.induct) auto

text \<open>The strings with a given prefix form an interval of the order: once a string at or after
  the prefix does not start with it, no later one does.\<close>

lemma starts_with_interval: "p \<le> s \<Longrightarrow> s \<le> t \<Longrightarrow> starts_with t p \<Longrightarrow> starts_with s p"
proof (induction t p arbitrary: s rule: starts_with.induct)
  case (3 x xs c cs)
  then obtain y ys where s: "s = y # ys" by (cases s) simp_all
  have "c < y \<or> c = y \<and> cs \<le> ys" "y < x \<or> y = x \<and> ys \<le> xs" "x = c"
    using 3(2-4) by (simp_all add: s Cons_le_Cons)
  then have "y = c" "cs \<le> ys" "ys \<le> xs" by auto
  with 3(1,4) s show ?case by simp
qed simp_all

end
