(* ===== verification/WalFormat.thy ===== *)
theory WalFormat
  imports Text Collections
begin

unbundle bit_operations_syntax

text \<open>
  The write-ahead log, part one: records, errors and the on-disk format
  (\<open>basisdb-wal/src/record.rs\<close>, \<open>error.rs\<close>, \<open>format.rs\<close>), over a model of what the WAL uses of
  the file system.

  The file system is a \<open>World\<close>: the files of the WAL directory, what of them has been synced,
  the directory entries that have been synced, the lock, and a script of outcomes for the
  system calls to come. A call consumes one outcome: it may fail, be interrupted, or transfer
  fewer bytes than asked for. An empty script means that every further call succeeds at once.

  CRC-32 is code of the \<open>crc32fast\<close> crate and a parameter \<open>crc\<close> here; nothing is assumed of it.
\<close>

section \<open>Records and errors\<close>

record Lsn =
  lsn_segment :: u64
  lsn_offset :: u64

datatype Corruption =
  BadMagic u32
| UnsupportedVersion u16
| CoReservedRecordKind
| HeaderChecksum
| PayloadChecksum
| CoRecordTooLarge u64 u64
| CoSegmentTooLarge u64 u64
| IncompleteRecord

datatype WalError =
  Io string
| ReservedRecordKind
| SegmentTooSmall u64 nat
| RecordTooLarge u64 u64
| WalFull u64 u64
| PayloadTooLarge nat
| SegmentIdExhausted
| CorruptRecord Lsn Corruption
| BadSegmentName string
| MissingSegment u64 u64
| Locked string
| Poisoned

datatype RecordKind = RecordKind (kind_get: u16)

definition record_kind_new :: "u16 \<Rightarrow> WalError + RecordKind" where
  "record_kind_new value =
    (if value = 0 then Inl ReservedRecordKind else Inr (RecordKind value))"

record Record =
  rec_kind :: RecordKind
  rec_payload :: bytes

record StoredRecord =
  sr_lsn :: Lsn
  sr_record :: Record

section \<open>The file system\<close>

datatype IoOutcome = IoOk | IoFail | IoShort nat | IoInterrupted

record World =
  w_files :: "(string, bytes) btreemap"
  w_synced :: "(string, bytes) btreemap"
  w_entries :: "string btreeset"
  w_locked :: bool
  w_script :: "IoOutcome list"

definition file_content :: "World \<Rightarrow> string \<Rightarrow> bytes" where
  "file_content w path = (case bm_get (w_files w) path of Some c \<Rightarrow> c | None \<Rightarrow> [])"

definition next_io :: "World \<Rightarrow> IoOutcome \<times> World" where
  "next_io w = (case w_script w of [] \<Rightarrow> (IoOk, w) | x # xs \<Rightarrow> (x, w\<lparr>w_script := xs\<rparr>))"

text \<open>\<open>?\<close> on a result with state: an error returns at once.\<close>

definition io_bind :: "('e + 'a) \<times> 'w \<Rightarrow> ('a \<Rightarrow> 'w \<Rightarrow> ('e + 'b) \<times> 'w) \<Rightarrow> ('e + 'b) \<times> 'w" where
  "io_bind r f = (case r of (Inl e, w) \<Rightarrow> (Inl e, w) | (Inr x, w) \<Rightarrow> f x w)"

text \<open>A call on a path that succeeds or fails.\<close>

definition io_call :: "string \<Rightarrow> World \<Rightarrow> (WalError + unit) \<times> World" where
  "io_call path w =
    (case next_io w of (IoFail, w) \<Rightarrow> (Inl (Io path), w) | (_, w) \<Rightarrow> (Inr (), w))"

definition append_file :: "string \<Rightarrow> bytes \<Rightarrow> World \<Rightarrow> World" where
  "append_file path bs w = w\<lparr>w_files := bm_insert path (file_content w path @ bs) (w_files w)\<rparr>"

text \<open>\<open>Write::write_all\<close> on a file opened for appending: bytes written before a failure stay.\<close>

function write_all :: "string \<Rightarrow> bytes \<Rightarrow> World \<Rightarrow> (WalError + unit) \<times> World" where
  "write_all path bs w =
    (if bs = [] then (Inr (), w)
     else case next_io w of
       (IoFail, w') \<Rightarrow> (Inl (Io path), w')
     | (IoInterrupted, w') \<Rightarrow> write_all path bs w'
     | (IoShort k, w') \<Rightarrow>
         let m = min (max 1 k) (length bs)
         in write_all path (drop m bs) (append_file path (take m bs) w')
     | (IoOk, w') \<Rightarrow> (Inr (), append_file path bs w'))"
  by pat_completeness auto
termination
  by (relation "measure (\<lambda>(path, bs, w). length (w_script w))")
     (auto simp: next_io_def append_file_def split: list.splits)

declare write_all.simps [simp del]

text \<open>\<open>sync_all\<close> on a file makes its content durable, on the directory its entries.\<close>

definition sync_file :: "string \<Rightarrow> World \<Rightarrow> (WalError + unit) \<times> World" where
  "sync_file path w =
    io_bind (io_call path w) (\<lambda>_ w.
      (Inr (), w\<lparr>w_synced := bm_insert path (file_content w path) (w_synced w)\<rparr>))"

definition sync_dir :: "World \<Rightarrow> (WalError + unit) \<times> World" where
  "sync_dir w =
    io_bind (io_call [] w) (\<lambda>_ w. (Inr (), w\<lparr>w_entries := bts_of_list (bm_keys (w_files w))\<rparr>))"

text \<open>\<open>File::open\<close> of an existing file and the length its metadata reports.\<close>

definition open_file :: "string \<Rightarrow> World \<Rightarrow> (WalError + bytes) \<times> World" where
  "open_file path w =
    io_bind (io_call path w) (\<lambda>_ w.
      case bm_get (w_files w) path of
        None \<Rightarrow> (Inl (Io path), w)
      | Some c \<Rightarrow> (Inr c, w))"

definition metadata_len :: "string \<Rightarrow> World \<Rightarrow> (WalError + u64) \<times> World" where
  "metadata_len path w =
    io_bind (io_call path w) (\<lambda>_ w.
      case bm_get (w_files w) path of
        None \<Rightarrow> (Inl (Io path), w)
      | Some c \<Rightarrow> (Inr (of_nat (length c)), w))"

section \<open>Little-endian fields\<close>

definition u16_le :: "u16 \<Rightarrow> bytes" where
  "u16_le x = [ucast x, ucast (drop_bit 8 x)]"

definition u32_le :: "u32 \<Rightarrow> bytes" where
  "u32_le x = [ucast x, ucast (drop_bit 8 x), ucast (drop_bit 16 x), ucast (drop_bit 24 x)]"

definition read_u16 :: "bytes \<Rightarrow> nat \<Rightarrow> u16" where
  "read_u16 bs start = ucast (bs ! start) OR push_bit 8 (ucast (bs ! (start + 1)))"

definition read_u32 :: "bytes \<Rightarrow> nat \<Rightarrow> u32" where
  "read_u32 bs start =
    ucast (bs ! start) OR push_bit 8 (ucast (bs ! (start + 1)))
    OR push_bit 16 (ucast (bs ! (start + 2))) OR push_bit 24 (ucast (bs ! (start + 3)))"

section \<open>The format\<close>

definition MAGIC :: u32 where "MAGIC = 0x4339574c"
definition VERSION :: u16 where "VERSION = 1"
definition HEADER_LEN :: nat where "HEADER_LEN = 32"
definition HEADER_LEN_U64 :: u64 where "HEADER_LEN_U64 = 32"
definition HEADER_CRC_END :: nat where "HEADER_CRC_END = 28"

text \<open>\<open>u32::try_from(n)\<close> for a \<open>usize\<close> succeeds.\<close>

definition fits_u32 :: "nat \<Rightarrow> bool" where
  "fits_u32 n \<longleftrightarrow> int n < 2 ^ 32"

definition encoded_len :: "nat \<Rightarrow> WalError + nat" where
  "encoded_len payload_len =
    (if \<not> fits_u32 payload_len then Inl (PayloadTooLarge payload_len)
     else if \<not> fits_u64 (HEADER_LEN + payload_len) then Inl (PayloadTooLarge payload_len)
     else Inr (HEADER_LEN + payload_len))"

definition header_fields :: "(bytes \<Rightarrow> u32) \<Rightarrow> RecordKind \<Rightarrow> bytes \<Rightarrow> bytes" where
  "header_fields crc kind payload =
    u32_le MAGIC @ u16_le VERSION @ u16_le (kind_get kind) @ u32_le (of_nat (length payload))
    @ u32_le (crc payload) @ replicate 12 0"

definition encode_record :: "(bytes \<Rightarrow> u32) \<Rightarrow> RecordKind \<Rightarrow> bytes \<Rightarrow> WalError + bytes" where
  "encode_record crc kind payload =
    try_bind (encoded_len (length payload)) (\<lambda>_.
      if \<not> fits_u32 (length payload) then Inl (PayloadTooLarge (length payload))
      else
        let fields = header_fields crc kind payload;
            header = fields @ u32_le (crc fields)
        in Inr (header @ payload))"

datatype ReadExact = Complete bytes | Eof | Incomplete

text \<open>The loop of \<open>read_exact_or_tail\<close>: \<open>buf\<close> is the filled part of the buffer of \<open>n\<close> bytes,
  \<open>rest\<close> what the reader has left.\<close>

function fill :: "string \<Rightarrow> nat \<Rightarrow> bytes \<Rightarrow> bytes \<Rightarrow> World \<Rightarrow> (WalError + ReadExact \<times> bytes) \<times> World" where
  "fill path n buf rest w =
    (if length buf \<ge> n then (Inr (Complete buf, rest), w)
     else case next_io w of
       (IoFail, w') \<Rightarrow> (Inl (Io path), w')
     | (IoInterrupted, w') \<Rightarrow> fill path n buf rest w'
     | (x, w') \<Rightarrow>
         if rest = [] then (Inr (if buf = [] then Eof else Incomplete, []), w')
         else let k = (case x of IoShort k \<Rightarrow> max 1 k | _ \<Rightarrow> n);
                  m = min k (min (n - length buf) (length rest))
              in fill path n (buf @ take m rest) (drop m rest) w')"
  by pat_completeness auto
termination
  by (relation "measure (\<lambda>(path, n, buf, rest, w). length (w_script w) + length rest)")
     (auto simp: next_io_def split: list.splits IoOutcome.splits)

declare fill.simps [simp del]

definition read_exact_or_tail :: "string \<Rightarrow> nat \<Rightarrow> bytes \<Rightarrow> World \<Rightarrow> (WalError + ReadExact \<times> bytes) \<times> World" where
  "read_exact_or_tail path n rest w = fill path n [] rest w"

definition decode_header :: "(bytes \<Rightarrow> u32) \<Rightarrow> bytes \<Rightarrow> Lsn \<Rightarrow> WalError + RecordKind" where
  "decode_header crc header lsn =
    (let magic = read_u32 header 0; version = read_u16 header 4 in
     if magic \<noteq> MAGIC then Inl (CorruptRecord lsn (BadMagic magic))
     else if version \<noteq> VERSION then Inl (CorruptRecord lsn (UnsupportedVersion version))
     else if crc (take HEADER_CRC_END header) \<noteq> read_u32 header 28
     then Inl (CorruptRecord lsn HeaderChecksum)
     else case record_kind_new (read_u16 header 6) of
            Inl _ \<Rightarrow> Inl (CorruptRecord lsn CoReservedRecordKind)
          | Inr kind \<Rightarrow> Inr kind)"

datatype ReadOne = ReadRecord Record u64 | ReadEof | ReadIncomplete

definition read_payload ::
    "(bytes \<Rightarrow> u32) \<Rightarrow> string \<Rightarrow> bytes \<Rightarrow> RecordKind \<Rightarrow> bytes \<Rightarrow> Lsn \<Rightarrow> u64 \<Rightarrow> World
      \<Rightarrow> (WalError + ReadOne \<times> bytes) \<times> World" where
  "read_payload crc path rest kind header lsn next_offset w =
    io_bind (read_exact_or_tail path (unat (read_u32 header 8)) rest w) (\<lambda>(r, rest) w.
      case r of
        Complete payload \<Rightarrow>
          if crc payload \<noteq> read_u32 header 12
          then (Inl (CorruptRecord lsn PayloadChecksum), w)
          else (Inr (ReadRecord \<lparr>rec_kind = kind, rec_payload = payload\<rparr> next_offset, rest), w)
      | _ \<Rightarrow> (Inr (ReadIncomplete, rest), w))"

definition read_one ::
    "(bytes \<Rightarrow> u32) \<Rightarrow> string \<Rightarrow> bytes \<Rightarrow> Lsn \<Rightarrow> u64 \<Rightarrow> u64 \<Rightarrow> World
      \<Rightarrow> (WalError + ReadOne \<times> bytes) \<times> World" where
  "read_one crc path rest lsn segment_size physical_len w =
    io_bind (read_exact_or_tail path HEADER_LEN rest w) (\<lambda>(r, rest) w.
      case r of
        Eof \<Rightarrow> (Inr (ReadEof, rest), w)
      | Incomplete \<Rightarrow> (Inr (ReadIncomplete, rest), w)
      | Complete header \<Rightarrow>
          (case decode_header crc header lsn of
             Inl e \<Rightarrow> (Inl e, w)
           | Inr kind \<Rightarrow>
               let payload_len = ucast (read_u32 header 8) in
               (case checked_add HEADER_LEN_U64 payload_len of
                  None \<Rightarrow> (Inl (CorruptRecord lsn (CoRecordTooLarge u64_max segment_size)), w)
                | Some record_len \<Rightarrow>
                    if record_len > segment_size
                    then (Inl (CorruptRecord lsn (CoRecordTooLarge record_len segment_size)), w)
                    else
                      (case checked_add (lsn_offset lsn) record_len of
                         None \<Rightarrow> (Inl (CorruptRecord lsn (CoSegmentTooLarge u64_max segment_size)), w)
                       | Some next_offset \<Rightarrow>
                           if next_offset > segment_size
                           then (Inl (CorruptRecord lsn (CoSegmentTooLarge next_offset segment_size)), w)
                           else if next_offset > physical_len then (Inr (ReadIncomplete, rest), w)
                           else read_payload crc path rest kind header lsn next_offset w))))"

section \<open>I/O steps\<close>

text \<open>\<open>io_step w w'\<close>: the call left everything but the script alone. A \<open>quiet\<close> script has no
  failure; it may still interrupt and shorten transfers.\<close>

definition io_step :: "World \<Rightarrow> World \<Rightarrow> bool" where
  "io_step w w' \<longleftrightarrow> (\<exists>s. w' = w\<lparr>w_script := s\<rparr> \<and> set s \<subseteq> set (w_script w))"

definition quiet :: "World \<Rightarrow> bool" where
  "quiet w \<longleftrightarrow> IoFail \<notin> set (w_script w)"

lemma io_step_refl [simp]: "io_step w w"
  unfolding io_step_def by (rule exI [of _ "w_script w"]) simp

lemma io_step_trans: "io_step a b \<Longrightarrow> io_step b c \<Longrightarrow> io_step a c"
  unfolding io_step_def by force

lemma io_step_quiet: "io_step w w' \<Longrightarrow> quiet w \<Longrightarrow> quiet w'"
  by (auto simp: io_step_def quiet_def)

lemma io_step_frame:
  assumes "io_step w w'"
  shows "w_files w' = w_files w" "w_synced w' = w_synced w" "w_entries w' = w_entries w"
    "w_locked w' = w_locked w" "file_content w' = file_content w"
  using assms by (auto simp: io_step_def file_content_def)

lemma next_io_step: "next_io w = (x, w') \<Longrightarrow> io_step w w' \<and> (x = IoOk \<or> x \<in> set (w_script w))"
  by (auto simp: next_io_def io_step_def split: list.splits intro: exI [of _ "w_script w"])

lemma next_io_quiet: "quiet w \<Longrightarrow> next_io w = (x, w') \<Longrightarrow> io_step w w' \<and> x \<noteq> IoFail"
  using next_io_step [of w x w'] by (auto simp: quiet_def)

lemma io_bind_simps [simp]:
  "io_bind (Inl e, w) f = (Inl e, w)"
  "io_bind (Inr x, w) f = f x w"
  by (simp_all add: io_bind_def)

lemma io_bind_Inr_iff:
  "io_bind r f = (Inr y, w') \<longleftrightarrow> (\<exists>x w. r = (Inr x, w) \<and> f x w = (Inr y, w'))"
  by (cases r; cases "fst r") auto

lemma io_call_cases:
  obtains (ok) w' where "io_call path w = (Inr (), w')" "io_step w w'"
  | (failed) w' where "io_call path w = (Inl (Io path), w')" "io_step w w'" "\<not> quiet w"
proof -
  obtain x w' where x: "next_io w = (x, w')" by (cases "next_io w")
  show thesis
  proof (cases "x = IoFail")
    case True
    with x next_io_step [OF x] next_io_quiet [OF _ x] show thesis
      by (intro failed [of w']) (auto simp: io_call_def)
  next
    case False
    with x next_io_step [OF x] show thesis
      by (intro ok [of w']) (auto simp: io_call_def split: IoOutcome.splits)
  qed
qed

lemma io_call_quiet: "quiet w \<Longrightarrow> \<exists>w'. io_call path w = (Inr (), w') \<and> io_step w w'"
  by (cases rule: io_call_cases [of path w]) auto

text \<open>Reading, when no call fails: short reads and interrupts do not show.\<close>

lemma fill_quiet:
  assumes "quiet w" "length buf \<le> n"
  shows "\<exists>w'. io_step w w' \<and> fill path n buf rest w =
    (Inr (if n \<le> length buf + length rest
          then (Complete (buf @ take (n - length buf) rest), drop (n - length buf) rest)
          else (if buf = [] \<and> rest = [] then Eof else Incomplete, [])), w')"
  using assms
proof (induction path n buf rest w rule: fill.induct)
  case (1 path n buf rest w)
  note IH = "1.IH" and prems = "1.prems"
  show ?case
  proof (cases "n \<le> length buf")
    case True
    with prems(2) show ?thesis by (intro exI [of _ w]) (simp add: fill.simps)
  next
    case False
    obtain x w1 where x: "next_io w = (x, w1)" by (cases "next_io w")
    have s1: "io_step w w1" "x \<noteq> IoFail" "quiet w1"
      using next_io_quiet [OF prems(1) x] io_step_quiet [OF _ prems(1)] by auto
    show ?thesis
    proof (cases "x = IoInterrupted")
      case True
      from IH(3) [OF False x [symmetric] True s1(3) prems(2)] obtain w' where
        "io_step w1 w'" "fill path n buf rest w1 = (Inr (if n \<le> length buf + length rest
          then (Complete (buf @ take (n - length buf) rest), drop (n - length buf) rest)
          else (if buf = [] \<and> rest = [] then Eof else Incomplete, [])), w')" by blast
      then show ?thesis using False True x s1(1) io_step_trans
        by (intro exI [of _ w']) (simp add: fill.simps [of path n buf rest w])
    next
      case ni: False
      then have read: "fill path n buf rest w =
          (if rest = [] then (Inr (if buf = [] then Eof else Incomplete, []), w1)
           else let k = (case x of IoShort k \<Rightarrow> max 1 k | _ \<Rightarrow> n);
                    m = min k (min (n - length buf) (length rest))
                in fill path n (buf @ take m rest) (drop m rest) w1)"
        using False x s1(2) by (cases x) (simp_all add: fill.simps [of path n buf rest w])
      show ?thesis
      proof (cases "rest = []")
        case True
        with read False s1(1) show ?thesis by auto
      next
        case rest: False
        define m where "m = min (case x of IoShort k \<Rightarrow> max 1 k | _ \<Rightarrow> n) (min (n - length buf) (length rest))"
        have m: "m \<le> n - length buf" "m \<le> length rest" by (simp_all add: m_def)
        from read rest have eq: "fill path n buf rest w = fill path n (buf @ take m rest) (drop m rest) w1"
          by (simp add: m_def Let_def)
        have len: "length (buf @ take m rest) \<le> n" using m False by simp
        obtain w' where w': "io_step w1 w'" "fill path n (buf @ take m rest) (drop m rest) w1 =
            (Inr (if n \<le> length (buf @ take m rest) + length (drop m rest)
              then (Complete ((buf @ take m rest) @ take (n - length (buf @ take m rest)) (drop m rest)),
                    drop (n - length (buf @ take m rest)) (drop m rest))
              else (if buf @ take m rest = [] \<and> drop m rest = [] then Eof else Incomplete, [])), w')"
        proof (cases x)
          case IoOk
          from IH(1) [OF False x [symmetric] IoOk rest refl m_def [unfolded IoOk] s1(3) len] that show thesis by blast
        next
          case (IoShort k)
          from IH(2) [OF False x [symmetric] IoShort rest refl m_def [unfolded IoShort] s1(3) len] that show thesis by blast
        qed (use ni s1(2) in simp_all)
        have "take m rest @ take (n - length (buf @ take m rest)) (drop m rest) = take (n - length buf) rest"
          using m(2) take_add [of m "n - length buf - m" rest]
          unfolding le_add_diff_inverse [OF m(1)] by simp
        then have c1: "(buf @ take m rest) @ take (n - length (buf @ take m rest)) (drop m rest) =
            buf @ take (n - length buf) rest" by simp
        have "n - (length buf + m) + m = n - length buf" using m(1) by simp
        then have c2: "drop (n - length (buf @ take m rest)) (drop m rest) = drop (n - length buf) rest"
          using m(2) by simp
        have c3: "(buf @ take m rest = [] \<and> drop m rest = []) = (buf = [] \<and> rest = [])"
          by (metis append_is_Nil_conv append_take_drop_id)
        have c4: "length (buf @ take m rest) + length (drop m rest) = length buf + length rest"
          using m(2) by simp
        show ?thesis
          using w'(2) io_step_trans [OF s1(1) w'(1)] unfolding eq c1 c2 c3 c4 by blast
      qed
    qed
  qed
qed

section \<open>Round trip of a record\<close>

text \<open>The bytes of a record, and the records that fit the format.\<close>

definition enc :: "(bytes \<Rightarrow> u32) \<Rightarrow> Record \<Rightarrow> bytes" where
  "enc crc r =
    (let fields = header_fields crc (rec_kind r) (rec_payload r)
     in (fields @ u32_le (crc fields)) @ rec_payload r)"

definition record_fits :: "Record \<Rightarrow> bool" where
  "record_fits r \<longleftrightarrow> kind_get (rec_kind r) \<noteq> 0 \<and> fits_u32 (length (rec_payload r))"

lemma fits_u32_iff: "fits_u32 n \<longleftrightarrow> n < 2 ^ 32"
  unfolding fits_u32_def by (metis of_nat_less_iff of_nat_numeral of_nat_power)

lemma encode_record_eq:
  "encode_record crc kind payload =
    (if fits_u32 (length payload) then Inr (enc crc \<lparr>rec_kind = kind, rec_payload = payload\<rparr>)
     else Inl (PayloadTooLarge (length payload)))"
  by (auto simp: encode_record_def encoded_len_def enc_def Let_def fits_u32_iff fits_u64_iff
      HEADER_LEN_def)

lemma encoded_len_eq:
  "encoded_len n = (if fits_u32 n then Inr (32 + n) else Inl (PayloadTooLarge n))"
  by (auto simp: encoded_len_def fits_u32_iff fits_u64_iff HEADER_LEN_def)

lemma le_lengths [simp]: "length (u16_le x) = 2" "length (u32_le y) = 4"
  by (simp_all add: u16_le_def u32_le_def)

lemma length_header_fields [simp]: "length (header_fields crc k p) = 28"
  by (simp add: header_fields_def)

lemma length_enc [simp]: "length (enc crc r) = 32 + length (rec_payload r)"
  by (simp add: enc_def Let_def)

lemma enc_not_Nil [simp]: "enc crc r \<noteq> []"
  using length_enc [of crc r] by (metis add_is_0 list.size(3) zero_neq_numeral)

lemma join_u16:
  "ucast (ucast x :: u8) OR push_bit 8 (ucast (ucast (drop_bit 8 x) :: u8)) = (x :: u16)"
  by (rule bit_word_eqI) (auto simp: bit_simps)

lemma join_u32:
  "ucast (ucast x :: u8) OR push_bit 8 (ucast (ucast (drop_bit 8 x) :: u8))
    OR push_bit 16 (ucast (ucast (drop_bit 16 x) :: u8))
    OR push_bit 24 (ucast (ucast (drop_bit 24 x) :: u8)) = (x :: u32)"
  apply (rule bit_word_eqI)
  apply (auto simp: bit_simps)
  subgoal for n by (cases "24 \<le> n") simp_all
  done

lemma read_u16_le: "read_u16 (xs @ u16_le x @ ys) (length xs) = x"
  by (simp add: read_u16_def u16_le_def nth_append join_u16)

lemma read_u32_le: "read_u32 (xs @ u32_le x @ ys) (length xs) = x"
  by (simp add: read_u32_def u32_le_def nth_append join_u32)

lemma header_fields_read:
  assumes "header = header_fields crc k p @ u32_le (crc (header_fields crc k p))"
  shows "read_u32 header 0 = MAGIC" "read_u16 header 4 = VERSION" "read_u16 header 6 = kind_get k"
    "read_u32 header 8 = of_nat (length p)" "read_u32 header 12 = crc p"
    "read_u32 header 28 = crc (header_fields crc k p)"
    "take HEADER_CRC_END header = header_fields crc k p"
proof -
  let ?a = "u32_le MAGIC" and ?b = "u16_le VERSION" and ?c = "u16_le (kind_get k)"
    and ?d = "u32_le (of_nat (length p))" and ?e = "u32_le (crc p)"
    and ?t = "u32_le (crc (header_fields crc k p))"
  have h: "header = ?a @ ?b @ ?c @ ?d @ ?e @ replicate 12 0 @ ?t"
    using assms by (simp add: header_fields_def)
  show "read_u32 header 0 = MAGIC" using read_u32_le [of "[]"] h by simp
  show "read_u16 header 4 = VERSION" using read_u16_le [of ?a] h by simp
  show "read_u16 header 6 = kind_get k" using read_u16_le [of "?a @ ?b"] h by simp
  show "read_u32 header 8 = of_nat (length p)" using read_u32_le [of "?a @ ?b @ ?c"] h by simp
  show "read_u32 header 12 = crc p" using read_u32_le [of "?a @ ?b @ ?c @ ?d"] h by simp
  show "read_u32 header 28 = crc (header_fields crc k p)"
    using read_u32_le [of "header_fields crc k p" _ "[]"] assms by simp
  show "take HEADER_CRC_END header = header_fields crc k p"
    using assms by (simp add: HEADER_CRC_END_def)
qed

lemma decode_header_enc:
  assumes "record_fits r"
  shows "decode_header crc (take HEADER_LEN (enc crc r)) lsn = Inr (rec_kind r)"
    "read_u32 (take HEADER_LEN (enc crc r)) 8 = of_nat (length (rec_payload r))"
    "read_u32 (take HEADER_LEN (enc crc r)) 12 = crc (rec_payload r)"
proof -
  have h: "take HEADER_LEN (enc crc r) = header_fields crc (rec_kind r) (rec_payload r)
      @ u32_le (crc (header_fields crc (rec_kind r) (rec_payload r)))"
    by (simp add: enc_def Let_def HEADER_LEN_def)
  note rd = header_fields_read [OF h]
  show "decode_header crc (take HEADER_LEN (enc crc r)) lsn = Inr (rec_kind r)"
    using assms rd by (simp add: decode_header_def Let_def record_kind_new_def record_fits_def)
  show "read_u32 (take HEADER_LEN (enc crc r)) 8 = of_nat (length (rec_payload r))"
    "read_u32 (take HEADER_LEN (enc crc r)) 12 = crc (rec_payload r)"
    using rd by simp_all
qed

lemma read_exact_quiet:
  assumes "quiet w"
  shows "\<exists>w'. io_step w w' \<and> read_exact_or_tail path n rest w =
    (Inr (if n \<le> length rest then (Complete (take n rest), drop n rest)
          else (if rest = [] then Eof else Incomplete, [])), w')"
proof -
  obtain w' where "io_step w w'" "fill path n [] rest w = (Inr (if n \<le> length rest
      then (Complete (take n rest), drop n rest)
      else (if rest = [] then Eof else Incomplete, [])), w')"
    using fill_quiet [OF assms, of "[]" n path rest] by auto
  then show ?thesis by (intro exI [of _ w']) (simp add: read_exact_or_tail_def)
qed

lemma payload_len_u64:
  assumes "fits_u32 n"
  shows "(ucast (of_nat n :: u32) :: u64) = of_nat n" "unat (of_nat n :: u32) = n"
  using assms by (simp_all add: fits_u32_iff unsigned_of_nat take_bit_nat_eq_self)

text \<open>Reading past an intact header of a record that fits the segment.\<close>

lemma read_one_header:
  assumes "quiet w" "record_fits r" "take 32 rest = take 32 (enc crc r)" "32 \<le> length rest"
    and "unat (lsn_offset lsn) + length (enc crc r) \<le> unat segment_size"
  shows "\<exists>w1. io_step w w1 \<and> read_one crc path rest lsn segment_size physical_len w =
    (if unat physical_len < unat (lsn_offset lsn) + length (enc crc r)
     then (Inr (ReadIncomplete, drop 32 rest), w1)
     else read_payload crc path (drop 32 rest) (rec_kind r) (take 32 (enc crc r)) lsn
            (lsn_offset lsn + of_nat (length (enc crc r))) w1)"
proof -
  let ?n = "length (rec_payload r)" and ?off = "lsn_offset lsn"
  have n: "?n < 2 ^ 32" using assms(2) by (simp add: record_fits_def fits_u32_iff)
  have tot: "unat (of_nat (32 + ?n) :: u64) = 32 + ?n" using n by (intro unat_u64_of_nat) simp
  obtain w1 where w1: "io_step w w1" "read_exact_or_tail path HEADER_LEN rest w =
      (Inr (Complete (take 32 (enc crc r)), drop 32 rest), w1)"
    using read_exact_quiet [OF assms(1), of path 32 rest] assms(3,4) by (auto simp: HEADER_LEN_def)
  have add1: "checked_add HEADER_LEN_U64 (of_nat ?n) = Some (of_nat (32 + ?n))"
    using tot n by (simp add: checked_add_Some_iff HEADER_LEN_U64_def unat_u64_of_nat)
  have sum: "unat ?off + (32 + ?n) < 2 ^ 64"
    using assms(5) unat_u64_lt [of segment_size] unfolding length_enc by linarith
  have nxt: "unat (?off + of_nat (32 + ?n)) = unat ?off + (32 + ?n)"
    using sum tot by (subst unat_u64_add) simp_all
  have add2: "checked_add ?off (of_nat (32 + ?n)) = Some (?off + of_nat (32 + ?n))"
    using nxt tot by (simp only: checked_add_Some_iff)
  have le: "\<not> segment_size < of_nat (32 + ?n)" "\<not> segment_size < ?off + of_nat (32 + ?n)"
    using assms(5) tot nxt by (simp_all add: word_less_nat_alt not_less del: of_nat_add)
  have cmp: "physical_len < ?off + of_nat (32 + ?n) \<longleftrightarrow> unat physical_len < unat ?off + (32 + ?n)"
    using nxt by (simp add: word_less_nat_alt del: of_nat_add)
  note hd = decode_header_enc [OF assms(2), unfolded HEADER_LEN_def]
  have "read_one crc path rest lsn segment_size physical_len w =
    (if physical_len < ?off + of_nat (32 + ?n) then (Inr (ReadIncomplete, drop 32 rest), w1)
     else read_payload crc path (drop 32 rest) (rec_kind r) (take 32 (enc crc r)) lsn
            (?off + of_nat (32 + ?n)) w1)"
    using w1(2) hd assms(2) add1 add2 le
    by (simp add: read_one_def payload_len_u64 record_fits_def Let_def del: of_nat_add)
  with w1(1) cmp show ?thesis by (intro exI [of _ w1]) simp
qed

lemma read_one_enc:
  assumes "quiet w" "record_fits r"
    and "unat (lsn_offset lsn) + length (enc crc r) \<le> unat segment_size"
    and "unat (lsn_offset lsn) + length (enc crc r) \<le> unat physical_len"
  shows "\<exists>w'. io_step w w' \<and> read_one crc path (enc crc r @ tl0) lsn segment_size physical_len w =
    (Inr (ReadRecord r (lsn_offset lsn + of_nat (length (enc crc r))), tl0), w')"
proof -
  have e: "drop 32 (enc crc r) = rec_payload r" by (simp add: enc_def Let_def)
  obtain w1 where w1: "io_step w w1" "read_one crc path (enc crc r @ tl0) lsn segment_size physical_len w =
      read_payload crc path (rec_payload r @ tl0) (rec_kind r) (take 32 (enc crc r)) lsn
        (lsn_offset lsn + of_nat (length (enc crc r))) w1"
    using read_one_header [OF assms(1,2), of "enc crc r @ tl0" crc lsn segment_size path physical_len]
      assms(3,4) e by auto
  obtain w' where w': "io_step w1 w'" "read_exact_or_tail path (length (rec_payload r))
      (rec_payload r @ tl0) w1 = (Inr (Complete (rec_payload r), tl0), w')"
    using read_exact_quiet [OF io_step_quiet [OF w1(1) assms(1)], of path "length (rec_payload r)"
        "rec_payload r @ tl0"] by auto
  note hd = decode_header_enc [OF assms(2), unfolded HEADER_LEN_def]
  show ?thesis
    using w1 w' hd assms(2) io_step_trans [OF w1(1) w'(1)]
    by (intro exI [of _ w']) (simp add: read_payload_def payload_len_u64 record_fits_def)
qed

text \<open>A record that was cut short is recognised as incomplete, wherever the cut is.\<close>

lemma read_one_torn:
  assumes "quiet w" "record_fits r" "k < length (enc crc r)"
    and "unat (lsn_offset lsn) + length (enc crc r) \<le> unat segment_size"
    and "unat physical_len = unat (lsn_offset lsn) + k"
  shows "\<exists>rest w'. io_step w w' \<and> read_one crc path (take k (enc crc r)) lsn segment_size physical_len w =
    (Inr (if k = 0 then ReadEof else ReadIncomplete, rest), w')"
proof (cases "k < 32")
  case True
  obtain w' where "io_step w w'" "read_exact_or_tail path 32 (take k (enc crc r)) w =
      (Inr (if k = 0 then Eof else Incomplete, []), w')"
    using read_exact_quiet [OF assms(1), of path 32 "take k (enc crc r)"] True by auto
  then show ?thesis by (intro exI [of _ "[]"] exI [of _ w']) (simp add: read_one_def HEADER_LEN_def)
next
  case False
  then have "take 32 (take k (enc crc r)) = take 32 (enc crc r)" "32 \<le> length (take k (enc crc r))"
    using assms(3) by (simp_all add: min_absorb1)
  from read_one_header [OF assms(1,2) this assms(4), of path physical_len] assms(3,5) False
  show ?thesis by auto
qed

section \<open>Appending bytes\<close>

text \<open>\<open>append_step path bs w w'\<close>: the call appended \<open>bs\<close> to the file and consumed script.\<close>

definition append_step :: "string \<Rightarrow> bytes \<Rightarrow> World \<Rightarrow> World \<Rightarrow> bool" where
  "append_step path bs w w' \<longleftrightarrow>
    (\<exists>s. set s \<subseteq> set (w_script w) \<and> w' = (append_file path bs w)\<lparr>w_script := s\<rparr>)"

lemma append_file_twice:
  "append_file path ys (append_file path xs w) = append_file path (xs @ ys) w"
proof -
  have "bm_insert path b (bm_insert path a m) = bm_insert path b m" for a b :: bytes and m
    by (rule bm.map_extensional) (simp add: bm_get_insert)
  then show ?thesis by (simp add: append_file_def file_content_def bm_get_insert)
qed

lemma append_step_cons:
  assumes "io_step w w1" "append_step path ys (append_file path xs w1) w'"
  shows "append_step path (xs @ ys) w w'"
proof -
  obtain s1 s2 where s: "w1 = w\<lparr>w_script := s1\<rparr>" "set s1 \<subseteq> set (w_script w)"
    "set s2 \<subseteq> set (w_script (append_file path xs w1))"
    "w' = (append_file path ys (append_file path xs w1))\<lparr>w_script := s2\<rparr>"
    using assms by (auto simp: io_step_def append_step_def)
  then show ?thesis unfolding append_step_def append_file_twice
    by (intro exI [of _ s2]) (auto simp: append_file_def file_content_def)
qed

lemma append_step_io:
  assumes "io_step w w1" "append_step path bs w1 w'"
  shows "append_step path bs w w'"
proof -
  obtain s1 s2 where "w1 = w\<lparr>w_script := s1\<rparr>" "set s1 \<subseteq> set (w_script w)"
    "set s2 \<subseteq> set (w_script w1)" "w' = (append_file path bs w1)\<lparr>w_script := s2\<rparr>"
    using assms by (auto simp: io_step_def append_step_def)
  then show ?thesis unfolding append_step_def
    by (intro exI [of _ s2]) (auto simp: append_file_def file_content_def)
qed

text \<open>A write appends all its bytes, or fails after a part of them; without failing calls it
  does not fail.\<close>

lemma write_all_cases:
  assumes "bm_get (w_files w) path \<noteq> None"
  shows "(\<exists>w'. write_all path bs w = (Inr (), w') \<and> (bs = [] \<and> w' = w \<or> append_step path bs w w'))
    \<or> (\<exists>w' k. write_all path bs w = (Inl (Io path), w') \<and> k < length bs
          \<and> (k = 0 \<and> io_step w w' \<or> append_step path (take k bs) w w') \<and> \<not> quiet w)"
  using assms
proof (induction path bs w rule: write_all.induct)
  case (1 path bs w)
  note IH = "1.IH" and prems = "1.prems"
  obtain x w1 where x: "next_io w = (x, w1)" by (cases "next_io w")
  have s1: "io_step w w1" "x = IoOk \<or> x \<in> set (w_script w)" using next_io_step [OF x] by auto
  have q1: "\<not> quiet w1 \<Longrightarrow> \<not> quiet w" using io_step_quiet [OF s1(1)] by blast
  have f1: "bm_get (w_files w1) path \<noteq> None" using prems io_step_frame(1) [OF s1(1)] by simp
  show ?case
  proof (cases "bs = []")
    case True
    then show ?thesis by (simp add: write_all.simps)
  next
    case ne: False
    show ?thesis
    proof (cases x)
      case IoFail
      then have "write_all path bs w = (Inl (Io path), w1)" using x ne by (simp add: write_all.simps)
      moreover have "\<not> quiet w" using IoFail s1(2) by (simp add: quiet_def)
      ultimately show ?thesis using ne s1(1) by blast
    next
      case IoInterrupted
      then have eq: "write_all path bs w = write_all path bs w1"
        using x ne by (simp add: write_all.simps [of path bs w])
      from IH(2) [OF ne x [symmetric] IoInterrupted f1] show ?thesis
        unfolding eq using append_step_io [OF s1(1)] io_step_trans [OF s1(1)] q1 ne by metis
    next
      case IoOk
      then have "write_all path bs w = (Inr (), append_file path bs w1)"
        using x ne by (simp add: write_all.simps)
      moreover have "append_step path bs w (append_file path bs w1)"
        by (rule append_step_io [OF s1(1)])
           (auto simp: append_step_def append_file_def intro: exI [of _ "w_script w1"])
      ultimately show ?thesis by blast
    next
      case (IoShort j)
      define m where "m = min (max 1 j) (length bs)"
      let ?w = "append_file path (take m bs) w1"
      have eq: "write_all path bs w = write_all path (drop m bs) ?w"
        using x ne IoShort by (simp add: write_all.simps [of path bs w] m_def Let_def)
      have m: "0 < m" "m \<le> length bs" using ne by (auto simp: m_def)
      have f2: "bm_get (w_files ?w) path \<noteq> None" by (simp add: append_file_def bm_get_insert)
      have q2: "\<not> quiet ?w \<Longrightarrow> \<not> quiet w" using q1 by (simp add: quiet_def append_file_def)
      from IH(1) [OF ne x [symmetric] IoShort m_def f2] show ?thesis
      proof (elim disjE exE conjE)
        fix w' assume w': "write_all path (drop m bs) ?w = (Inr (), w')" "drop m bs = []" "w' = ?w"
        then have "append_step path bs w w'"
          by (intro append_step_io [OF s1(1)])
             (auto simp: append_step_def append_file_def intro: exI [of _ "w_script w1"])
        then show ?thesis unfolding eq w'(1) by blast
      next
        fix w' assume w': "write_all path (drop m bs) ?w = (Inr (), w')" "append_step path (drop m bs) ?w w'"
        from append_step_cons [OF s1(1) w'(2)] show ?thesis unfolding eq w'(1) by simp
      next
        fix w' k assume w': "write_all path (drop m bs) ?w = (Inl (Io path), w')" "k < length (drop m bs)"
          "\<not> quiet ?w" "k = 0" "io_step ?w w'"
        then have "append_step path (take m bs) w w'"
          by (intro append_step_io [OF s1(1)])
             (auto simp: append_step_def io_step_def append_file_def)
        then show ?thesis unfolding eq w'(1) using w'(2,3) q2 by fastforce
      next
        fix w' k assume w': "write_all path (drop m bs) ?w = (Inl (Io path), w')" "k < length (drop m bs)"
          "\<not> quiet ?w" "append_step path (take k (drop m bs)) ?w w'"
        have "append_step path (take (m + k) bs) w w'"
          using append_step_cons [OF s1(1) w'(4)] by (simp add: take_add)
        then show ?thesis unfolding eq w'(1) using w'(2,3) q2 by (auto intro: exI [of _ "m + k"])
      qed
    qed
  qed
qed

end
