(* ===== verification/WalSegment.thy ===== *)
theory WalSegment
  imports WalFormat
begin

text \<open>
  The write-ahead log, part two: segment files (\<open>basisdb-wal/src/segment.rs\<close>). A segment is the
  file \<open>{id:020}.wal\<close> of the directory; recovery scans the segments in order, truncates an
  incomplete record at the end of the last one, and refuses any other damage.

  The directory itself exists here; \<open>create_dir_all\<close>, which makes it, is in \<open>WalDir\<close>.
\<close>

section \<open>File names\<close>

definition SEGMENT_SUFFIX :: string where "SEGMENT_SUFFIX = ''wal''"
definition LOCK_FILE :: string where "LOCK_FILE = ''LOCK''"

definition segment_path :: "u64 \<Rightarrow> string" where
  "segment_path segment_id = show_u64_020 segment_id @ ''.wal''"

text \<open>\<open>Path::file_stem\<close> and \<open>Path::extension\<close>: the name is split at its last dot, and a name
  whose only dot is the first character has no extension.\<close>

definition split_name :: "string \<Rightarrow> string \<times> string option" where
  "split_name name =
    (if CHR ''.'' \<notin> set name then (name, None)
     else
       let after = rev (takeWhile (\<lambda>c. c \<noteq> CHR ''.'') (rev name));
           before = rev (tl (dropWhile (\<lambda>c. c \<noteq> CHR ''.'') (rev name)))
       in if before = [] then (name, None) else (before, Some after))"

definition segment_id :: "string \<Rightarrow> WalError + u64" where
  "segment_id path =
    (case parse_u64 (fst (split_name path)) of
       Some i \<Rightarrow> Inr i
     | None \<Rightarrow> Inl (BadSegmentName path))"

fun collect_ids :: "string list \<Rightarrow> u64 list \<Rightarrow> World \<Rightarrow> (WalError + u64 list) \<times> World" where
  "collect_ids [] ids w = (Inr ids, w)"
| "collect_ids (name # names) ids w =
    io_bind (io_call [] w) (\<lambda>_ w.
      if snd (split_name name) = Some SEGMENT_SUFFIX then
        (case segment_id name of
           Inl e \<Rightarrow> (Inl e, w)
         | Inr i \<Rightarrow> collect_ids names (ids @ [i]) w)
      else collect_ids names ids w)"

fun check_ids :: "u64 \<Rightarrow> u64 list \<Rightarrow> WalError + unit" where
  "check_ids expected [] = Inr ()"
| "check_ids expected (found # rest) =
    (if found \<noteq> expected then Inl (MissingSegment expected found)
     else check_ids (expected + 1) rest)"

definition segment_ids :: "World \<Rightarrow> (WalError + u64 list) \<times> World" where
  "segment_ids w =
    io_bind (io_call [] w) (\<lambda>_ w.
    io_bind (collect_ids (bm_keys (w_files w)) [] w) (\<lambda>ids w.
      let ids = sort ids in
      case check_ids 0 ids of
        Inl e \<Rightarrow> (Inl e, w)
      | Inr _ \<Rightarrow> (Inr ids, w)))"

section \<open>Files of the directory\<close>

definition create_file :: "string \<Rightarrow> World \<Rightarrow> (WalError + unit) \<times> World" where
  "create_file path w =
    io_bind (io_call path w) (\<lambda>_ w. (Inr (), w\<lparr>w_files := bm_insert path [] (w_files w)\<rparr>))"

definition open_segment :: "u64 \<Rightarrow> World \<Rightarrow> (WalError + unit) \<times> World" where
  "open_segment i w =
    io_bind (io_call (segment_path i) w) (\<lambda>_ w.
      (Inr (), w\<lparr>w_files := bm_insert (segment_path i) (file_content w (segment_path i)) (w_files w)\<rparr>))"

definition wal_lock :: "World \<Rightarrow> (WalError + unit) \<times> World" where
  "wal_lock w =
    io_bind (io_call LOCK_FILE w) (\<lambda>_ w.
      let w = w\<lparr>w_files := bm_insert LOCK_FILE (file_content w LOCK_FILE) (w_files w)\<rparr> in
      if w_locked w then (Inl (Locked LOCK_FILE), w)
      else io_bind (io_call LOCK_FILE w) (\<lambda>_ w. (Inr (), w\<lparr>w_locked := True\<rparr>)))"

definition segment_len :: "u64 \<Rightarrow> World \<Rightarrow> (WalError + u64) \<times> World" where
  "segment_len i w = metadata_len (segment_path i) w"

fun sum_lens :: "u64 \<Rightarrow> u64 list \<Rightarrow> World \<Rightarrow> (WalError + u64) \<times> World" where
  "sum_lens acc [] w = (Inr acc, w)"
| "sum_lens acc (i # rest) w =
    io_bind (segment_len i w) (\<lambda>len w.
      case checked_add acc len of
        None \<Rightarrow> (Inl (WalFull u64_max u64_max), w)
      | Some acc \<Rightarrow> sum_lens acc rest w)"

definition wal_total_len :: "World \<Rightarrow> (WalError + u64) \<times> World" where
  "wal_total_len w = io_bind (segment_ids w) (\<lambda>ids w. sum_lens 0 ids w)"

definition set_len :: "string \<Rightarrow> nat \<Rightarrow> World \<Rightarrow> World" where
  "set_len path n w =
    (let c = file_content w path
     in w\<lparr>w_files := bm_insert path (take n c @ replicate (n - length c) 0) (w_files w)\<rparr>)"

definition truncate_segment :: "u64 \<Rightarrow> u64 \<Rightarrow> World \<Rightarrow> (WalError + unit) \<times> World" where
  "truncate_segment i len w =
    io_bind (open_file (segment_path i) w) (\<lambda>_ w.
    io_bind (io_call (segment_path i) w) (\<lambda>_ w.
      sync_file (segment_path i) (set_len (segment_path i) (unat len) w)))"

section \<open>Scanning\<close>

datatype SegmentScan = Clean u64 | IncompleteTail u64

text \<open>Reading a record consumes its header at least, so a scan ends.\<close>

lemma fill_consumes:
  assumes "fill path n buf rest w = (Inr (Complete b, rest'), w')" "length buf \<le> n"
  shows "length buf + length rest = length rest' + n"
  using assms
proof (induction path n buf rest w rule: fill.induct)
  case (1 path n buf rest w)
  note IH = "1.IH" and prems = "1.prems"
  show ?case
  proof (cases "n \<le> length buf")
    case True
    with prems show ?thesis by (simp add: fill.simps)
  next
    case False
    obtain x w1 where x: "next_io w = (x, w1)" by (cases "next_io w")
    define m where "m = min (case x of IoShort k \<Rightarrow> max 1 k | _ \<Rightarrow> n) (min (n - length buf) (length rest))"
    have len: "length (buf @ take m rest) \<le> n" using False by (simp add: m_def)
    have sum: "length (buf @ take m rest) + length (drop m rest) = length buf + length rest"
      by (simp add: m_def)
    have unf: "fill path n buf rest w = (Inr (Complete b, rest'), w')" by (rule prems(1))
    show ?thesis
    proof (cases x)
      case IoFail
      with unf False x show ?thesis by (simp add: fill.simps [of path n buf rest w])
    next
      case IoInterrupted
      from IH(3) [OF False x [symmetric] IoInterrupted _ prems(2)] unf False x IoInterrupted
      show ?thesis by (simp add: fill.simps [of path n buf rest w])
    next
      case IoOk
      with unf False x have rest: "rest \<noteq> []" by (auto simp: fill.simps [of path n buf rest w] split: if_splits)
      from IH(1) [OF False x [symmetric] IoOk rest refl m_def [unfolded IoOk] _ len]
        unf False x IoOk rest sum show ?thesis
        by (simp add: fill.simps [of path n buf rest w] m_def Let_def)
    next
      case (IoShort k)
      with unf False x have rest: "rest \<noteq> []" by (auto simp: fill.simps [of path n buf rest w] split: if_splits)
      from IH(2) [OF False x [symmetric] IoShort rest refl m_def [unfolded IoShort] _ len]
        unf False x IoShort rest sum show ?thesis
        by (simp add: fill.simps [of path n buf rest w] m_def Let_def)
    qed
  qed
qed

lemma read_exact_consumes:
  "read_exact_or_tail path n rest w = (Inr (Complete b, rest'), w') \<Longrightarrow> length rest = length rest' + n"
  using fill_consumes [of path n "[]" rest w b rest' w'] by (simp add: read_exact_or_tail_def)

lemma read_one_consumes:
  assumes "read_one crc path rest lsn segment_size physical_len w = (Inr (ReadRecord r n, rest'), w')"
  shows "length rest' < length rest"
proof -
  obtain x rest1 w1 where x: "read_exact_or_tail path HEADER_LEN rest w = (Inr (x, rest1), w1)"
    using assms by (auto simp: read_one_def io_bind_Inr_iff)
  with assms obtain header kind next_offset where h: "x = Complete header"
    and p: "read_payload crc path rest1 kind header lsn next_offset w1 = (Inr (ReadRecord r n, rest'), w')"
    by (auto simp: read_one_def Let_def split: ReadExact.splits sum.splits option.splits if_splits)
  from p obtain y rest2 w2 where
    y: "read_exact_or_tail path (unat (read_u32 header 8)) rest1 w1 = (Inr (y, rest2), w2)"
    by (auto simp: read_payload_def io_bind_Inr_iff)
  with p obtain payload where
    "read_exact_or_tail path (unat (read_u32 header 8)) rest1 w1 = (Inr (Complete payload, rest'), w2)"
    by (cases y) (auto simp: read_payload_def split: if_splits)
  from read_exact_consumes [OF this] read_exact_consumes [OF x [unfolded h]] show ?thesis
    by (simp add: HEADER_LEN_def)
qed

function scan ::
    "(bytes \<Rightarrow> u32) \<Rightarrow> u64 \<Rightarrow> u64 \<Rightarrow> u64 \<Rightarrow> u64 \<Rightarrow> bytes \<Rightarrow> World \<Rightarrow> (WalError + SegmentScan) \<times> World" where
  "scan crc i segment_size physical_len offset rest w =
    (case read_one crc (segment_path i) rest \<lparr>lsn_segment = i, lsn_offset = offset\<rparr>
            segment_size physical_len w of
       (Inl e, w) \<Rightarrow> (Inl e, w)
     | (Inr (ReadRecord r next_offset, rest), w) \<Rightarrow>
         scan crc i segment_size physical_len next_offset rest w
     | (Inr (ReadEof, rest), w) \<Rightarrow> (Inr (Clean offset), w)
     | (Inr (ReadIncomplete, rest), w) \<Rightarrow> (Inr (IncompleteTail offset), w))"
  by pat_completeness auto
termination
  by (relation "measure (\<lambda>(crc, i, ss, pl, off, rest, w). length rest)")
     (auto dest: read_one_consumes [OF sym])

declare scan.simps [simp del]

definition valid_len :: "(bytes \<Rightarrow> u32) \<Rightarrow> u64 \<Rightarrow> u64 \<Rightarrow> World \<Rightarrow> (WalError + SegmentScan) \<times> World" where
  "valid_len crc i segment_size w =
    io_bind (open_file (segment_path i) w) (\<lambda>file w.
    io_bind (metadata_len (segment_path i) w) (\<lambda>physical_len w.
      scan crc i segment_size physical_len 0 file w))"

fun recover_loop ::
    "(bytes \<Rightarrow> u32) \<Rightarrow> u64 \<Rightarrow> u64 list \<Rightarrow> World \<Rightarrow> (WalError + (u64 \<times> u64) option) \<times> World" where
  "recover_loop crc segment_size [] w = (Inr None, w)"
| "recover_loop crc segment_size (i # rest) w =
    io_bind (valid_len crc i segment_size w) (\<lambda>r w.
      case r of
        Clean len \<Rightarrow>
          if rest = [] then (Inr (Some (i, len)), w) else recover_loop crc segment_size rest w
      | IncompleteTail len \<Rightarrow>
          if rest \<noteq> []
          then (Inl (CorruptRecord \<lparr>lsn_segment = i, lsn_offset = len\<rparr> IncompleteRecord), w)
          else io_bind (truncate_segment i len w) (\<lambda>_ w. (Inr (Some (i, len)), w)))"

definition wal_recover :: "(bytes \<Rightarrow> u32) \<Rightarrow> u64 \<Rightarrow> World \<Rightarrow> (WalError + u64 \<times> u64) \<times> World" where
  "wal_recover crc segment_size w =
    io_bind (segment_ids w) (\<lambda>ids w.
    io_bind (if ids = [] then
               io_bind (create_file (segment_path 0) w) (\<lambda>_ w.
               io_bind (sync_dir w) (\<lambda>_ w. (Inr [0], w)))
             else (Inr ids, w)) (\<lambda>ids w.
    io_bind (recover_loop crc segment_size ids w) (\<lambda>r w.
      case r of
        Some x \<Rightarrow> (Inr x, w)
      | None \<Rightarrow>
          if ids = [] then (Inl SegmentIdExhausted, w)
          else io_bind (segment_len (last ids) w) (\<lambda>len w. (Inr (last ids, len), w)))))"

section \<open>Reading a segment\<close>

record SegmentReader =
  rd_segment_id :: u64
  rd_segment_size :: u64
  rd_physical_len :: u64
  rd_offset :: u64
  rd_file :: bytes

definition reader_open :: "u64 \<Rightarrow> u64 \<Rightarrow> World \<Rightarrow> (WalError + SegmentReader) \<times> World" where
  "reader_open i segment_size w =
    io_bind (open_file (segment_path i) w) (\<lambda>file w.
    io_bind (metadata_len (segment_path i) w) (\<lambda>physical_len w.
      (Inr \<lparr>rd_segment_id = i, rd_segment_size = segment_size, rd_physical_len = physical_len,
            rd_offset = 0, rd_file = file\<rparr>, w)))"

definition next_record ::
    "(bytes \<Rightarrow> u32) \<Rightarrow> SegmentReader \<Rightarrow> World
      \<Rightarrow> (WalError + StoredRecord option \<times> SegmentReader) \<times> World" where
  "next_record crc rd w =
    (let lsn = \<lparr>lsn_segment = rd_segment_id rd, lsn_offset = rd_offset rd\<rparr> in
     io_bind (read_one crc (segment_path (rd_segment_id rd)) (rd_file rd) lsn
                (rd_segment_size rd) (rd_physical_len rd) w) (\<lambda>(r, rest) w.
       let rd = rd\<lparr>rd_file := rest\<rparr> in
       case r of
         ReadRecord record next_offset \<Rightarrow>
           (Inr (Some \<lparr>sr_lsn = lsn, sr_record = record\<rparr>, rd\<lparr>rd_offset := next_offset\<rparr>), w)
       | ReadEof \<Rightarrow> (Inr (None, rd), w)
       | ReadIncomplete \<Rightarrow> (Inl (CorruptRecord lsn IncompleteRecord), w)))"

section \<open>What a directory holds\<close>

text \<open>
  \<open>seg_bytes crc rs\<close> is a segment with the records \<open>rs\<close>. \<open>torn_tail crc ss n t\<close>: \<open>t\<close> is what a
  write that stopped early leaves behind \<open>n\<close> bytes of a segment of size \<open>ss\<close>. \<open>wal_disk\<close>: the
  directory has the segments \<open>segs\<close>, in order and without a gap, the last one followed by \<open>t\<close>.
\<close>

definition seg_bytes :: "(bytes \<Rightarrow> u32) \<Rightarrow> Record list \<Rightarrow> bytes" where
  "seg_bytes crc rs = concat (map (enc crc) rs)"

definition torn_tail :: "(bytes \<Rightarrow> u32) \<Rightarrow> u64 \<Rightarrow> nat \<Rightarrow> bytes \<Rightarrow> bool" where
  "torn_tail crc ss n t \<longleftrightarrow> t = [] \<or>
    (\<exists>r k. record_fits r \<and> k < length (enc crc r) \<and> t = take k (enc crc r)
      \<and> n + length (enc crc r) \<le> unat ss)"

definition wal_names :: "(string, bytes) btreemap \<Rightarrow> nat \<Rightarrow> bool" where
  "wal_names files n \<longleftrightarrow>
    (\<forall>p. bm_get files p \<noteq> None \<and> snd (split_name p) = Some SEGMENT_SUFFIX
      \<longrightarrow> (\<exists>i<n. p = segment_path (of_nat i)))"

definition wal_disk :: "(bytes \<Rightarrow> u32) \<Rightarrow> u64 \<Rightarrow> World \<Rightarrow> Record list list \<Rightarrow> bytes \<Rightarrow> bool" where
  "wal_disk crc ss w segs t \<longleftrightarrow>
    segs \<noteq> [] \<and> length segs \<le> 2 ^ 64
    \<and> (\<forall>seg\<in>set segs. \<forall>r\<in>set seg. record_fits r)
    \<and> (\<forall>seg\<in>set segs. length (seg_bytes crc seg) \<le> unat ss)
    \<and> torn_tail crc ss (length (seg_bytes crc (last segs))) t
    \<and> (\<forall>i<length segs. bm_get (w_files w) (segment_path (of_nat i)) =
          Some (seg_bytes crc (segs ! i) @ (if Suc i = length segs then t else [])))
    \<and> wal_names (w_files w) (length segs)"

lemma seg_bytes_simps [simp]:
  "seg_bytes crc [] = []"
  "seg_bytes crc (r # rs) = enc crc r @ seg_bytes crc rs"
  "seg_bytes crc (rs @ rs') = seg_bytes crc rs @ seg_bytes crc rs'"
  by (simp_all add: seg_bytes_def)

lemma seg_bytes_eq_Nil [simp]: "seg_bytes crc rs = [] \<longleftrightarrow> rs = []"
  by (cases rs) simp_all

lemma torn_tail_len: "torn_tail crc ss n t \<Longrightarrow> n \<le> unat ss \<Longrightarrow> n + length t \<le> unat ss"
  by (auto simp: torn_tail_def)

lemma torn_tail_Nil [simp]: "torn_tail crc ss n []"
  by (simp add: torn_tail_def)

text \<open>Names: a segment's path gives its id back, and only such paths have the suffix.\<close>

lemma split_segment_path: "split_name (segment_path i) = (show_u64_020 i, Some SEGMENT_SUFFIX)"
proof -
  have "show_u64_020 i \<noteq> []"
    using decimal_digits by (simp add: show_u64_020_def show_u64_def)
  then show ?thesis
    by (simp add: split_name_def segment_path_def SEGMENT_SUFFIX_def Let_def)
qed

lemma segment_id_path: "segment_id (segment_path i) = Inr i"
  by (simp add: segment_id_def split_segment_path parse_show_u64_020)

lemma segment_path_inject [simp]: "segment_path i = segment_path j \<longleftrightarrow> i = j"
  by (simp add: segment_path_def)

lemma of_nat_u64_inj: "m < 2 ^ 64 \<Longrightarrow> n < 2 ^ 64 \<Longrightarrow> (of_nat m :: u64) = of_nat n \<longleftrightarrow> m = n"
  by (metis unat_u64_of_nat)

lemma LOCK_no_segment: "snd (split_name LOCK_FILE) \<noteq> Some SEGMENT_SUFFIX"
  by (simp add: split_name_def LOCK_FILE_def)

lemma segment_not_LOCK [simp]: "segment_path i \<noteq> LOCK_FILE"
  using LOCK_no_segment split_segment_path by (metis snd_conv)

section \<open>Listing the segments\<close>

lemma collect_ids_quiet:
  assumes "quiet w" "\<forall>p\<in>set names. snd (split_name p) = Some SEGMENT_SUFFIX \<longrightarrow> (\<exists>i. p = segment_path i)"
  shows "\<exists>w' js. io_step w w' \<and> collect_ids names ids w = (Inr (ids @ js), w')
    \<and> map segment_path js = filter (\<lambda>p. snd (split_name p) = Some SEGMENT_SUFFIX) names"
  using assms
proof (induction names arbitrary: ids w)
  case Nil
  then show ?case by (intro exI [of _ w]) simp
next
  case (Cons p names)
  obtain w1 where w1: "io_call [] w = (Inr (), w1)" "io_step w w1" using io_call_quiet [OF Cons.prems(1)] by blast
  note IH = Cons.IH [OF io_step_quiet [OF w1(2) Cons.prems(1)]]
  show ?case
  proof (cases "snd (split_name p) = Some SEGMENT_SUFFIX")
    case True
    then obtain i where i: "p = segment_path i" using Cons.prems(2) by auto
    from IH [of "ids @ [i]"] Cons.prems(2) obtain w' js where "io_step w1 w'"
      "collect_ids names (ids @ [i]) w1 = (Inr (ids @ i # js), w')"
      "map segment_path js = filter (\<lambda>p. snd (split_name p) = Some SEGMENT_SUFFIX) names" by auto
    with w1 True i io_step_trans show ?thesis
      by (intro exI [of _ w'] exI [of _ "i # js"]) (auto simp: segment_id_path)
  next
    case False
    from IH [of ids] Cons.prems(2) obtain w' js where "io_step w1 w'"
      "collect_ids names ids w1 = (Inr (ids @ js), w')"
      "map segment_path js = filter (\<lambda>p. snd (split_name p) = Some SEGMENT_SUFFIX) names" by auto
    with w1 False io_step_trans show ?thesis
      by (intro exI [of _ w'] exI [of _ js]) auto
  qed
qed

lemma check_ids_upt: "check_ids (of_nat m) (map of_nat [m..<n]) = Inr ()"
proof (induction "n - m" arbitrary: m)
  case (Suc k)
  then have "m < n" "k = n - Suc m" by simp_all
  with Suc.hyps(1) [of "Suc m"] show ?case by (simp add: upt_conv_Cons add.commute)
qed simp

lemma sorted_of_nat_u64: "n \<le> 2 ^ 64 \<Longrightarrow> sorted (map (of_nat :: nat \<Rightarrow> u64) [0..<n])"
  by (auto simp: sorted_iff_nth_mono word_le_nat_alt unat_u64_of_nat)

lemma segment_ids_quiet:
  assumes "quiet w" "wal_names (w_files w) n" "n \<le> 2 ^ 64"
    and "\<forall>i<n. bm_get (w_files w) (segment_path (of_nat i)) \<noteq> None"
  shows "\<exists>w'. io_step w w' \<and> segment_ids w = (Inr (map of_nat [0..<n]), w')"
proof -
  let ?wal = "\<lambda>p. snd (split_name p) = Some SEGMENT_SUFFIX"
  obtain w1 where w1: "io_call [] w = (Inr (), w1)" "io_step w w1" using io_call_quiet [OF assms(1)] by blast
  have "\<forall>p\<in>set (bm_keys (w_files w)). ?wal p \<longrightarrow> (\<exists>i. p = segment_path i)"
    using assms(2) by (auto simp: wal_names_def bm_keys_iff)
  from collect_ids_quiet [OF io_step_quiet [OF w1(2) assms(1)] this, of "[]"] obtain w' js where
    w': "io_step w1 w'" "collect_ids (bm_keys (w_files w)) [] w1 = (Inr js, w')"
    and js: "map segment_path js = filter ?wal (bm_keys (w_files w))" by auto
  have "distinct (map segment_path js)" unfolding js by simp
  then have d: "distinct js" by (simp add: distinct_map)
  have mem: "i \<in> set js \<longleftrightarrow> segment_path i \<in> set (map segment_path js)" for i by auto
  have set: "set js = of_nat ` {..<n}"
  proof (intro set_eqI iffI)
    fix i assume "i \<in> set js"
    then have "bm_get (w_files w) (segment_path i) \<noteq> None"
      unfolding mem js by (simp add: bm_keys_iff)
    then show "i \<in> of_nat ` {..<n}"
      using assms(2) split_segment_path [of i] unfolding wal_names_def by fastforce
  next
    fix i :: u64 assume "i \<in> of_nat ` {..<n}"
    then show "i \<in> set js" unfolding mem js using assms(4)
      by (auto simp: bm_keys_iff split_segment_path)
  qed
  have "distinct (map (of_nat :: nat \<Rightarrow> u64) [0..<n])"
    unfolding distinct_map
  proof (intro conjI inj_onI)
    fix x y assume "x \<in> set [0..<n]" "y \<in> set [0..<n]" "(of_nat x :: u64) = of_nat y"
    then show "x = y" using of_nat_u64_inj [of x y] assms(3) by (metis atLeastLessThan_iff less_le_trans set_upt)
  qed simp
  then have "sort js = map of_nat [0..<n]"
    using d set sorted_of_nat_u64 [of n] assms(3)
    by (intro sorted_distinct_set_unique) (simp_all add: lessThan_atLeast0 del: distinct_map)
  then show ?thesis using w1 w' io_step_trans check_ids_upt [of 0 n]
    by (intro exI [of _ w']) (simp add: segment_ids_def io_step_frame)
qed

section \<open>Scanning and recovery\<close>

lemma read_one_Nil:
  assumes "quiet w"
  shows "\<exists>w'. io_step w w' \<and> read_one crc path [] lsn ss pl w = (Inr (ReadEof, []), w')"
  using read_exact_quiet [OF assms, of path 32 "[]"] by (auto simp: read_one_def HEADER_LEN_def)

lemma scan_quiet:
  assumes "quiet w" "\<forall>r\<in>set rs. record_fits r"
    and "unat off + length (seg_bytes crc rs) \<le> unat ss"
    and "torn_tail crc ss (unat off + length (seg_bytes crc rs)) t"
    and "unat pl = unat off + length (seg_bytes crc rs) + length t"
  shows "\<exists>w'. io_step w w' \<and> scan crc i ss pl off (seg_bytes crc rs @ t) w =
    (Inr ((if t = [] then Clean else IncompleteTail) (off + of_nat (length (seg_bytes crc rs)))), w')"
  using assms
proof (induction rs arbitrary: off w)
  case Nil
  show ?case
  proof (cases "t = []")
    case True
    from read_one_Nil [OF Nil.prems(1)] obtain w' where "io_step w w'"
      "read_one crc (segment_path i) [] \<lparr>lsn_segment = i, lsn_offset = off\<rparr> ss pl w = (Inr (ReadEof, []), w')"
      by blast
    with True show ?thesis by (intro exI [of _ w']) (simp add: scan.simps [of crc i ss pl off "[]"])
  next
    case False
    with Nil.prems(4) obtain r k where r: "record_fits r" "k < length (enc crc r)" "t = take k (enc crc r)"
      "unat off + length (enc crc r) \<le> unat ss" by (auto simp: torn_tail_def)
    have "k \<noteq> 0" using False r(3) by (intro notI) simp
    moreover have "unat pl = unat off + k" using Nil.prems(5) r(2,3) by simp
    ultimately obtain rest w' where "io_step w w'"
      "read_one crc (segment_path i) t \<lparr>lsn_segment = i, lsn_offset = off\<rparr> ss pl w = (Inr (ReadIncomplete, rest), w')"
      using read_one_torn [OF Nil.prems(1) r(1,2), of "\<lparr>lsn_segment = i, lsn_offset = off\<rparr>" ss pl "segment_path i"] r
      by auto
    with False show ?thesis by (intro exI [of _ w']) (simp add: scan.simps [of crc i ss pl off t])
  qed
next
  case (Cons r rs)
  let ?lsn = "\<lparr>lsn_segment = i, lsn_offset = off\<rparr>" and ?n = "length (enc crc r)"
  have fit: "unat off + ?n \<le> unat ss" "unat off + ?n \<le> unat pl" using Cons.prems(3,5) by simp_all
  from read_one_enc [OF Cons.prems(1), of r ?lsn crc ss pl "segment_path i" "seg_bytes crc rs @ t"]
    Cons.prems(2) fit obtain w1 where w1: "io_step w w1"
      "read_one crc (segment_path i) (enc crc r @ seg_bytes crc rs @ t) ?lsn ss pl w =
        (Inr (ReadRecord r (off + of_nat ?n), seg_bytes crc rs @ t), w1)"
    by (auto simp del: length_enc)
  have lt: "unat off + ?n < 2 ^ 64" using fit(1) unat_u64_lt [of ss] by (rule le_less_trans)
  then have "unat (of_nat ?n :: u64) = ?n" by (intro unat_u64_of_nat) simp
  with lt have u: "unat (off + of_nat ?n) = unat off + ?n" by (subst unat_u64_add) simp_all
  from Cons.IH [OF io_step_quiet [OF w1(1) Cons.prems(1)], of "off + of_nat ?n"] Cons.prems(2-5)
  obtain w' where w': "io_step w1 w'" "scan crc i ss pl (off + of_nat ?n) (seg_bytes crc rs @ t) w1 =
      (Inr ((if t = [] then Clean else IncompleteTail)
        (off + of_nat ?n + of_nat (length (seg_bytes crc rs)))), w')"
    unfolding u by (auto simp: add.assoc)
  have "scan crc i ss pl off (seg_bytes crc (r # rs) @ t) w =
      scan crc i ss pl (off + of_nat ?n) (seg_bytes crc rs @ t) w1"
    using w1(2) by (subst scan.simps) simp
  with w' io_step_trans [OF w1(1) w'(1)] show ?case
    by (intro exI [of _ w']) (simp add: add.assoc)
qed

lemma open_file_quiet:
  assumes "quiet w" "bm_get (w_files w) p = Some c"
  shows "\<exists>w'. io_step w w' \<and> open_file p w = (Inr c, w')"
  using io_call_quiet [OF assms(1), of p] assms(2) by (auto simp: open_file_def io_step_frame)

lemma metadata_quiet:
  assumes "quiet w" "bm_get (w_files w) p = Some c"
  shows "\<exists>w'. io_step w w' \<and> metadata_len p w = (Inr (of_nat (length c)), w')"
  using io_call_quiet [OF assms(1), of p] assms(2) by (auto simp: metadata_len_def io_step_frame)

lemma open_with_len_quiet:
  assumes "quiet w" "bm_get (w_files w) p = Some c"
  shows "\<exists>w1 w2. open_file p w = (Inr c, w1) \<and> metadata_len p w1 = (Inr (of_nat (length c)), w2)
    \<and> io_step w w2"
proof -
  obtain w1 where w1: "io_step w w1" "open_file p w = (Inr c, w1)" using open_file_quiet [OF assms] by blast
  obtain w2 where w2: "io_step w1 w2" "metadata_len p w1 = (Inr (of_nat (length c)), w2)"
    using metadata_quiet [OF io_step_quiet [OF w1(1) assms(1)]] assms(2) io_step_frame(1) [OF w1(1)] by metis
  show ?thesis using w1 w2 io_step_trans [OF w1(1) w2(1)] by blast
qed

lemma valid_len_quiet:
  assumes "quiet w" "\<forall>r\<in>set rs. record_fits r" "length (seg_bytes crc rs) \<le> unat ss"
    and "torn_tail crc ss (length (seg_bytes crc rs)) t"
    and "bm_get (w_files w) (segment_path i) = Some (seg_bytes crc rs @ t)"
  shows "\<exists>w'. io_step w w' \<and> valid_len crc i ss w =
    (Inr ((if t = [] then Clean else IncompleteTail) (of_nat (length (seg_bytes crc rs)))), w')"
proof -
  let ?c = "seg_bytes crc rs @ t"
  obtain w1 where w1: "io_step w w1" "valid_len crc i ss w = scan crc i ss (of_nat (length ?c)) 0 ?c w1"
    using open_with_len_quiet [OF assms(1,5)] by (auto simp: valid_len_def)
  have "length ?c < 2 ^ 64"
    unfolding length_append using torn_tail_len [OF assms(4,3)] unat_u64_lt [of ss] by (rule le_less_trans)
  then have "unat (of_nat (length ?c) :: u64) = length ?c" by (rule unat_u64_of_nat)
  with scan_quiet [OF io_step_quiet [OF w1(1) assms(1)] assms(2), of 0 crc ss t "of_nat (length ?c)" i]
    assms(3,4) obtain w' where "io_step w1 w'" "scan crc i ss (of_nat (length ?c)) 0 ?c w1 =
      (Inr ((if t = [] then Clean else IncompleteTail) (of_nat (length (seg_bytes crc rs)))), w')"
    by auto
  with w1 io_step_trans show ?thesis by (intro exI [of _ w']) auto
qed

lemma wal_disk_io_step: "io_step w w' \<Longrightarrow> wal_disk crc ss w' segs t = wal_disk crc ss w segs t"
  by (simp add: wal_disk_def io_step_frame)

lemma wal_disk_segment:
  assumes "wal_disk crc ss w segs t" "i < length segs"
  shows "\<forall>r\<in>set (segs ! i). record_fits r" "length (seg_bytes crc (segs ! i)) \<le> unat ss"
    "torn_tail crc ss (length (seg_bytes crc (segs ! i))) (if Suc i = length segs then t else [])"
    "bm_get (w_files w) (segment_path (of_nat i)) =
      Some (seg_bytes crc (segs ! i) @ (if Suc i = length segs then t else []))"
proof -
  have "Suc i = length segs \<Longrightarrow> last segs = segs ! i" using last_conv_nth [of segs] assms(2)
    by (metis diff_Suc_1 list.size(3) nat.distinct(1))
  then show "torn_tail crc ss (length (seg_bytes crc (segs ! i))) (if Suc i = length segs then t else [])"
    using assms(1) by (auto simp: wal_disk_def)
qed (use assms in \<open>auto simp: wal_disk_def nth_mem\<close>)

text \<open>Recovery reads every segment and truncates the tail of the last one.\<close>

lemma recover_loop_quiet:
  assumes "quiet w" "wal_disk crc ss w segs t" "j < length segs"
  defines "i \<equiv> of_nat (length segs - 1)" and "len \<equiv> of_nat (length (seg_bytes crc (last segs)))"
  shows "\<exists>w'. io_step w w' \<and> recover_loop crc ss (map of_nat [j..<length segs]) w =
    (if t = [] then (Inr (Some (i, len)), w')
     else io_bind (truncate_segment i len w') (\<lambda>_ w. (Inr (Some (i, len)), w)))"
  using assms(1-3)
proof (induction "length segs - j" arbitrary: j w)
  case (Suc k)
  note d = wal_disk_segment [OF Suc.prems(2,3)]
  from valid_len_quiet [OF Suc.prems(1) d] obtain w1 where w1: "io_step w w1"
    "valid_len crc (of_nat j) ss w =
      (Inr ((if (if Suc j = length segs then t else []) = [] then Clean else IncompleteTail)
        (of_nat (length (seg_bytes crc (segs ! j))))), w1)" by blast
  have upt: "map of_nat [j..<length segs] = of_nat j # map of_nat [Suc j..<length segs]"
    using Suc.prems(3) by (simp add: upt_conv_Cons)
  show ?case
  proof (cases "Suc j = length segs")
    case True
    then have "segs ! j = last segs" "j = length segs - 1"
      using last_conv_nth [of segs] Suc.prems(3) by (cases segs; simp)+
    then have "i = of_nat j" "len = of_nat (length (seg_bytes crc (segs ! j)))"
      by (simp_all add: i_def len_def)
    then show ?thesis unfolding upt using True w1 by (intro exI [of _ w1]) simp
  next
    case False
    with Suc.prems(3) have "Suc j < length segs" by simp
    have "k = length segs - Suc j" using Suc.hyps(2) by simp
    from Suc.hyps(1) [OF this io_step_quiet [OF w1(1) Suc.prems(1)]] Suc.prems(2) \<open>Suc j < length segs\<close>
    obtain w' where w': "io_step w1 w'" "recover_loop crc ss (map of_nat [Suc j..<length segs]) w1 =
      (if t = [] then (Inr (Some (i, len)), w')
       else io_bind (truncate_segment i len w') (\<lambda>_ w. (Inr (Some (i, len)), w)))"
      unfolding wal_disk_io_step [OF w1(1)] by blast
    have "recover_loop crc ss (map of_nat [j..<length segs]) w =
        recover_loop crc ss (map of_nat [Suc j..<length segs]) w1"
      unfolding upt using w1(2) \<open>Suc j < length segs\<close> by (cases "segs = []") simp_all
    with w'(2) io_step_trans [OF w1(1) w'(1)] show ?thesis by auto
  qed
qed simp

lemma sync_file_quiet:
  assumes "quiet w"
  shows "\<exists>w1. io_step w w1 \<and> sync_file p w =
    (Inr (), w1\<lparr>w_synced := bm_insert p (file_content w p) (w_synced w)\<rparr>)"
  using io_call_quiet [OF assms, of p] by (auto simp: sync_file_def io_step_frame)

lemma truncate_quiet:
  assumes "quiet w" "bm_get (w_files w) (segment_path i) = Some (a @ t)" "unat len = length a"
  shows "\<exists>w1. io_step w w1 \<and> truncate_segment i len w =
    (Inr (), w1\<lparr>w_files := bm_insert (segment_path i) a (w_files w),
       w_synced := bm_insert (segment_path i) a (w_synced w)\<rparr>)"
proof -
  let ?p = "segment_path i"
  obtain w1 where w1: "io_step w w1" "open_file ?p w = (Inr (a @ t), w1)"
    using open_file_quiet [OF assms(1,2)] by blast
  obtain w2 where w2: "io_step w1 w2" "io_call ?p w1 = (Inr (), w2)"
    using io_call_quiet [OF io_step_quiet [OF w1(1) assms(1)]] by blast
  note s = io_step_trans [OF w1(1) w2(1)]
  note f = io_step_frame [OF s]
  have set_len: "set_len ?p (unat len) w2 = w2\<lparr>w_files := bm_insert ?p a (w_files w)\<rparr>" (is "_ = ?w3")
    using assms(2,3) f by (simp add: set_len_def file_content_def Let_def)
  have "quiet ?w3" using io_step_quiet [OF s assms(1)] by (simp add: quiet_def)
  from sync_file_quiet [OF this, of ?p] obtain w4 where "io_step ?w3 w4"
    "sync_file ?p ?w3 = (Inr (), w4\<lparr>w_synced := bm_insert ?p a (w_synced w)\<rparr>)"
    by (auto simp: file_content_def bm_get_insert f)
  then obtain sc where sc: "set sc \<subseteq> set (w_script w2)" "sync_file ?p ?w3 =
      (Inr (), (w2\<lparr>w_script := sc\<rparr>)\<lparr>w_files := bm_insert ?p a (w_files w), w_synced := bm_insert ?p a (w_synced w)\<rparr>)"
    by (auto simp: io_step_def)
  then have "io_step w (w2\<lparr>w_script := sc\<rparr>)" using io_step_trans [OF s] by (auto simp: io_step_def)
  then show ?thesis using w1(2) w2(2) sc(2) set_len
    by (intro exI [of _ "w2\<lparr>w_script := sc\<rparr>"]) (simp add: truncate_segment_def)
qed

text \<open>Writing the last segment anew, and adding an empty one.\<close>

lemma wal_disk_update:
  assumes "wal_disk crc ss w segs t" "w_files w' =
    bm_insert (segment_path (of_nat (length segs - 1))) (seg_bytes crc seg @ t') (w_files w)"
    and "\<forall>r\<in>set seg. record_fits r" "length (seg_bytes crc seg) \<le> unat ss"
    and "torn_tail crc ss (length (seg_bytes crc seg)) t'"
  shows "wal_disk crc ss w' (butlast segs @ [seg]) t'"
proof -
  let ?segs = "butlast segs @ [seg]"
  have ne: "segs \<noteq> []" "length segs \<le> 2 ^ 64" using assms(1) by (simp_all add: wal_disk_def)
  then have len: "length ?segs = length segs" by simp
  have "bm_get (w_files w') (segment_path (of_nat i)) =
      Some (seg_bytes crc (?segs ! i) @ (if Suc i = length segs then t' else []))"
    if "i < length segs" for i
  proof (cases "Suc i = length segs")
    case True
    then have "i = length segs - 1" by simp
    with ne(1) show ?thesis unfolding assms(2) bm_get_insert by (simp add: nth_append)
  next
    case False
    with that have i: "i < length segs - 1" by simp
    with ne have "(of_nat i :: u64) \<noteq> of_nat (length segs - 1)"
      by (subst of_nat_u64_inj) auto
    with wal_disk_segment(4) [OF assms(1) that] False i show ?thesis
      unfolding assms(2) bm_get_insert by (simp add: nth_append nth_butlast)
  qed
  moreover have "wal_names (w_files w') (length segs)"
    using assms(1) ne(1) unfolding assms(2) wal_names_def wal_disk_def bm_get_insert
    by (auto intro: exI [of _ "length segs - 1"])
  ultimately show ?thesis using assms(1,3-5) unfolding wal_disk_def len
    by (auto dest: in_set_butlastD)
qed

lemma wal_disk_truncate:
  assumes "wal_disk crc ss w segs t" "w_files w' =
    bm_insert (segment_path (of_nat (length segs - 1))) (seg_bytes crc (last segs)) (w_files w)"
  shows "wal_disk crc ss w' segs []"
proof -
  have "segs \<noteq> []" "\<forall>r\<in>set (last segs). record_fits r" "length (seg_bytes crc (last segs)) \<le> unat ss"
    using assms(1) last_in_set [of segs] by (auto simp: wal_disk_def simp del: last_in_set)
  with wal_disk_update [OF assms(1), of w' "last segs" "[]"] assms(2) show ?thesis by simp
qed

lemma wal_disk_extend:
  assumes "wal_disk crc ss w segs []" "length segs < 2 ^ 64"
    and "w_files w' = bm_insert (segment_path (of_nat (length segs))) [] (w_files w)"
  shows "wal_disk crc ss w' (segs @ [[]]) []"
proof -
  have "bm_get (w_files w') (segment_path (of_nat i)) = Some (seg_bytes crc ((segs @ [[]]) ! i))"
    if "i < Suc (length segs)" for i
  proof (cases "i = length segs")
    case False
    with that assms(2) have "i < length segs" "(of_nat i :: u64) \<noteq> of_nat (length segs)"
      by (simp_all add: of_nat_u64_inj)
    with wal_disk_segment(4) [OF assms(1), of i] show ?thesis
      unfolding assms(3) bm_get_insert by (simp add: nth_append)
  qed (simp add: assms(3) bm_get_insert)
  moreover have "wal_names (w_files w') (Suc (length segs))"
    using assms(1) unfolding assms(3) wal_names_def wal_disk_def bm_get_insert
    by (metis less_Suc_eq)
  ultimately show ?thesis using assms(1,2) by (auto simp: wal_disk_def)
qed

lemma wal_disk_ids:
  assumes "quiet w" "wal_disk crc ss w segs t"
  shows "\<exists>w'. io_step w w' \<and> segment_ids w = (Inr (map of_nat [0..<length segs]), w')"
  using segment_ids_quiet [OF assms(1), of "length segs"] assms(2) by (auto simp: wal_disk_def)

lemma wal_recover_quiet:
  assumes "quiet w" "wal_disk crc ss w segs t"
  defines "i \<equiv> of_nat (length segs - 1)"
  shows "\<exists>w1. io_step w w1 \<and> wal_recover crc ss w =
    (Inr (i, of_nat (length (seg_bytes crc (last segs)))),
     if t = [] then w1
     else w1\<lparr>w_files := bm_insert (segment_path i) (seg_bytes crc (last segs)) (w_files w),
             w_synced := bm_insert (segment_path i) (seg_bytes crc (last segs)) (w_synced w)\<rparr>)"
proof -
  let ?len = "of_nat (length (seg_bytes crc (last segs))) :: u64"
  have ne: "segs \<noteq> []" using assms(2) by (simp add: wal_disk_def)
  obtain w1 where w1: "io_step w w1" "segment_ids w = (Inr (map of_nat [0..<length segs]), w1)"
    using wal_disk_ids [OF assms(1,2)] by blast
  obtain w2 where w2: "io_step w1 w2" "recover_loop crc ss (map of_nat [0..<length segs]) w1 =
    (if t = [] then (Inr (Some (i, ?len)), w2)
     else io_bind (truncate_segment i ?len w2) (\<lambda>_ w. (Inr (Some (i, ?len)), w)))"
    using recover_loop_quiet [OF io_step_quiet [OF w1(1) assms(1)], of crc ss segs t 0]
      assms(2) ne unfolding wal_disk_io_step [OF w1(1)] i_def by auto
  note s = io_step_trans [OF w1(1) w2(1)]
  have eq: "wal_recover crc ss w = (if t = [] then (Inr (i, ?len), w2)
      else io_bind (truncate_segment i ?len w2) (\<lambda>_ w. (Inr (i, ?len), w)))"
    using w1(2) w2(2) ne
    by (cases "truncate_segment i ?len w2"; cases "fst (truncate_segment i ?len w2)")
       (auto simp: wal_recover_def)
  show ?thesis
  proof (cases "t = []")
    case True
    with eq s show ?thesis by auto
  next
    case False
    have "length segs - 1 < length segs" using ne by simp
    note d = wal_disk_segment [OF assms(2) this]
    have last: "segs ! (length segs - 1) = last segs" using ne by (simp add: last_conv_nth)
    have "bm_get (w_files w2) (segment_path i) = Some (seg_bytes crc (last segs) @ t)"
      using d(4) ne unfolding last i_def io_step_frame(1) [OF s] by simp
    moreover have "unat ?len = length (seg_bytes crc (last segs))"
      using d(2) le_less_trans [OF _ unat_u64_lt [of ss]] unfolding last by (intro unat_u64_of_nat) blast
    ultimately obtain w3 where "io_step w2 w3" "truncate_segment i ?len w2 =
      (Inr (), w3\<lparr>w_files := bm_insert (segment_path i) (seg_bytes crc (last segs)) (w_files w2),
        w_synced := bm_insert (segment_path i) (seg_bytes crc (last segs)) (w_synced w2)\<rparr>)"
      using truncate_quiet [OF io_step_quiet [OF s assms(1)]] by blast
    with eq False io_step_frame [OF s] io_step_trans [OF s] show ?thesis by auto
  qed
qed

text \<open>An empty directory gets the segment \<open>0\<close>.\<close>

lemma wal_recover_fresh:
  assumes "quiet w" "wal_names (w_files w) 0"
  shows "\<exists>w1. io_step w w1 \<and> wal_recover crc ss w =
    (Inr (0, 0), w1\<lparr>w_files := bm_insert (segment_path 0) [] (w_files w),
       w_entries := bts_of_list (bm_keys (bm_insert (segment_path 0) [] (w_files w)))\<rparr>)"
proof -
  obtain w1 where w1: "io_step w w1" "segment_ids w = (Inr [], w1)"
    using segment_ids_quiet [OF assms] by auto
  obtain w2 where w2: "io_step w1 w2" "io_call (segment_path 0) w1 = (Inr (), w2)"
    using io_call_quiet [OF io_step_quiet [OF w1(1) assms(1)]] by blast
  note s2 = io_step_trans [OF w1(1) w2(1)]
  let ?w2 = "w2\<lparr>w_files := bm_insert (segment_path 0) [] (w_files w)\<rparr>"
  have c: "create_file (segment_path 0) w1 = (Inr (), ?w2)"
    using w2 io_step_frame(1) [OF s2] by (simp add: create_file_def)
  have q2: "quiet ?w2" using io_step_quiet [OF s2 assms(1)] by (simp add: quiet_def)
  then obtain w3 where w3: "io_step ?w2 w3" "io_call [] ?w2 = (Inr (), w3)" using io_call_quiet by blast
  let ?w3 = "w3\<lparr>w_entries := bts_of_list (bm_keys (bm_insert (segment_path 0) [] (w_files w)))\<rparr>"
  have d: "sync_dir ?w2 = (Inr (), ?w3)" using w3 io_step_frame(1) [OF w3(1)] by (simp add: sync_dir_def)
  have "quiet ?w3" using io_step_quiet [OF w3(1) q2] by (simp add: quiet_def)
  moreover have "bm_get (w_files ?w3) (segment_path 0) = Some (seg_bytes crc [] @ [])"
    using io_step_frame(1) [OF w3(1)] by (simp add: bm_get_insert)
  ultimately obtain w4 where w4: "io_step ?w3 w4" "valid_len crc 0 ss ?w3 = (Inr (Clean 0), w4)"
    using valid_len_quiet [of ?w3 "[]" crc ss "[]" 0] by auto
  obtain sc where sc: "set sc \<subseteq> set (w_script w2)" "w4 = (w2\<lparr>w_script := sc\<rparr>)
      \<lparr>w_files := bm_insert (segment_path 0) [] (w_files w),
       w_entries := bts_of_list (bm_keys (bm_insert (segment_path 0) [] (w_files w)))\<rparr>"
  proof -
    obtain s3 where s3: "w3 = ?w2\<lparr>w_script := s3\<rparr>" "set s3 \<subseteq> set (w_script w2)"
      using w3(1) by (auto simp: io_step_def)
    obtain s4 where s4: "w4 = ?w3\<lparr>w_script := s4\<rparr>" "set s4 \<subseteq> set s3"
      using w4(1) s3(1) by (auto simp: io_step_def)
    show thesis using s3 s4 by (intro that [of s4]) auto
  qed
  have "io_step w (w2\<lparr>w_script := sc\<rparr>)" using sc(1) io_step_trans [OF s2] by (auto simp: io_step_def)
  then show ?thesis using w1(2) c d w4(2) sc(2)
    by (intro exI [of _ "w2\<lparr>w_script := sc\<rparr>"]) (simp add: wal_recover_def)
qed

definition wal_bytes :: "(bytes \<Rightarrow> u32) \<Rightarrow> Record list list \<Rightarrow> nat" where
  "wal_bytes crc segs = sum_list (map (\<lambda>seg. length (seg_bytes crc seg)) segs)"

lemma wal_bytes_simps [simp]:
  "wal_bytes crc [] = 0"
  "wal_bytes crc (seg # segs) = length (seg_bytes crc seg) + wal_bytes crc segs"
  "wal_bytes crc (segs @ segs') = wal_bytes crc segs + wal_bytes crc segs'"
  by (simp_all add: wal_bytes_def)

lemma sum_lens_quiet:
  assumes "quiet w" "wal_disk crc ss w segs []" "j \<le> length segs"
    and "unat acc + wal_bytes crc (drop j segs) < 2 ^ 64"
  shows "\<exists>w'. io_step w w' \<and> sum_lens acc (map of_nat [j..<length segs]) w =
    (Inr (acc + of_nat (wal_bytes crc (drop j segs))), w')"
  using assms
proof (induction "length segs - j" arbitrary: j w acc)
  case 0
  then show ?case by (intro exI [of _ w]) simp
next
  case (Suc k)
  then have j: "j < length segs" by simp
  let ?n = "length (seg_bytes crc (segs ! j))"
  have drop: "drop j segs = segs ! j # drop (Suc j) segs" using j by (simp add: Cons_nth_drop_Suc)
  have upt: "map of_nat [j..<length segs] = of_nat j # map of_nat [Suc j..<length segs]"
    using j by (simp add: upt_conv_Cons)
  have lt: "unat acc + (?n + wal_bytes crc (drop (Suc j) segs)) < 2 ^ 64" using Suc.prems(4) drop by simp
  have n: "unat (of_nat ?n :: u64) = ?n" by (rule unat_u64_of_nat) (use lt in linarith)
  have add: "unat (acc + of_nat ?n) = unat acc + ?n"
    by (subst unat_u64_add) (use lt n in linarith, simp add: n)
  have chk: "checked_add acc (of_nat ?n) = Some (acc + of_nat ?n)"
    using add n by (simp add: checked_add_Some_iff)
  obtain w1 where w1: "io_step w w1" "segment_len (of_nat j) w = (Inr (of_nat ?n), w1)"
    using metadata_quiet [OF Suc.prems(1) wal_disk_segment(4) [OF Suc.prems(2) j]]
    by (auto simp: segment_len_def)
  have "k = length segs - Suc j" using Suc.hyps(2) by simp
  from Suc.hyps(1) [OF this io_step_quiet [OF w1(1) Suc.prems(1)], of "acc + of_nat ?n"]
    Suc.prems(2) j lt obtain w' where w': "io_step w1 w'"
      "sum_lens (acc + of_nat ?n) (map of_nat [Suc j..<length segs]) w1 =
        (Inr (acc + of_nat ?n + of_nat (wal_bytes crc (drop (Suc j) segs))), w')"
    unfolding wal_disk_io_step [OF w1(1)] add by (auto simp: add.assoc)
  have "sum_lens acc (map of_nat [j..<length segs]) w =
      sum_lens (acc + of_nat ?n) (map of_nat [Suc j..<length segs]) w1"
    unfolding upt using w1(2) chk by simp
  with w' io_step_trans [OF w1(1) w'(1)] drop show ?case by (intro exI [of _ w']) (simp add: add.assoc)
qed

lemma wal_total_len_quiet:
  assumes "quiet w" "wal_disk crc ss w segs []" "wal_bytes crc segs < 2 ^ 64"
  shows "\<exists>w'. io_step w w' \<and> wal_total_len w = (Inr (of_nat (wal_bytes crc segs)), w')"
proof -
  obtain w1 where w1: "io_step w w1" "segment_ids w = (Inr (map of_nat [0..<length segs]), w1)"
    using wal_disk_ids [OF assms(1,2)] by blast
  from sum_lens_quiet [OF io_step_quiet [OF w1(1) assms(1)], of crc ss segs 0 0] assms(2,3)
  obtain w2 where "io_step w1 w2" "sum_lens 0 (map of_nat [0..<length segs]) w1 =
      (Inr (of_nat (wal_bytes crc segs)), w2)"
    unfolding wal_disk_io_step [OF w1(1)] by auto
  with w1 io_step_trans show ?thesis by (intro exI [of _ w2]) (auto simp: wal_total_len_def)
qed

end
