(* ===== verification/Wal.thy ===== *)
theory Wal
  imports WalSegment
begin

text \<open>
  The write-ahead log, part three: the log itself (\<open>basisdb-wal/src/wal.rs\<close>).

  A \<open>Wal\<close> is the state of an open log; its files, its lock and its active file are those of the
  \<open>World\<close>. Operations on an open log pass the pair of both. The \<open>World\<close> is the directory; how it is
  found and made is in \<open>WalDir\<close>.
\<close>

section \<open>Options and state\<close>

definition DEFAULT_SEGMENT_SIZE :: u64 where "DEFAULT_SEGMENT_SIZE = 64 * 1024 * 1024"
definition DEFAULT_MAX_SIZE :: u64 where "DEFAULT_MAX_SIZE = 4 * 1024 * 1024 * 1024"

record WalOptions =
  segment_size :: u64
  max_size :: u64
  sync_on_append :: bool

definition wal_options_default :: WalOptions where
  "wal_options_default =
    \<lparr>segment_size = DEFAULT_SEGMENT_SIZE, max_size = DEFAULT_MAX_SIZE, sync_on_append = False\<rparr>"

record Wal =
  options :: WalOptions
  active_id :: u64
  active_len :: u64
  total_len :: u64
  poisoned :: bool

type_synonym 'a wal_io = "Wal \<times> World \<Rightarrow> (WalError + 'a) \<times> (Wal \<times> World)"

text \<open>An operation of the file system on an open log.\<close>

definition on_world :: "(World \<Rightarrow> (WalError + 'a) \<times> World) \<Rightarrow> 'a wal_io" where
  "on_world f s = (case f (snd s) of (r, w) \<Rightarrow> (r, (fst s, w)))"

section \<open>Operations\<close>

definition validate_options :: "WalOptions \<Rightarrow> WalError + unit" where
  "validate_options opts =
    (if segment_size opts < HEADER_LEN_U64 \<or> max_size opts < HEADER_LEN_U64
     then Inl (SegmentTooSmall (min (segment_size opts) (max_size opts)) HEADER_LEN)
     else Inr ())"

definition wal_open :: "(bytes \<Rightarrow> u32) \<Rightarrow> WalOptions \<Rightarrow> World \<Rightarrow> (WalError + Wal) \<times> World" where
  "wal_open crc opts w =
    io_bind (validate_options opts, w) (\<lambda>_ w.
    io_bind (wal_lock w) (\<lambda>_ w.
    io_bind (wal_recover crc (segment_size opts) w) (\<lambda>(active_id, active_len) w.
    io_bind (wal_total_len w) (\<lambda>total_len w.
      if total_len > max_size opts then (Inl (WalFull total_len (max_size opts)), w)
      else
        io_bind (open_segment active_id w) (\<lambda>_ w.
        io_bind (io_call (segment_path active_id) w) (\<lambda>_ w.
          (Inr \<lparr>options = opts, active_id = active_id, active_len = active_len,
                total_len = total_len, poisoned = False\<rparr>, w)))))))"

definition ensure_healthy :: "unit wal_io" where
  "ensure_healthy s = (if poisoned (fst s) then Inl Poisoned else Inr (), s)"

definition checked_add_len :: "u64 \<Rightarrow> nat \<Rightarrow> WalError + u64" where
  "checked_add_len offset len =
    (if \<not> fits_u64 len then Inl (RecordTooLarge u64_max u64_max)
     else case checked_add offset (of_nat len) of
            None \<Rightarrow> Inl (RecordTooLarge u64_max u64_max)
          | Some x \<Rightarrow> Inr x)"

definition wal_sync :: "unit wal_io" where
  "wal_sync s =
    io_bind (ensure_healthy s) (\<lambda>_ (wal, w).
      case sync_file (segment_path (active_id wal)) w of
        (Inl e, w) \<Rightarrow> (Inl e, (wal\<lparr>poisoned := True\<rparr>, w))
      | (Inr _, w) \<Rightarrow> (Inr (), (wal, w)))"

definition write_or_poison :: "bytes \<Rightarrow> unit wal_io" where
  "write_or_poison bs = (\<lambda>(wal, w).
    case write_all (segment_path (active_id wal)) bs w of
      (Inl e, w) \<Rightarrow> (Inl e, (wal\<lparr>poisoned := True\<rparr>, w))
    | (Inr _, w) \<Rightarrow> (Inr (), (wal, w)))"

definition rotate_if_needed :: "nat \<Rightarrow> unit wal_io" where
  "rotate_if_needed record_len s =
    (let size = segment_size (options (fst s)); active = active_len (fst s) in
     if \<not> fits_u64 record_len then (Inl (RecordTooLarge u64_max size), s)
     else if of_nat record_len > size then (Inl (RecordTooLarge (of_nat record_len) size), s)
     else
       case checked_add active (of_nat record_len) of
         None \<Rightarrow> (Inl (RecordTooLarge u64_max size), s)
       | Some next_len \<Rightarrow>
           if active \<noteq> 0 \<and> next_len > size then
             io_bind (wal_sync s) (\<lambda>_ s.
               case checked_add (active_id (fst s)) 1 of
                 None \<Rightarrow> (Inl SegmentIdExhausted, s)
               | Some i \<Rightarrow>
                   io_bind (on_world (open_segment i) s) (\<lambda>_ s.
                   io_bind (on_world sync_dir s) (\<lambda>_ (wal, w).
                     (Inr (), (wal\<lparr>active_id := i, active_len := 0\<rparr>, w)))))
           else (Inr (), s))"

text \<open>\<open>append\<close> from the encoding of the record on.\<close>

definition write_record :: "(bytes \<Rightarrow> u32) \<Rightarrow> RecordKind \<Rightarrow> bytes \<Rightarrow> u64 \<Rightarrow> Lsn wal_io" where
  "write_record crc kind payload next_total s =
    io_bind (encode_record crc kind payload, s) (\<lambda>encoded s.
      let lsn = \<lparr>lsn_segment = active_id (fst s), lsn_offset = active_len (fst s)\<rparr> in
      io_bind (checked_add_len (active_len (fst s)) (length encoded), s) (\<lambda>next_len s.
      io_bind (write_or_poison encoded s) (\<lambda>_ (wal, w).
        let s = (wal\<lparr>active_len := next_len, total_len := next_total\<rparr>, w) in
        if sync_on_append (options wal)
        then io_bind (wal_sync s) (\<lambda>_ s. (Inr lsn, s))
        else (Inr lsn, s))))"

definition wal_append :: "(bytes \<Rightarrow> u32) \<Rightarrow> RecordKind \<Rightarrow> bytes \<Rightarrow> Lsn wal_io" where
  "wal_append crc kind payload s =
    io_bind (ensure_healthy s) (\<lambda>_ s.
    io_bind (encoded_len (length payload), s) (\<lambda>record_len s.
    io_bind (checked_add_len (total_len (fst s)) record_len, s) (\<lambda>next_total s.
      if next_total > max_size (options (fst s))
      then (Inl (WalFull next_total (max_size (options (fst s)))), s)
      else
        io_bind (rotate_if_needed record_len s) (\<lambda>_ s.
          write_record crc kind payload next_total s))))"

section \<open>Streaming the records\<close>

record Records =
  rs_segment_size :: u64
  rs_segment_ids :: "u64 list"
  rs_segment :: "SegmentReader option"
  rs_done :: bool

definition wal_records :: "Records wal_io" where
  "wal_records s =
    io_bind (ensure_healthy s) (\<lambda>_ s.
    io_bind (on_world segment_ids s) (\<lambda>ids s.
      (Inr \<lparr>rs_segment_size = segment_size (options (fst s)), rs_segment_ids = ids,
            rs_segment = None, rs_done = False\<rparr>, s)))"

function records_next ::
    "(bytes \<Rightarrow> u32) \<Rightarrow> Records \<Rightarrow> World \<Rightarrow> (WalError + StoredRecord) option \<times> Records \<times> World" where
  "records_next crc rs w =
    (if rs_done rs then (None, rs, w)
     else case rs_segment rs of
       Some segment \<Rightarrow>
         (case next_record crc segment w of
            (Inr (Some stored, segment), w) \<Rightarrow> (Some (Inr stored), rs\<lparr>rs_segment := Some segment\<rparr>, w)
          | (Inr (None, _), w) \<Rightarrow> records_next crc (rs\<lparr>rs_segment := None\<rparr>) w
          | (Inl e, w) \<Rightarrow> (Some (Inl e), rs\<lparr>rs_done := True\<rparr>, w))
     | None \<Rightarrow>
         (case rs_segment_ids rs of
            i # ids \<Rightarrow>
              (case reader_open i (rs_segment_size rs) w of
                 (Inr segment, w) \<Rightarrow>
                   records_next crc (rs\<lparr>rs_segment_ids := ids, rs_segment := Some segment\<rparr>) w
               | (Inl e, w) \<Rightarrow> (Some (Inl e), rs\<lparr>rs_segment_ids := ids, rs_done := True\<rparr>, w))
          | [] \<Rightarrow> (None, rs\<lparr>rs_done := True\<rparr>, w)))"
  by pat_completeness auto
termination
  by (relation "measure (\<lambda>(crc, rs, w). 2 * length (rs_segment_ids rs)
        + (case rs_segment rs of None \<Rightarrow> 0 | Some _ \<Rightarrow> 1))") auto

declare records_next.simps [simp del]

text \<open>A \<open>for\<close> loop over the records: each item is a step of the iterator. Every step makes
  progress: it ends the stream, moves to a later segment, or shortens what is left of one.\<close>

definition records_rank :: "Records \<Rightarrow> nat \<times> nat \<times> nat" where
  "records_rank rs =
    (if rs_done rs then 0 else 1, length (rs_segment_ids rs),
     case rs_segment rs of None \<Rightarrow> 0 | Some rd \<Rightarrow> Suc (length (rd_file rd)))"

definition rank_less :: "((nat \<times> nat \<times> nat) \<times> (nat \<times> nat \<times> nat)) set" where
  "rank_less = less_than <*lex*> less_than <*lex*> less_than"

lemma next_record_consumes:
  assumes "next_record crc rd w = (Inr (Some r, rd'), w')"
  shows "length (rd_file rd') < length (rd_file rd)"
proof -
  obtain x rest w1 where x: "read_one crc (segment_path (rd_segment_id rd)) (rd_file rd)
      \<lparr>lsn_segment = rd_segment_id rd, lsn_offset = rd_offset rd\<rparr> (rd_segment_size rd)
      (rd_physical_len rd) w = (Inr (x, rest), w1)"
    using assms by (auto simp: next_record_def Let_def io_bind_Inr_iff)
  with assms show ?thesis by (cases x) (auto simp: next_record_def Let_def dest: read_one_consumes)
qed

lemma records_next_progress:
  "records_next crc rs w = (Some x, rs', w') \<Longrightarrow> (records_rank rs', records_rank rs) \<in> rank_less"
proof (induction crc rs w rule: records_next.induct)
  case (1 crc rs w)
  note IH = "1.IH" and prems = "1.prems"
  have tr: "(a, b) \<in> rank_less \<Longrightarrow> (b, c) \<in> rank_less \<Longrightarrow> (a, c) \<in> rank_less" for a b c
    by (cases a; cases b; cases c) (auto simp: rank_less_def)
  from prems have nd: "\<not> rs_done rs" by (auto simp: records_next.simps [of crc rs w])
  show ?case
  proof (cases "rs_segment rs")
    case (Some rd)
    obtain res w1 where n: "next_record crc rd w = (res, w1)" by (cases "next_record crc rd w")
    show ?thesis
    proof (cases res)
      case (Inl e)
      with prems nd Some n show ?thesis
        by (auto simp: records_next.simps [of crc rs w] records_rank_def rank_less_def)
    next
      case (Inr y)
      obtain r rd' where y: "y = (r, rd')" by (cases y)
      show ?thesis
      proof (cases r)
        case (Some r0)
        with prems nd n Inr y \<open>rs_segment rs = Some rd\<close> next_record_consumes [of crc rd w r0 rd' w1]
        show ?thesis by (auto simp: records_next.simps [of crc rs w] records_rank_def rank_less_def)
      next
        case None
        let ?rs = "rs\<lparr>rs_segment := None\<rparr>"
        have "(records_rank rs', records_rank ?rs) \<in> rank_less"
          using IH(2) [OF nd Some n [symmetric] Inr y [symmetric] None] prems nd Some n Inr y None
          by (simp add: records_next.simps [of crc rs w])
        moreover have "(records_rank ?rs, records_rank rs) \<in> rank_less"
          using \<open>rs_segment rs = Some rd\<close> by (simp add: records_rank_def rank_less_def)
        ultimately show ?thesis by (rule tr)
      qed
    qed
  next
    case None
    show ?thesis
    proof (cases "rs_segment_ids rs")
      case Nil
      with prems nd None show ?thesis by (simp add: records_next.simps [of crc rs w])
    next
      case (Cons i ids)
      obtain res w1 where o: "reader_open i (rs_segment_size rs) w = (res, w1)"
        by (cases "reader_open i (rs_segment_size rs) w")
      show ?thesis
      proof (cases res)
        case (Inl e)
        with prems nd None Cons o show ?thesis
          by (auto simp: records_next.simps [of crc rs w] records_rank_def rank_less_def)
      next
        case (Inr rd)
        let ?rs = "rs\<lparr>rs_segment_ids := ids, rs_segment := Some rd\<rparr>"
        have "(records_rank rs', records_rank ?rs) \<in> rank_less"
          using IH(1) [OF nd None Cons o [symmetric] Inr] prems nd None Cons o Inr
          by (simp add: records_next.simps [of crc rs w])
        moreover have "(records_rank ?rs, records_rank rs) \<in> rank_less"
          using Cons by (simp add: records_rank_def rank_less_def)
        ultimately show ?thesis by (rule tr)
      qed
    qed
  qed
qed

function records_for ::
    "(bytes \<Rightarrow> u32) \<Rightarrow> ((WalError + StoredRecord) \<Rightarrow> 's \<Rightarrow> 'e + 's) \<Rightarrow> Records \<Rightarrow> 's \<Rightarrow> World
      \<Rightarrow> ('e + 's) \<times> World" where
  "records_for crc body rs st w =
    (case records_next crc rs w of
       (None, rs, w) \<Rightarrow> (Inr st, w)
     | (Some item, rs, w) \<Rightarrow>
         (case body item st of
            Inl e \<Rightarrow> (Inl e, w)
          | Inr st \<Rightarrow> records_for crc body rs st w))"
  by pat_completeness auto
termination
  by (relation "inv_image rank_less (\<lambda>(crc, body, rs, st, w). records_rank rs)")
     (auto simp: rank_less_def [symmetric] intro!: wf_inv_image dest: records_next_progress [OF sym],
      simp add: rank_less_def wf_lex_prod)

declare records_for.simps [simp del]

end
