(* ===== verification/WalInv.thy ===== *)
theory WalInv
  imports Wal "HOL-Library.Sublist"
begin

text \<open>
  The write-ahead log, part four: the invariant of an open log and what each operation does to
  it, for every behaviour of the file system. The lemmas \<open>wal_sync_cases\<close>, \<open>rotate_cases\<close>,
  \<open>write_cases\<close> and \<open>wal_append_cases\<close> list the outcomes of the operations.
\<close>

section \<open>The state of an open log\<close>

text \<open>
  \<open>wal_inv crc s segs\<close>: the open log \<open>s\<close> is healthy and holds the segments \<open>segs\<close>; its records
  are \<open>concat segs\<close>. \<open>synced_upto crc w segs k\<close>: of the segments on disk all but the last are
  synced with their directory entries, and of the last one the first \<open>k\<close> records. They are
  \<open>durable\<close> when the last directory entry is synced too; a last segment that is still empty need
  not be for the log to be \<open>crash_safe\<close>. \<open>synced_records segs k\<close> are the records so synced.
\<close>

definition wal_inv :: "(bytes \<Rightarrow> u32) \<Rightarrow> Wal \<times> World \<Rightarrow> Record list list \<Rightarrow> bool" where
  "wal_inv crc s segs \<longleftrightarrow>
    wal_disk crc (segment_size (options (fst s))) (snd s) segs []
    \<and> active_id (fst s) = of_nat (length segs - 1)
    \<and> active_len (fst s) = of_nat (length (seg_bytes crc (last segs)))
    \<and> total_len (fst s) = of_nat (wal_bytes crc segs)
    \<and> wal_bytes crc segs \<le> unat (max_size (options (fst s)))
    \<and> \<not> poisoned (fst s) \<and> w_locked (snd s)"

definition synced_content :: "World \<Rightarrow> string \<Rightarrow> bytes" where
  "synced_content w p = (case bm_get (w_synced w) p of Some c \<Rightarrow> c | None \<Rightarrow> [])"

definition synced_upto :: "(bytes \<Rightarrow> u32) \<Rightarrow> World \<Rightarrow> Record list list \<Rightarrow> nat \<Rightarrow> bool" where
  "synced_upto crc w segs k \<longleftrightarrow>
    k \<le> length (last segs)
    \<and> (\<forall>i<length segs - 1. synced_content w (segment_path (of_nat i)) = seg_bytes crc (segs ! i)
        \<and> segment_path (of_nat i) \<in> elems (w_entries w))
    \<and> synced_content w (segment_path (of_nat (length segs - 1))) = seg_bytes crc (take k (last segs))
    \<and> (\<forall>i. bm_get (w_files w) (segment_path i) = None \<longrightarrow> synced_content w (segment_path i) = [])"

definition durable :: "(bytes \<Rightarrow> u32) \<Rightarrow> World \<Rightarrow> Record list list \<Rightarrow> nat \<Rightarrow> bool" where
  "durable crc w segs k \<longleftrightarrow>
    synced_upto crc w segs k \<and> segment_path (of_nat (length segs - 1)) \<in> elems (w_entries w)"

definition crash_safe :: "(bytes \<Rightarrow> u32) \<Rightarrow> World \<Rightarrow> Record list list \<Rightarrow> bytes \<Rightarrow> nat \<Rightarrow> bool" where
  "crash_safe crc w segs t k \<longleftrightarrow>
    synced_upto crc w segs k
    \<and> (segment_path (of_nat (length segs - 1)) \<in> elems (w_entries w)
       \<or> 2 \<le> length segs \<and> last segs = [] \<and> t = [])"

definition synced_records :: "Record list list \<Rightarrow> nat \<Rightarrow> Record list" where
  "synced_records segs k = concat (butlast segs) @ take k (last segs)"

text \<open>What a crash leaves: of every segment file some prefix that has at least the synced bytes;
  segments whose directory entry was synced are there, others may be. The lock is gone.\<close>

definition crash :: "World \<Rightarrow> World \<Rightarrow> bool" where
  "crash w w' \<longleftrightarrow>
    (\<forall>p. snd (split_name p) = Some SEGMENT_SUFFIX \<longrightarrow>
      (\<forall>c. bm_get (w_files w') p = Some c \<longrightarrow>
        (\<exists>c0. bm_get (w_files w) p = Some c0 \<and> prefix (synced_content w p) c \<and> prefix c c0))
      \<and> (p \<in> elems (w_entries w) \<and> bm_get (w_files w) p \<noteq> None \<longrightarrow> bm_get (w_files w') p \<noteq> None))
    \<and> w_synced w' = w_files w' \<and> w_entries w' = bts_of_list (bm_keys (w_files w'))
    \<and> \<not> w_locked w' \<and> quiet w'"

text \<open>Every segment file is durable as it is.\<close>

definition segments_synced :: "World \<Rightarrow> bool" where
  "segments_synced w \<longleftrightarrow>
    (\<forall>i. synced_content w (segment_path i) = file_content w (segment_path i)
      \<and> (bm_get (w_files w) (segment_path i) \<noteq> None \<longrightarrow> segment_path i \<in> elems (w_entries w)))"

section \<open>Opening\<close>

lemma crash_segments_synced: "crash w w' \<Longrightarrow> segments_synced w'"
  by (auto simp: crash_def segments_synced_def synced_content_def file_content_def bm_keys_iff)

lemma segments_synced_durable:
  assumes "segments_synced w" "wal_disk crc ss w segs []"
  shows "durable crc w segs (length (last segs))"
proof -
  have ne: "segs \<noteq> []" using assms(2) by (simp add: wal_disk_def)
  have "synced_content w (segment_path (of_nat i)) = seg_bytes crc (segs ! i)
      \<and> segment_path (of_nat i) \<in> elems (w_entries w)" if "i < length segs" for i
    using wal_disk_segment(4) [OF assms(2) that] assms(1) unfolding segments_synced_def
    by (auto simp: file_content_def)
  moreover have "bm_get (w_files w) (segment_path i) = None \<longrightarrow> synced_content w (segment_path i) = []" for i
    using assms(1) by (simp add: segments_synced_def file_content_def)
  ultimately show ?thesis using ne by (simp add: durable_def synced_upto_def last_conv_nth)
qed

lemma segments_synced_io_step: "io_step w w' \<Longrightarrow> segments_synced w' = segments_synced w"
  by (simp add: segments_synced_def synced_content_def io_step_frame)

lemma wal_names_LOCK: "wal_names (bm_insert LOCK_FILE c files) n = wal_names files n"
  unfolding wal_names_def bm_get_insert using LOCK_no_segment by metis

lemma wal_disk_LOCK:
  assumes "w_files w' = bm_insert LOCK_FILE c (w_files w)"
  shows "wal_disk crc ss w' segs t = wal_disk crc ss w segs t"
  unfolding wal_disk_def assms by (simp add: wal_names_LOCK bm_get_insert)

lemma wal_lock_quiet:
  assumes "quiet w" "\<not> w_locked w"
  shows "\<exists>w1. io_step w w1 \<and> wal_lock w = (Inr (),
    w1\<lparr>w_files := bm_insert LOCK_FILE (file_content w LOCK_FILE) (w_files w), w_locked := True\<rparr>)"
proof -
  obtain w1 where w1: "io_call LOCK_FILE w = (Inr (), w1)" "io_step w w1"
    using io_call_quiet [OF assms(1)] by blast
  let ?w1 = "w1\<lparr>w_files := bm_insert LOCK_FILE (file_content w LOCK_FILE) (w_files w)\<rparr>"
  have "quiet ?w1" using io_step_quiet [OF w1(2) assms(1)] by (simp add: quiet_def)
  then obtain w2 where w2: "io_call LOCK_FILE ?w1 = (Inr (), w2)" "io_step ?w1 w2"
    using io_call_quiet by blast
  then obtain sc where sc: "w2 = ?w1\<lparr>w_script := sc\<rparr>" "set sc \<subseteq> set (w_script w1)"
    by (auto simp: io_step_def)
  then have "io_step w1 (w1\<lparr>w_script := sc\<rparr>)" by (auto simp: io_step_def)
  from io_step_trans [OF w1(2) this] show ?thesis
    using w1 w2(1) sc(1) assms(2) io_step_frame [OF w1(2)]
    by (intro exI [of _ "w1\<lparr>w_script := sc\<rparr>"]) (simp add: wal_lock_def Let_def)
qed

lemma open_segment_quiet:
  assumes "quiet w" "bm_get (w_files w) (segment_path i) = Some c"
  shows "\<exists>w1. io_step w w1 \<and> open_segment i w = (Inr (), w1)"
proof -
  obtain w1 where w1: "io_call (segment_path i) w = (Inr (), w1)" "io_step w w1"
    using io_call_quiet [OF assms(1)] by blast
  have "bm_insert (segment_path i) (file_content w1 (segment_path i)) (w_files w1) = w_files w1"
    by (rule bm.map_extensional)
       (use assms(2) io_step_frame(1) [OF w1(2)] in \<open>auto simp: bm_get_insert file_content_def\<close>)
  then have "open_segment i w = (Inr (), w1)" using w1(1) by (simp add: open_segment_def)
  with w1(2) show ?thesis by blast
qed

text \<open>The end of \<open>open\<close>: after recovery.\<close>

lemma wal_open_tail:
  assumes "validate_options opts = Inr ()" "quiet w" "\<not> w_locked w"
    and "wal_bytes crc segs \<le> unat (max_size opts)"
    and "wal_lock w = (Inr (), w1)"
    and "wal_recover crc (segment_size opts) w1 =
      (Inr (of_nat (length segs - 1), of_nat (length (seg_bytes crc (last segs)))), w2)"
    and "quiet w2" "wal_disk crc (segment_size opts) w2 segs []"
  shows "\<exists>wal w3. wal_open crc opts w = (Inr wal, w3) \<and> io_step w2 w3 \<and> options wal = opts
    \<and> (w_locked w2 \<longrightarrow> wal_inv crc (wal, w3) segs)"
proof -
  have lt: "wal_bytes crc segs < 2 ^ 64" using assms(4) unat_u64_lt [of "max_size opts"] by (rule le_less_trans)
  obtain w3 where w3: "io_step w2 w3" "wal_total_len w2 = (Inr (of_nat (wal_bytes crc segs)), w3)"
    using wal_total_len_quiet [OF assms(7,8) lt] by blast
  have full: "\<not> max_size opts < of_nat (wal_bytes crc segs)"
    using assms(4) lt by (simp add: word_less_nat_alt unat_u64_of_nat not_less)
  have ne: "length segs - 1 < length segs" using assms(8) by (cases segs) (simp_all add: wal_disk_def)
  have q3: "quiet w3" by (rule io_step_quiet [OF w3(1) assms(7)])
  obtain w4 where w4: "io_step w3 w4" "open_segment (of_nat (length segs - 1)) w3 = (Inr (), w4)"
    using open_segment_quiet [OF q3] wal_disk_segment(4) [OF assms(8) ne] io_step_frame(1) [OF w3(1)] by metis
  obtain w5 where w5: "io_call (segment_path (of_nat (length segs - 1))) w4 = (Inr (), w5)" "io_step w4 w5"
    using io_call_quiet [OF io_step_quiet [OF w4(1) q3]] by blast
  note s = io_step_trans [OF io_step_trans [OF w3(1) w4(1)] w5(2)]
  show ?thesis
    apply (rule exI [of _ "\<lparr>options = opts, active_id = of_nat (length segs - 1),
        active_len = of_nat (length (seg_bytes crc (last segs))),
        total_len = of_nat (wal_bytes crc segs), poisoned = False\<rparr>"])
    apply (rule exI [of _ w5])
    using assms(1,4,5,6) w3(2) w4(2) w5(1) full s wal_disk_io_step [OF s] assms(8) io_step_frame [OF s]
    by (simp add: wal_open_def wal_inv_def)
qed

lemma wal_open_ok:
  assumes "validate_options opts = Inr ()" "quiet w" "\<not> w_locked w"
    and "wal_bytes crc segs \<le> unat (max_size opts)"
    and "wal_disk crc (segment_size opts) w segs t \<or> segs = [[]] \<and> wal_names (w_files w) 0"
  shows "\<exists>wal w'. wal_open crc opts w = (Inr wal, w') \<and> options wal = opts
    \<and> wal_inv crc (wal, w') segs \<and> quiet w'
    \<and> (segments_synced w \<longrightarrow> durable crc w' segs (length (last segs)))"
proof -
  obtain w0 where w0: "io_step w w0" "wal_lock w = (Inr (),
      w0\<lparr>w_files := bm_insert LOCK_FILE (file_content w LOCK_FILE) (w_files w), w_locked := True\<rparr>)"
    (is "_ = (Inr (), ?w1)") using wal_lock_quiet [OF assms(2,3)] by blast
  have q1: "quiet ?w1" using io_step_quiet [OF w0(1) assms(2)] by (simp add: quiet_def)
  have s1: "segments_synced ?w1 = segments_synced w" using io_step_frame [OF w0(1)]
    by (simp add: segments_synced_def synced_content_def file_content_def bm_get_insert)
  have "\<exists>w2. wal_recover crc (segment_size opts) ?w1 =
      (Inr (of_nat (length segs - 1), of_nat (length (seg_bytes crc (last segs)))), w2)
    \<and> quiet w2 \<and> w_locked w2 \<and> wal_disk crc (segment_size opts) w2 segs []
    \<and> (segments_synced ?w1 \<longrightarrow> segments_synced w2)"
    using assms(5)
  proof (elim disjE conjE)
    assume "wal_disk crc (segment_size opts) w segs t"
    then have d: "wal_disk crc (segment_size opts) ?w1 segs t" by (subst wal_disk_LOCK) simp_all
    from wal_recover_quiet [OF q1 d] obtain w2 where w2: "io_step ?w1 w2"
      "wal_recover crc (segment_size opts) ?w1 =
        (Inr (of_nat (length segs - 1), of_nat (length (seg_bytes crc (last segs)))),
         if t = [] then w2 else w2\<lparr>w_files := bm_insert (segment_path (of_nat (length segs - 1)))
             (seg_bytes crc (last segs)) (w_files ?w1),
           w_synced := bm_insert (segment_path (of_nat (length segs - 1)))
             (seg_bytes crc (last segs)) (w_synced ?w1)\<rparr>)" (is "_ = (_, ?w2)") by blast
    have "wal_disk crc (segment_size opts) ?w2 segs []"
    proof (cases "t = []")
      case True
      with d wal_disk_io_step [OF w2(1)] show ?thesis by simp
    next
      case False
      then show ?thesis by (intro wal_disk_truncate [OF d]) simp
    qed
    moreover have "quiet ?w2" "w_locked ?w2"
      using io_step_quiet [OF w2(1) q1] io_step_frame(4) [OF w2(1)] by (simp_all add: quiet_def)
    moreover have "segments_synced ?w1 \<longrightarrow> segments_synced ?w2"
    proof (intro impI)
      assume "segments_synced ?w1"
      moreover have "bm_get (w_files ?w1) (segment_path (of_nat (length segs - 1))) \<noteq> None"
        using d unfolding wal_disk_def by (cases segs) auto
      ultimately show "segments_synced ?w2" using io_step_frame [OF w2(1)]
        by (auto simp: segments_synced_def synced_content_def file_content_def bm_get_insert
            simp del: One_nat_def)
    qed
    ultimately show ?thesis using w2(2) by blast
  next
    assume n: "segs = [[]]" "wal_names (w_files w) 0"
    let ?f = "bm_insert (segment_path 0) [] (w_files ?w1)"
    have "wal_names (w_files ?w1) 0" using n(2) by (simp add: wal_names_LOCK)
    from wal_recover_fresh [OF q1 this] obtain w2 where w2: "io_step ?w1 w2"
      "wal_recover crc (segment_size opts) ?w1 =
        (Inr (0, 0), w2\<lparr>w_files := ?f, w_entries := bts_of_list (bm_keys ?f)\<rparr>)" (is "_ = (_, ?w2)") by blast
    have "wal_disk crc (segment_size opts) ?w2 segs []"
      using n \<open>wal_names (w_files ?w1) 0\<close> unfolding wal_disk_def wal_names_def
      by (auto simp: bm_get_insert)
    moreover have "quiet ?w2" "w_locked ?w2"
      using io_step_quiet [OF w2(1) q1] io_step_frame(4) [OF w2(1)] by (simp_all add: quiet_def)
    moreover have "segments_synced ?w1 \<longrightarrow> segments_synced ?w2"
    proof (intro impI)
      assume "segments_synced ?w1"
      moreover have "bm_get (w_files ?w1) (segment_path 0) = None"
        using \<open>wal_names (w_files ?w1) 0\<close> split_segment_path [of 0] unfolding wal_names_def by auto
      ultimately show "segments_synced ?w2" using io_step_frame [OF w2(1)]
        by (auto simp: segments_synced_def synced_content_def file_content_def bm_get_insert bm_keys_iff
            split: option.splits)
    qed
    ultimately show ?thesis using w2(2) n(1) by (intro exI [of _ ?w2]) simp
  qed
  then obtain w2 where w2: "wal_recover crc (segment_size opts) ?w1 =
      (Inr (of_nat (length segs - 1), of_nat (length (seg_bytes crc (last segs)))), w2)"
    "quiet w2" "w_locked w2" "wal_disk crc (segment_size opts) w2 segs []"
    "segments_synced ?w1 \<longrightarrow> segments_synced w2" by blast
  from wal_open_tail [OF assms(1-4) w0(2) w2(1,2,4)] obtain wal w3 where
    w3: "wal_open crc opts w = (Inr wal, w3)" "io_step w2 w3" "options wal = opts"
      "wal_inv crc (wal, w3) segs" using w2(3) by blast
  have "segments_synced w \<longrightarrow> durable crc w3 segs (length (last segs))"
    using s1 w2(4,5) segments_synced_io_step [OF w3(2)] wal_disk_io_step [OF w3(2)]
      segments_synced_durable [of w3] by blast
  with w3 io_step_quiet [OF w3(2) w2(2)] show ?thesis by blast
qed

section \<open>Syncing, rotating and writing\<close>

declare of_nat_diff [simp del]

lemma last_index_neq:
  assumes "length segs \<le> 2 ^ 64" "i < length segs - 1"
  shows "segment_path (of_nat i) \<noteq> segment_path (of_nat (length segs - 1))"
proof -
  have "i < 2 ^ 64" "length segs - 1 < 2 ^ 64" using assms by linarith+
  then show ?thesis using assms(2) by (simp add: of_nat_u64_inj del: One_nat_def)
qed

lemma wal_disk_last:
  assumes "wal_disk crc ss w segs t"
  shows "bm_get (w_files w) (segment_path (of_nat (length segs - 1))) = Some (seg_bytes crc (last segs) @ t)"
  using wal_disk_segment(4) [OF assms, of "length segs - 1"] assms
  by (cases "segs = []") (auto simp: wal_disk_def last_conv_nth)

lemma synced_upto_io_step: "io_step w w' \<Longrightarrow> synced_upto crc w' segs k = synced_upto crc w segs k"
  by (simp add: synced_upto_def synced_content_def io_step_frame)

lemma durable_io_step: "io_step w w' \<Longrightarrow> durable crc w' segs k = durable crc w segs k"
  by (simp add: durable_def synced_upto_io_step io_step_frame)

lemma sync_file_cases:
  obtains (ok) w1 where "io_step w w1"
    "sync_file p w = (Inr (), w1\<lparr>w_synced := bm_insert p (file_content w p) (w_synced w)\<rparr>)"
  | (failed) w1 where "io_step w w1" "sync_file p w = (Inl (Io p), w1)" "\<not> quiet w"
  by (cases rule: io_call_cases [of p w]) (auto simp: sync_file_def io_step_frame)

lemma durable_sync:
  assumes "wal_disk crc ss w segs []" "durable crc w segs k" "io_step w w1"
    and "p = segment_path (of_nat (length segs - 1))"
  shows "durable crc (w1\<lparr>w_synced := bm_insert p (file_content w p) (w_synced w)\<rparr>) segs (length (last segs))"
proof -
  let ?w = "w1\<lparr>w_synced := bm_insert p (file_content w p) (w_synced w)\<rparr>"
  have l: "bm_get (w_files w) p = Some (seg_bytes crc (last segs))"
    using wal_disk_last [OF assms(1)] assms(4) by simp
  have c: "synced_content ?w q = (if q = p then file_content w p else synced_content w q)" for q
    by (simp add: synced_content_def bm_get_insert)
  have n: "i < length segs - 1 \<Longrightarrow> segment_path (of_nat i) \<noteq> p" for i
    using last_index_neq [of segs i] assms(1,4) by (simp add: wal_disk_def del: One_nat_def)
  show ?thesis using assms(2) l n
    unfolding durable_def synced_upto_def c assms(4) [symmetric]
    by (auto simp: file_content_def io_step_frame [OF assms(3)])
qed

lemma wal_sync_cases:
  assumes "wal_inv crc (wal, w) segs"
  obtains (ok) w' where "wal_sync (wal, w) = (Inr (), (wal, w'))" "wal_inv crc (wal, w') segs"
      "w_files w' = w_files w" "w_entries w' = w_entries w" "quiet w \<longrightarrow> quiet w'"
      "\<And>k. durable crc w segs k \<Longrightarrow> durable crc w' segs (length (last segs))"
      "\<And>k. durable crc w' segs k \<Longrightarrow> durable crc w' segs (length (last segs))"
  | (failed) w' e where "wal_sync (wal, w) = (Inl e, (wal\<lparr>poisoned := True\<rparr>, w'))" "io_step w w'" "\<not> quiet w"
proof -
  let ?p = "segment_path (active_id wal)"
  have np: "\<not> poisoned wal" using assms by (simp add: wal_inv_def)
  show thesis
  proof (cases rule: sync_file_cases [of w ?p])
    case (ok w1)
    let ?w = "w1\<lparr>w_synced := bm_insert ?p (file_content w ?p) (w_synced w)\<rparr>"
    show thesis
    proof (rule that(1) [of ?w])
      show "wal_sync (wal, w) = (Inr (), (wal, ?w))"
        using ok(2) np by (simp add: wal_sync_def ensure_healthy_def)
      show "wal_inv crc (wal, ?w) segs"
        using assms io_step_frame [OF ok(1)] by (auto simp: wal_inv_def wal_disk_def)
      show "quiet w \<longrightarrow> quiet ?w" using io_step_quiet [OF ok(1)] by (simp add: quiet_def)
      show "durable crc ?w segs (length (last segs))" if "durable crc w segs k" for k
        using durable_sync [OF _ that ok(1) arg_cong [where f = segment_path]] assms
        unfolding wal_inv_def by auto
      have l: "bm_get (w_files w) ?p = Some (seg_bytes crc (last segs))"
        "?p = segment_path (of_nat (length segs - 1))"
        using wal_disk_last [of crc "segment_size (options wal)" w segs "[]"] assms
        by (simp_all add: wal_inv_def)
      have "synced_content ?w ?p = seg_bytes crc (last segs)"
        using l(1) by (simp add: synced_content_def bm_get_insert file_content_def)
      then show "durable crc ?w segs (length (last segs))" if "durable crc ?w segs k" for k
        using that unfolding durable_def synced_upto_def l(2) [symmetric] by simp
    qed (use io_step_frame [OF ok(1)] in simp_all)
  next
    case (failed w1)
    then show thesis using np
      by (intro that(2) [of "Io ?p" w1]) (simp_all add: wal_sync_def ensure_healthy_def)
  qed
qed

lemma next_segment_absent:
  assumes "wal_disk crc ss w segs t" "length segs < 2 ^ 64"
  shows "bm_get (w_files w) (segment_path (of_nat (length segs))) = None"
proof (rule ccontr)
  assume "bm_get (w_files w) (segment_path (of_nat (length segs))) \<noteq> None"
  with assms(1) obtain i where "i < length segs" "segment_path (of_nat (length segs)) = segment_path (of_nat i)"
    using split_segment_path [of "of_nat (length segs)"] unfolding wal_disk_def wal_names_def by auto
  with assms(2) show False by (simp add: of_nat_u64_inj)
qed

lemma durable_extend:
  assumes "wal_disk crc ss w segs []" "durable crc w segs (length (last segs))" "length segs < 2 ^ 64"
    and "w_files w' = bm_insert (segment_path (of_nat (length segs))) [] (w_files w)"
    and "w_synced w' = w_synced w" "elems (w_entries w) \<subseteq> elems (w_entries w')"
  shows "synced_upto crc w' (segs @ [[]]) 0"
proof -
  have ne: "segs \<noteq> []" using assms(1) by (simp add: wal_disk_def)
  have "synced_content w (segment_path (of_nat i)) = seg_bytes crc (segs ! i)
      \<and> segment_path (of_nat i) \<in> elems (w_entries w)" if "i < length segs" for i
    using assms(2) that ne unfolding durable_def synced_upto_def
    by (cases "i = length segs - 1") (auto simp: last_conv_nth)
  moreover have "synced_content w (segment_path (of_nat (length segs))) = []"
    using next_segment_absent [OF assms(1,3)] assms(2) by (simp add: durable_def synced_upto_def)
  ultimately show ?thesis using assms(2,6) unfolding durable_def synced_upto_def
    by (auto simp: synced_content_def assms(4,5) bm_get_insert nth_append)
qed

lemma open_segment_cases:
  assumes "bm_get (w_files w) (segment_path i) = None"
  obtains (ok) w1 where "io_step w w1"
    "open_segment i w = (Inr (), w1\<lparr>w_files := bm_insert (segment_path i) [] (w_files w)\<rparr>)"
  | (failed) w1 e where "io_step w w1" "open_segment i w = (Inl e, w1)" "\<not> quiet w"
  using assms by (cases rule: io_call_cases [of "segment_path i" w])
    (auto simp: open_segment_def io_step_frame file_content_def)

lemma sync_dir_cases:
  obtains (ok) w1 where "io_step w w1"
    "sync_dir w = (Inr (), w1\<lparr>w_entries := bts_of_list (bm_keys (w_files w))\<rparr>)"
  | (failed) w1 e where "io_step w w1" "sync_dir w = (Inl e, w1)" "\<not> quiet w"
  by (cases rule: io_call_cases [of "[]" w]) (auto simp: sync_dir_def io_step_frame)

text \<open>
  The outcomes of \<open>rotate_if_needed\<close>. When it fails, the directory still holds the same records
  and at least as much of them is synced as before.
\<close>

definition rotate_failed ::
    "(bytes \<Rightarrow> u32) \<Rightarrow> Wal \<times> World \<Rightarrow> Record list list \<Rightarrow> Wal \<times> World \<Rightarrow> bool" where
  "rotate_failed crc s segs s' \<longleftrightarrow>
    options (fst s') = options (fst s)
    \<and> (\<exists>segs'. (segs' = segs \<or> segs' = segs @ [[]])
        \<and> wal_disk crc (segment_size (options (fst s))) (snd s') segs' []
        \<and> (\<forall>k. durable crc (snd s) segs k \<longrightarrow>
            (\<exists>k'. crash_safe crc (snd s') segs' [] k'
              \<and> prefix (synced_records segs k) (synced_records segs' k'))))"

lemma concat_butlast_last: "segs \<noteq> [] \<Longrightarrow> concat segs = concat (butlast segs) @ last segs"
  by (induction segs) auto

lemma prefix_synced_records: "segs \<noteq> [] \<Longrightarrow> prefix (synced_records segs k) (concat segs)"
  using concat_butlast_last [of segs] by (simp add: synced_records_def take_is_prefix)

lemma synced_records_all: "segs \<noteq> [] \<Longrightarrow> synced_records segs (length (last segs)) = concat segs"
  using concat_butlast_last [of segs] by (simp add: synced_records_def)

lemma synced_records_new: "synced_records (segs @ [[]]) k = concat segs"
  by (simp add: synced_records_def)

lemma durable_crash_safe: "durable crc w segs k \<Longrightarrow> crash_safe crc w segs t k"
  by (simp add: durable_def crash_safe_def)

lemma rotate_failed_same:
  assumes "wal_disk crc (segment_size (options wal)) w' segs []" "options wal' = options wal"
    and "\<And>k. durable crc w segs k \<Longrightarrow> \<exists>k'\<ge>k. durable crc w' segs k'"
  shows "rotate_failed crc (wal, w) segs (wal', w')"
proof -
  have "prefix (synced_records segs k) (synced_records segs k')" if "k \<le> k'" for k k'
    using take_is_prefix [of k "take k' (last segs)"] that by (simp add: synced_records_def min_absorb1)
  then have "\<exists>k'. crash_safe crc w' segs [] k' \<and> prefix (synced_records segs k) (synced_records segs k')"
    if "durable crc w segs k" for k using assms(3) [OF that] durable_crash_safe by blast
  then show ?thesis using assms(1,2) unfolding rotate_failed_def
    by (intro conjI exI [of _ segs]) simp_all
qed

text \<open>Opening the next segment, once the active one is synced.\<close>

lemma rotate_next_cases:
  assumes inv: "wal_inv crc (wal, w) segs" and len: "length segs < 2 ^ 64"
  obtains (ok) w' where "io_bind (on_world (open_segment (of_nat (length segs))) (wal, w)) (\<lambda>_ s.
        io_bind (on_world sync_dir s) (\<lambda>_ (wal, w).
          (Inr (), (wal\<lparr>active_id := of_nat (length segs), active_len := 0\<rparr>, w)))) =
        (Inr (), (wal\<lparr>active_id := of_nat (length segs), active_len := 0\<rparr>, w'))"
      "wal_inv crc (wal\<lparr>active_id := of_nat (length segs), active_len := 0\<rparr>, w') (segs @ [[]])"
      "durable crc w segs (length (last segs)) \<Longrightarrow> durable crc w' (segs @ [[]]) 0" "quiet w \<longrightarrow> quiet w'"
  | (failed) w' e where "io_bind (on_world (open_segment (of_nat (length segs))) (wal, w)) (\<lambda>_ s.
        io_bind (on_world sync_dir s) (\<lambda>_ (wal, w).
          (Inr (), (wal\<lparr>active_id := of_nat (length segs), active_len := 0\<rparr>, w)))) = (Inl e, (wal, w'))"
      "(\<And>k. durable crc w segs k \<Longrightarrow> durable crc w segs (length (last segs))) \<Longrightarrow>
        rotate_failed crc (wal, w) segs (wal, w')" "\<not> quiet w"
proof -
  let ?p = "segment_path (of_nat (length segs))" and ?ss = "segment_size (options wal)"
  have d: "wal_disk crc ?ss w segs []" using inv by (simp add: wal_inv_def)
  then have ne: "segs \<noteq> []" by (simp add: wal_disk_def)
  from next_segment_absent [OF d len] show thesis
  proof (cases rule: open_segment_cases)
    case (failed w1 e)
    show thesis
    proof (rule that(2) [of e w1])
      show "rotate_failed crc (wal, w) segs (wal, w1)"
        using d by (intro rotate_failed_same) (auto simp: wal_disk_io_step [OF failed(1)] durable_io_step [OF failed(1)])
    qed (use failed in \<open>simp_all add: on_world_def\<close>)
  next
    case (ok w1)
    let ?w1 = "w1\<lparr>w_files := bm_insert ?p [] (w_files w)\<rparr>"
    note f = io_step_frame [OF ok(1)]
    show thesis
    proof (cases rule: sync_dir_cases [of ?w1])
      case (ok w2)
      let ?w2 = "w2\<lparr>w_entries := bts_of_list (bm_keys (w_files ?w1))\<rparr>"
      have files: "w_files ?w2 = bm_insert ?p [] (w_files w)" "w_synced ?w2 = w_synced w" "w_locked ?w2 = w_locked w"
        using io_step_frame [OF ok(1)] f by simp_all
      have ext: "wal_disk crc ?ss ?w2 (segs @ [[]]) []" by (rule wal_disk_extend [OF d len files(1)])
      show thesis
      proof (rule that(1) [of ?w2])
        show "wal_inv crc (wal\<lparr>active_id := of_nat (length segs), active_len := 0\<rparr>, ?w2) (segs @ [[]])"
          using inv ext files(3) by (simp add: wal_inv_def)
        show "quiet w \<longrightarrow> quiet ?w2" using io_step_quiet [OF \<open>io_step w w1\<close>] io_step_quiet [OF ok(1)]
          by (simp add: quiet_def)
        show "durable crc ?w2 (segs @ [[]]) 0" if du: "durable crc w segs (length (last segs))"
        proof -
          have "segment_path (of_nat i) \<in> elems (w_entries ?w2)" if "i \<le> length segs" for i
            using that wal_disk_segment(4) [OF ext, of i] files(1) by (simp add: bm_keys_iff)
          moreover have "synced_upto crc ?w2 (segs @ [[]]) 0"
            using durable_extend [OF d du len, of "?w2\<lparr>w_entries := w_entries w\<rparr>"] files calculation
            by (auto simp: synced_upto_def synced_content_def)
          ultimately show ?thesis by (simp add: durable_def)
        qed
      qed (use \<open>open_segment _ w = _\<close> ok in \<open>simp add: on_world_def\<close>)
    next
      case (failed w2 e)
      have files: "w_files w2 = bm_insert ?p [] (w_files w)" "w_synced w2 = w_synced w" "w_entries w2 = w_entries w"
        using io_step_frame [OF failed(1)] f by simp_all
      show thesis
      proof (rule that(2) [of e w2])
        show "\<not> quiet w" using failed(3) io_step_quiet [OF ok(1)] by (auto simp: quiet_def)
        assume all: "\<And>k. durable crc w segs k \<Longrightarrow> durable crc w segs (length (last segs))"
        have "crash_safe crc w2 (segs @ [[]]) [] 0" if "durable crc w segs k" for k
          using durable_extend [OF d all [OF that] len files(1,2)] files(3) ne
          by (cases segs) (simp_all add: crash_safe_def)
        then show "rotate_failed crc (wal, w) segs (wal, w2)"
          using wal_disk_extend [OF d len files(1)] prefix_synced_records [OF ne]
          unfolding rotate_failed_def by (intro conjI exI [of _ "segs @ [[]]"]) (auto simp: synced_records_new)
      qed (use ok failed in \<open>simp add: on_world_def\<close>)
    qed
  qed
qed

lemma active_len_unat:
  assumes "wal_inv crc (wal, w) segs"
  shows "unat (active_len wal) = length (seg_bytes crc (last segs))"
    "length (seg_bytes crc (last segs)) \<le> wal_bytes crc segs"
    "unat (total_len wal) = wal_bytes crc segs"
proof -
  have ne: "segs \<noteq> []" and b: "wal_bytes crc segs \<le> unat (max_size (options wal))"
    using assms by (simp_all add: wal_inv_def wal_disk_def)
  then show le: "length (seg_bytes crc (last segs)) \<le> wal_bytes crc segs"
    by (cases segs rule: rev_cases) simp_all
  have "wal_bytes crc segs < 2 ^ 64" using b unat_u64_lt by (rule le_less_trans)
  with le assms show "unat (active_len wal) = length (seg_bytes crc (last segs))"
    "unat (total_len wal) = wal_bytes crc segs"
    by (simp_all add: wal_inv_def unat_u64_of_nat)
qed

lemma prefix_synced_mono: "k \<le> k' \<Longrightarrow> prefix (synced_records segs k) (synced_records segs k')"
  using take_is_prefix [of k "take k' (last segs)"] by (simp add: synced_records_def min_absorb1)

lemma rotate_failed_trans:
  assumes "rotate_failed crc (wal, w1) segs s'"
    and "\<And>k. durable crc w segs k \<Longrightarrow> \<exists>k'\<ge>k. durable crc w1 segs k'"
  shows "rotate_failed crc (wal, w) segs s'"
proof -
  obtain segs' where s: "segs' = segs \<or> segs' = segs @ [[]]"
    "wal_disk crc (segment_size (options wal)) (snd s') segs' []" "options (fst s') = options wal"
    and d: "\<And>k. durable crc w1 segs k \<Longrightarrow> \<exists>k'. crash_safe crc (snd s') segs' [] k'
              \<and> prefix (synced_records segs k) (synced_records segs' k')"
    using assms(1) by (auto simp: rotate_failed_def)
  have "\<exists>k'. crash_safe crc (snd s') segs' [] k' \<and> prefix (synced_records segs k) (synced_records segs' k')"
    if "durable crc w segs k" for k
    using assms(2) [OF that] d prefix_synced_mono prefix_order.trans by blast
  with s show ?thesis unfolding rotate_failed_def by (intro conjI exI [of _ segs']) simp_all
qed

lemma next_id:
  assumes "wal_inv crc (wal, w) segs"
  shows "checked_add (active_id wal) 1 =
    (if length segs = 2 ^ 64 then None else Some (of_nat (length segs)))"
proof -
  have ne: "segs \<noteq> []" and le: "length segs \<le> 2 ^ 64" and id: "active_id wal = of_nat (length segs - 1)"
    using assms by (simp_all add: wal_inv_def wal_disk_def)
  have lt: "length segs - 1 < 2 ^ 64" using ne le by (cases segs) simp_all
  have u: "unat (active_id wal) = length segs - 1" unfolding id by (rule unat_u64_of_nat [OF lt])
  show ?thesis
  proof (cases "length segs = 2 ^ 64")
    case True
    then show ?thesis using u by (simp add: checked_add_None_iff)
  next
    case False
    then have "unat (of_nat (length segs) :: u64) = length segs" using le by (intro unat_u64_of_nat) simp
    with False u ne show ?thesis by (simp add: checked_add_Some_iff)
  qed
qed

lemma rotate_cases:
  assumes inv: "wal_inv crc (wal, w) segs" and n: "wal_bytes crc segs + n < 2 ^ 64"
  obtains (large) "rotate_if_needed n (wal, w) =
      (Inl (RecordTooLarge (of_nat n) (segment_size (options wal))), (wal, w))"
      "unat (segment_size (options wal)) < n"
  | (stay) "rotate_if_needed n (wal, w) = (Inr (), (wal, w))"
      "length (seg_bytes crc (last segs)) + n \<le> unat (segment_size (options wal))"
  | (rotated) wal' w' where "rotate_if_needed n (wal, w) = (Inr (), (wal', w'))"
      "wal_inv crc (wal', w') (segs @ [[]])" "options wal' = options wal"
      "total_len wal' = total_len wal" "n \<le> unat (segment_size (options wal))" "quiet w \<longrightarrow> quiet w'"
      "\<And>k. durable crc w segs k \<Longrightarrow> durable crc w' (segs @ [[]]) 0" "last segs \<noteq> []"
  | (failed) e s' where "rotate_if_needed n (wal, w) = (Inl e, s')" "rotate_failed crc (wal, w) segs s'"
      "quiet w \<longrightarrow> length segs = 2 ^ 64"
proof -
  let ?ss = "segment_size (options wal)" and ?len = "length (seg_bytes crc (last segs))"
  have d: "wal_disk crc ?ss w segs []" using inv by (simp add: wal_inv_def)
  note len = active_len_unat [OF inv]
  have un: "unat (of_nat n :: u64) = n" "fits_u64 n"
    using n by (simp_all add: unat_u64_of_nat fits_u64_iff)
  have sum: "unat (active_len wal) + unat (of_nat n :: u64) < 2 ^ 64" using n len(1,2) un(1) by linarith
  have add: "unat (active_len wal + of_nat n) = ?len + n" using unat_u64_add [OF sum] len(1) un(1) by simp
  have chk: "checked_add (active_len wal) (of_nat n) = Some (active_len wal + of_nat n)"
    using add len(1) un(1) by (simp add: checked_add_Some_iff)
  have zero: "active_len wal = 0 \<longleftrightarrow> ?len = 0" using len(1) unat_eq_zero by metis
  show thesis
  proof (cases "?ss < of_nat n")
    case True
    with un show thesis by (intro that(1)) (simp_all add: rotate_if_needed_def Let_def word_less_nat_alt)
  next
    case fits: False
    then have fits': "n \<le> unat ?ss" using un by (simp add: word_less_nat_alt)
    show thesis
    proof (cases "active_len wal \<noteq> 0 \<and> ?ss < active_len wal + of_nat n")
      case False
      then have "?len + n \<le> unat ?ss" using fits' zero add by (auto simp: word_less_nat_alt)
      with False fits un chk show thesis by (intro that(2)) (auto simp: rotate_if_needed_def Let_def)
    next
      case True
      let ?next = "\<lambda>s. io_bind (on_world (open_segment (of_nat (length segs))) s) (\<lambda>_ s.
        io_bind (on_world sync_dir s) (\<lambda>_ (wal, w).
          (Inr (), (wal\<lparr>active_id := of_nat (length segs), active_len := 0\<rparr>, w))))"
      have last: "last segs \<noteq> []" using True zero by simp
      have rot: "rotate_if_needed n (wal, w) = io_bind (wal_sync (wal, w)) (\<lambda>_ s.
          case checked_add (active_id (fst s)) 1 of
            None \<Rightarrow> (Inl SegmentIdExhausted, s)
          | Some i \<Rightarrow> io_bind (on_world (open_segment i) s) (\<lambda>_ s.
              io_bind (on_world sync_dir s) (\<lambda>_ (wal, w).
                (Inr (), (wal\<lparr>active_id := i, active_len := 0\<rparr>, w)))))"
        using True fits un chk by (simp add: rotate_if_needed_def Let_def)
      from inv show thesis
      proof (cases rule: wal_sync_cases)
        case (failed w' e)
        have "rotate_failed crc (wal, w) segs (wal\<lparr>poisoned := True\<rparr>, w')"
          using d by (intro rotate_failed_same)
            (auto simp: wal_disk_io_step [OF failed(2)] durable_io_step [OF failed(2)])
        with failed rot show thesis by (intro that(4)) auto
      next
        case (ok w1)
        note id = next_id [OF ok(2)]
        have dur: "\<exists>k'\<ge>k. durable crc w1 segs k'" if "durable crc w segs k" for k
          using ok(6) [OF that] that by (auto simp: durable_def synced_upto_def)
        note synced = ok(7)
        show thesis
        proof (cases "length segs = 2 ^ 64")
          case True
          have "rotate_failed crc (wal, w) segs (wal, w1)"
            using ok(2) dur by (intro rotate_failed_same) (simp_all add: wal_inv_def)
          with True ok(1) rot id show thesis by (intro that(4)) auto
        next
          case False
          then have lt: "length segs < 2 ^ 64" using d by (simp add: wal_disk_def)
          have eq: "rotate_if_needed n (wal, w) = ?next (wal, w1)" using rot ok(1) id False by simp
          from ok(2) lt show thesis
          proof (cases rule: rotate_next_cases)
            case (ok w')
            show thesis
            proof (rule that(3))
              show "rotate_if_needed n (wal, w) =
                  (Inr (), (wal\<lparr>active_id := of_nat (length segs), active_len := 0\<rparr>, w'))"
                unfolding eq by (rule ok(1))
              show "durable crc w' (segs @ [[]]) 0" if "durable crc w segs k" for k
                by (rule ok(3)) (rule \<open>\<And>k. durable crc w segs k \<Longrightarrow> durable crc w1 segs (length (last segs))\<close> [OF that])
            qed (use ok(2,4) \<open>quiet w \<longrightarrow> quiet w1\<close> fits' last in simp_all)
          next
            case (failed w' e)
            show thesis
            proof (rule that(4))
              show "rotate_if_needed n (wal, w) = (Inl e, (wal, w'))" unfolding eq by (rule failed(1))
              show "rotate_failed crc (wal, w) segs (wal, w')"
                using rotate_failed_trans [OF failed(2) dur] synced by blast
            qed (use failed(3) \<open>quiet w \<longrightarrow> quiet w1\<close> in simp)
          qed
        qed
      qed
    qed
  qed
qed

section \<open>Appending\<close>

lemma append_step_frame:
  assumes "append_step p bs w w'"
  shows "w_files w' = bm_insert p (file_content w p @ bs) (w_files w)" "w_synced w' = w_synced w"
    "w_entries w' = w_entries w" "w_locked w' = w_locked w" "quiet w \<Longrightarrow> quiet w'"
  using assms by (auto simp: append_step_def append_file_def quiet_def)

lemma durable_frame:
  assumes "durable crc w segs k" "w_synced w' = w_synced w" "w_entries w' = w_entries w"
    and "w_files w' = bm_insert p c (w_files w)" "bm_get (w_files w) p \<noteq> None"
    and "butlast segs' = butlast segs" "length segs' = length segs" "k \<le> length (last segs')"
    and "take k (last segs') = take k (last segs)"
  shows "durable crc w' segs' k"
proof -
  have "segs' ! i = segs ! i" if "i < length segs - 1" for i
    using that assms(6,7) by (metis nth_butlast length_butlast)
  then show ?thesis using assms unfolding durable_def synced_upto_def
    by (auto simp: synced_content_def bm_get_insert split: if_splits)
qed

lemma write_cases:
  assumes inv: "wal_inv crc (wal, w) segs" and r: "record_fits r"
    and len: "length (seg_bytes crc (last segs)) + length (enc crc r) \<le> unat (segment_size (options wal))"
  obtains (ok) w' where "write_or_poison (enc crc r) (wal, w) = (Inr (), (wal, w'))"
      "wal_disk crc (segment_size (options wal)) w' (butlast segs @ [last segs @ [r]]) []" "w_locked w'"
      "\<And>k. durable crc w segs k \<Longrightarrow> durable crc w' (butlast segs @ [last segs @ [r]]) k" "quiet w \<longrightarrow> quiet w'"
  | (failed) w' e t where "write_or_poison (enc crc r) (wal, w) = (Inl e, (wal\<lparr>poisoned := True\<rparr>, w'))"
      "wal_disk crc (segment_size (options wal)) w' segs t"
      "\<And>k. durable crc w segs k \<Longrightarrow> durable crc w' segs k" "\<not> quiet w"
proof -
  let ?p = "segment_path (active_id wal)" and ?ss = "segment_size (options wal)"
  have d: "wal_disk crc ?ss w segs []" and id: "active_id wal = of_nat (length segs - 1)" and lk: "w_locked w"
    using inv by (simp_all add: wal_inv_def)
  have ne: "segs \<noteq> []" using d by (simp add: wal_disk_def)
  have fits: "\<forall>x\<in>set (last segs). record_fits x" using d ne by (auto simp: wal_disk_def)
  have l: "bm_get (w_files w) ?p = Some (seg_bytes crc (last segs))"
    using wal_disk_last [OF d] id by simp
  then have c: "file_content w ?p = seg_bytes crc (last segs)" by (simp add: file_content_def)
  have "bm_get (w_files w) ?p \<noteq> None" using l by simp
  from write_all_cases [OF this, of "enc crc r"] consider
      (1) w' where "write_all ?p (enc crc r) w = (Inr (), w')" "append_step ?p (enc crc r) w w'"
    | (2) w' k where "write_all ?p (enc crc r) w = (Inl (Io ?p), w')" "k < length (enc crc r)" "\<not> quiet w"
        "k = 0 \<and> io_step w w' \<or> append_step ?p (take k (enc crc r)) w w'"
    by auto
  then show thesis
  proof cases
    case 1
    note f = append_step_frame [OF 1(2)]
    show thesis
    proof (rule that(1) [of w'])
      show "write_or_poison (enc crc r) (wal, w) = (Inr (), (wal, w'))"
        using 1(1) by (simp add: write_or_poison_def)
      show "wal_disk crc ?ss w' (butlast segs @ [last segs @ [r]]) []"
        by (rule wal_disk_update [OF d]) (use f(1) c id r fits len in auto)
      show "durable crc w' (butlast segs @ [last segs @ [r]]) k" if "durable crc w segs k" for k
        by (rule durable_frame [OF that f(2,3,1)]) (use l ne that in \<open>auto simp: durable_def synced_upto_def\<close>)
    qed (use f lk in simp_all)
  next
    case 2
    have t: "torn_tail crc ?ss (length (seg_bytes crc (last segs))) (take k (enc crc r))"
      using r 2(2) len unfolding torn_tail_def by blast
    from 2(4) show thesis
    proof (elim disjE conjE)
      assume "k = 0" "io_step w w'"
      with 2 d show thesis
        by (intro that(2) [of "Io ?p" w' "[]"])
           (simp_all add: write_or_poison_def wal_disk_io_step durable_io_step)
    next
      assume st: "append_step ?p (take k (enc crc r)) w w'"
      note f = append_step_frame [OF st]
      show thesis
      proof (rule that(2) [of "Io ?p" w' "take k (enc crc r)"])
        show "write_or_poison (enc crc r) (wal, w) = (Inl (Io ?p), (wal\<lparr>poisoned := True\<rparr>, w'))"
          using 2(1) by (simp add: write_or_poison_def)
        have "wal_disk crc ?ss w' (butlast segs @ [last segs]) (take k (enc crc r))"
          by (rule wal_disk_update [OF d]) (use f(1) c id fits len t in auto)
        then show "wal_disk crc ?ss w' segs (take k (enc crc r))" using ne by simp
        show "durable crc w' segs j" if "durable crc w segs j" for j
          by (rule durable_frame [OF that f(2,3,1)]) (use l that in \<open>auto simp: durable_def synced_upto_def\<close>)
      qed (rule 2(3))
    qed
  qed
qed

text \<open>\<open>appended segs r segs'\<close>: the record went to the end of the last segment, or into a new one.\<close>

definition appended :: "Record list list \<Rightarrow> Record \<Rightarrow> Record list list \<Rightarrow> bool" where
  "appended segs r segs' \<longleftrightarrow> segs' = butlast segs @ [last segs @ [r]] \<or> segs' = segs @ [[r]]"

lemma appended_concat: "segs \<noteq> [] \<Longrightarrow> appended segs r segs' \<Longrightarrow> concat segs' = concat segs @ [r]"
  using concat_butlast_last [of segs] by (auto simp: appended_def)

lemma wal_bytes_last: "segs \<noteq> [] \<Longrightarrow> wal_bytes crc segs = wal_bytes crc (butlast segs) + length (seg_bytes crc (last segs))"
  by (induction segs) auto

lemma wal_bytes_appended:
  "segs \<noteq> [] \<Longrightarrow> appended segs r segs' \<Longrightarrow> wal_bytes crc segs' = wal_bytes crc segs + length (enc crc r)"
  using wal_bytes_last [of segs crc] by (auto simp: appended_def)

lemma checked_add_len_ok:
  assumes "unat a + n < 2 ^ 64"
  shows "checked_add_len a n = Inr (a + of_nat n)" "unat (a + of_nat n) = unat a + n"
proof -
  have n: "unat (of_nat n :: u64) = n" using assms by (intro unat_u64_of_nat) linarith
  show s: "unat (a + of_nat n) = unat a + n" using unat_u64_add [of a "of_nat n"] assms n by simp
  have "fits_u64 n" using assms by (simp add: fits_u64_iff)
  then show "checked_add_len a n = Inr (a + of_nat n)"
    using s n by (simp add: checked_add_len_def checked_add_Some_iff [THEN iffD2])
qed

lemma write_record_cases:
  assumes inv: "wal_inv crc (wal, w) segs" and r: "record_fits r" "r = \<lparr>rec_kind = kind, rec_payload = payload\<rparr>"
    and len: "length (seg_bytes crc (last segs)) + length (enc crc r) \<le> unat (segment_size (options wal))"
    and tot: "wal_bytes crc segs + length (enc crc r) \<le> unat (max_size (options wal))"
    and nt: "next_total = of_nat (wal_bytes crc segs + length (enc crc r))"
  defines "segs' \<equiv> butlast segs @ [last segs @ [r]]"
  obtains (ok) wal' w' where "write_record crc kind payload next_total (wal, w) =
        (Inr \<lparr>lsn_segment = active_id wal, lsn_offset = active_len wal\<rparr>, (wal', w'))"
      "wal_inv crc (wal', w') segs'" "options wal' = options wal" "quiet w \<longrightarrow> quiet w'"
      "\<And>k. durable crc w segs k \<Longrightarrow> \<exists>k'\<ge>k. durable crc w' segs' k'
        \<and> (sync_on_append (options wal) \<longrightarrow> k' = length (last segs'))"
  | (failed) e wal' w' segs'' t where "write_record crc kind payload next_total (wal, w) = (Inl e, (wal', w'))"
      "segs'' = segs \<or> segs'' = segs'" "wal_disk crc (segment_size (options wal)) w' segs'' t"
      "\<And>k. durable crc w segs k \<Longrightarrow> durable crc w' segs'' k" "options wal' = options wal" "poisoned wal'" "\<not> quiet w"
proof -
  let ?n = "length (enc crc r)"
  have ne: "segs \<noteq> []" using inv by (simp add: wal_inv_def wal_disk_def)
  have app: "appended segs r segs'" by (simp add: appended_def segs'_def)
  have enc: "encode_record crc kind payload = Inr (enc crc r)"
    using r by (simp add: encode_record_eq record_fits_def)
  note un = active_len_unat [OF inv]
  have lt: "unat (active_len wal) + ?n < 2 ^ 64"
    using len unat_u64_lt [of "segment_size (options wal)"] unfolding un(1) by linarith
  note nl = checked_add_len_ok [OF lt]
  have next_len: "active_len wal + of_nat ?n = of_nat (length (seg_bytes crc (last segs')))"
    using inv by (simp add: wal_inv_def segs'_def del: length_enc)
  let ?wal = "wal\<lparr>active_len := active_len wal + of_nat ?n, total_len := next_total\<rparr>"
  have step: "write_record crc kind payload next_total (wal, w) =
      io_bind (write_or_poison (enc crc r) (wal, w)) (\<lambda>_ (wal', w).
        let s = (wal'\<lparr>active_len := active_len wal + of_nat ?n, total_len := next_total\<rparr>, w) in
        if sync_on_append (options wal')
        then io_bind (wal_sync s) (\<lambda>_ s. (Inr \<lparr>lsn_segment = active_id wal, lsn_offset = active_len wal\<rparr>, s))
        else (Inr \<lparr>lsn_segment = active_id wal, lsn_offset = active_len wal\<rparr>, s))"
    unfolding write_record_def enc io_bind_simps Let_def fst_conv nl(1) ..
  from inv r(1) len show thesis
  proof (cases rule: write_cases)
    case (failed w' e t)
    with step show thesis by (intro that(2) [of e "wal\<lparr>poisoned := True\<rparr>" w' segs t]) simp_all
  next
    case (ok w1)
    have inv1: "wal_inv crc (?wal, w1) segs'"
      using inv ok(2,3) next_len nt tot ne wal_bytes_appended [OF ne app, of crc]
      by (simp add: wal_inv_def segs'_def [symmetric]) (simp add: segs'_def)
    have dur: "durable crc w1 segs' k" if "durable crc w segs k" for k
      using ok(4) [OF that] by (simp add: segs'_def)
    show thesis
    proof (cases "sync_on_append (options wal)")
      case False
      with step ok(1,5) inv1 dur show thesis by (intro that(1) [of ?wal w1]) auto
    next
      case True
      from inv1 show thesis
      proof (cases rule: wal_sync_cases)
        case (failed w' e)
        with step ok(1) True inv1 dur show thesis
          by (intro that(2) [of e "?wal\<lparr>poisoned := True\<rparr>" w' segs' "[]"])
             (use io_step_quiet [OF failed(2)] \<open>quiet w \<longrightarrow> quiet w1\<close> in
               \<open>auto simp: wal_inv_def wal_disk_io_step [OF failed(2)] durable_io_step [OF failed(2)]\<close>)
      next
        case (ok w')
        show thesis
        proof (rule that(1) [of ?wal w'])
          show "write_record crc kind payload next_total (wal, w) =
              (Inr \<lparr>lsn_segment = active_id wal, lsn_offset = active_len wal\<rparr>, (?wal, w'))"
            using step \<open>write_or_poison _ _ = _\<close> True ok(1) by simp
          show "\<exists>k'\<ge>k. durable crc w' segs' k' \<and> (sync_on_append (options wal) \<longrightarrow> k' = length (last segs'))"
            if "durable crc w segs k" for k
            using ok(6) [OF dur [OF that]] dur [OF that] by (auto simp: durable_def synced_upto_def)
        qed (use ok \<open>quiet w \<longrightarrow> quiet w1\<close> in simp_all)
      qed
    qed
  qed
qed

text \<open>
  The outcomes of \<open>append\<close> on a healthy log, whatever the file system does: the record is refused
  for its size, it is appended, or an I/O error leaves the old records, followed perhaps by the
  new one, on disk.
\<close>

definition size_ok :: "Wal \<Rightarrow> Record list list \<Rightarrow> (bytes \<Rightarrow> u32) \<Rightarrow> bytes \<Rightarrow> bool" where
  "size_ok wal segs crc payload \<longleftrightarrow>
    fits_u32 (length payload)
    \<and> wal_bytes crc segs + 32 + length payload \<le> unat (max_size (options wal))
    \<and> 32 + length payload \<le> unat (segment_size (options wal))"

lemma wal_append_start:
  assumes inv: "wal_inv crc (wal, w) segs"
  shows "fits_u32 (length payload) \<and> wal_bytes crc segs + (32 + length payload) \<le> unat (max_size (options wal))
      \<Longrightarrow> wal_append crc kind payload (wal, w) =
        io_bind (rotate_if_needed (32 + length payload) (wal, w)) (\<lambda>_ s.
          write_record crc kind payload (of_nat (wal_bytes crc segs + (32 + length payload))) s)"
    and "\<not> (fits_u32 (length payload) \<and> wal_bytes crc segs + (32 + length payload) \<le> unat (max_size (options wal)))
      \<Longrightarrow> \<exists>e. wal_append crc kind payload (wal, w) = (Inl e, (wal, w))"
proof -
  let ?n = "32 + length payload" and ?max = "max_size (options wal)"
  have np: "\<not> poisoned wal" and t: "total_len wal = of_nat (wal_bytes crc segs)"
    using inv by (simp_all add: wal_inv_def)
  note un = active_len_unat(3) [OF inv]
  have start: "wal_append crc kind payload (wal, w) =
    io_bind (checked_add_len (total_len wal) ?n, (wal, w)) (\<lambda>next_total s.
      if next_total > max_size (options (fst s))
      then (Inl (WalFull next_total (max_size (options (fst s)))), s)
      else io_bind (rotate_if_needed ?n s) (\<lambda>_ s. write_record crc kind payload next_total s))"
    if "fits_u32 (length payload)"
    using np that by (simp add: wal_append_def ensure_healthy_def encoded_len_eq)
  {
    assume a: "fits_u32 (length payload) \<and> wal_bytes crc segs + ?n \<le> unat ?max"
    then have lt: "unat (total_len wal) + ?n < 2 ^ 64"
      using unat_u64_lt [of ?max] un by linarith
    note c = checked_add_len_ok [OF lt]
    have "total_len wal + of_nat ?n = of_nat (wal_bytes crc segs + ?n)" by (simp add: t)
    moreover have "\<not> ?max < total_len wal + of_nat ?n"
      using a c(2) un by (simp add: word_less_nat_alt del: of_nat_add)
    ultimately show "wal_append crc kind payload (wal, w) =
        io_bind (rotate_if_needed ?n (wal, w)) (\<lambda>_ s.
          write_record crc kind payload (of_nat (wal_bytes crc segs + ?n)) s)"
      using start c(1) a by (simp del: of_nat_add)
  next
    assume a: "\<not> (fits_u32 (length payload) \<and> wal_bytes crc segs + ?n \<le> unat ?max)"
    show "\<exists>e. wal_append crc kind payload (wal, w) = (Inl e, (wal, w))"
    proof (cases "fits_u32 (length payload)")
      case False
      then show ?thesis using np by (simp add: wal_append_def ensure_healthy_def encoded_len_eq)
    next
      case True
      show ?thesis
      proof (cases "unat (total_len wal) + ?n < 2 ^ 64")
        case lt: True
        note c = checked_add_len_ok [OF lt]
        have "?max < total_len wal + of_nat ?n"
          using a True c(2) un by (simp add: word_less_nat_alt del: of_nat_add)
        with start [OF True] c(1) show ?thesis by (simp del: of_nat_add)
      next
        case False
        have "checked_add (total_len wal) (of_nat ?n) = None \<or> \<not> fits_u64 ?n"
          using False by (auto simp: checked_add_None_iff fits_u64_iff unat_u64_of_nat simp del: of_nat_add)
        with start [OF True] show ?thesis by (auto simp: checked_add_len_def simp del: of_nat_add)
      qed
    qed
  }
qed

lemma synced_records_append_last:
  assumes "k \<le> length (last segs)" "k \<le> k'"
  shows "prefix (synced_records segs k) (synced_records (butlast segs @ [last segs @ [r]]) k')"
proof -
  have "prefix (take k (last segs)) (take k' (last segs @ [r]))"
    using assms take_is_prefix [of k "take k' (last segs @ [r])"] by (simp add: min_absorb1)
  then show ?thesis by (simp add: synced_records_def)
qed

lemma synced_records_append_new:
  "segs \<noteq> [] \<Longrightarrow> prefix (synced_records segs k) (synced_records (segs @ [[r]]) k')"
  using prefix_synced_records [of segs k] by (simp add: synced_records_def prefix_prefix)

lemma durable_le: "durable crc w segs k \<Longrightarrow> k \<le> length (last segs)"
  by (simp add: durable_def synced_upto_def)

lemma wal_inv_start:
  "wal_inv crc (wal, w) segs \<Longrightarrow>
    active_id wal = of_nat (length segs - 1) \<and> active_len wal = of_nat (length (seg_bytes crc (last segs)))"
  by (simp add: wal_inv_def)

lemma wal_append_cases:
  assumes inv: "wal_inv crc (wal, w) segs" and k: "kind_get kind \<noteq> 0"
    and r: "r = \<lparr>rec_kind = kind, rec_payload = payload\<rparr>"
  obtains (refused) e where "wal_append crc kind payload (wal, w) = (Inl e, (wal, w))"
      "\<not> size_ok wal segs crc payload"
  | (ok) lsn wal' w' segs' where "wal_append crc kind payload (wal, w) = (Inr lsn, (wal', w'))"
      "appended segs r segs'" "wal_inv crc (wal', w') segs'" "options wal' = options wal"
      "lsn = \<lparr>lsn_segment = of_nat (length segs' - 1),
        lsn_offset = of_nat (length (seg_bytes crc (butlast (last segs'))))\<rparr>" "quiet w \<longrightarrow> quiet w'"
      "\<And>k. durable crc w segs k \<Longrightarrow> \<exists>k'. durable crc w' segs' k'
        \<and> prefix (synced_records segs k) (synced_records segs' k')
        \<and> (sync_on_append (options wal) \<longrightarrow> k' = length (last segs'))"
      "size_ok wal segs crc payload"
  | (failed) e wal' w' segs' t where "wal_append crc kind payload (wal, w) = (Inl e, (wal', w'))"
      "concat segs' = concat segs \<or> concat segs' = concat segs @ [r]"
      "wal_bytes crc segs' \<le> unat (max_size (options wal))"
      "wal_disk crc (segment_size (options wal)) w' segs' t" "options wal' = options wal"
      "\<And>k. durable crc w segs k \<Longrightarrow> \<exists>k'. crash_safe crc w' segs' t k'
        \<and> prefix (synced_records segs k) (synced_records segs' k')"
      "quiet w \<longrightarrow> length segs = 2 ^ 64"
proof -
  let ?n = "32 + length payload" and ?max = "unat (max_size (options wal))" and ?ss = "unat (segment_size (options wal))"
  have ne: "segs \<noteq> []" using inv by (simp add: wal_inv_def wal_disk_def)
  have len: "length (enc crc r) = ?n" by (simp add: r)
  show thesis
  proof (cases "fits_u32 (length payload) \<and> wal_bytes crc segs + ?n \<le> ?max")
    case False
    from wal_append_start(2) [OF inv this, of kind] obtain e where
      "wal_append crc kind payload (wal, w) = (Inl e, (wal, w))" by blast
    with False show thesis by (intro that(1)) (auto simp: size_ok_def)
  next
    case fit: True
    note start = wal_append_start(1) [OF inv fit, of kind]
    have rf: "record_fits r" using fit k by (simp add: record_fits_def r)
    have tot: "wal_bytes crc segs + length (enc crc r) \<le> ?max" using fit len by simp
    have lt: "wal_bytes crc segs + ?n < 2 ^ 64"
      using fit unat_u64_lt [of "max_size (options wal)"] by linarith
    from inv lt show thesis
    proof (cases rule: rotate_cases)
      case large
      with start show thesis by (intro that(1)) (auto simp: size_ok_def)
    next
      case (failed e s')
      obtain segs' where s: "segs' = segs \<or> segs' = segs @ [[]]"
        "wal_disk crc (segment_size (options wal)) (snd s') segs' []" "options (fst s') = options wal"
        and d: "\<And>k. durable crc w segs k \<Longrightarrow> \<exists>k'. crash_safe crc (snd s') segs' [] k'
              \<and> prefix (synced_records segs k) (synced_records segs' k')"
        using failed(2) by (auto simp: rotate_failed_def)
      with failed start fit show thesis by (intro that(3) [of e "fst s'" "snd s'" segs' "[]"]) auto
    next
      case stay
      have l: "length (seg_bytes crc (last segs)) + length (enc crc r) \<le> ?ss" using stay(2) len by simp
      have nt: "(of_nat (wal_bytes crc segs + ?n) :: u64) = of_nat (wal_bytes crc segs + length (enc crc r))"
        unfolding len ..
      from inv rf r l tot nt show thesis
      proof (cases rule: write_record_cases)
        case (ok wal' w')
        let ?segs = "butlast segs @ [last segs @ [r]]"
        show thesis
        proof (rule that(2))
          show "wal_append crc kind payload (wal, w) =
              (Inr \<lparr>lsn_segment = active_id wal, lsn_offset = active_len wal\<rparr>, (wal', w'))"
            using start stay(1) ok(1) by simp
          show "\<exists>k'. durable crc w' ?segs k' \<and> prefix (synced_records segs k) (synced_records ?segs k')
              \<and> (sync_on_append (options wal) \<longrightarrow> k' = length (last ?segs))" if "durable crc w segs k" for k
            using ok(5) [OF that] synced_records_append_last [OF durable_le [OF that]] by blast
          show "\<lparr>lsn_segment = active_id wal, lsn_offset = active_len wal\<rparr> =
              \<lparr>lsn_segment = of_nat (length ?segs - 1),
               lsn_offset = of_nat (length (seg_bytes crc (butlast (last ?segs))))\<rparr>"
            using wal_inv_start [OF inv] ne by simp
          show "size_ok wal segs crc payload" using fit stay(2) by (simp add: size_ok_def)
        qed (use ok in \<open>simp_all add: appended_def\<close>)
      next
        case (failed e wal' w' segs'' t)
        have "\<exists>k'. crash_safe crc w' segs'' t k' \<and> prefix (synced_records segs k) (synced_records segs'' k')"
          if "durable crc w segs k" for k
          using failed(2,4) that durable_crash_safe synced_records_append_last [OF durable_le [OF that], of k] by blast
        moreover have "wal_bytes crc segs'' \<le> ?max"
          using failed(2) tot wal_bytes_last [OF ne, of crc] by auto
        moreover have "concat segs'' = concat segs \<or> concat segs'' = concat segs @ [r]"
          using failed(2) appended_concat [OF ne, of r] by (auto simp: appended_def)
        ultimately show thesis using failed start stay(1)
          by (intro that(3) [of e wal' w' segs'' t]) auto
      qed
    next
      case (rotated wal1 w1)
      have opt: "options wal1 = options wal" by (rule rotated(3))
      have l: "length (seg_bytes crc (last (segs @ [[]]))) + length (enc crc r) \<le> unat (segment_size (options wal1))"
        using rotated(5) len opt by simp
      have tot': "wal_bytes crc (segs @ [[]]) + length (enc crc r) \<le> unat (max_size (options wal1))"
        using tot opt by simp
      have nt: "(of_nat (wal_bytes crc segs + ?n) :: u64) = of_nat (wal_bytes crc (segs @ [[]]) + length (enc crc r))"
        unfolding len by simp
      from rotated(2) rf r l tot' nt show thesis
      proof (cases rule: write_record_cases)
        case (ok wal' w')
        show thesis
        proof (rule that(2))
          show "wal_append crc kind payload (wal, w) =
              (Inr \<lparr>lsn_segment = active_id wal1, lsn_offset = active_len wal1\<rparr>, (wal', w'))"
            using start rotated(1) ok(1) by simp
          show "wal_inv crc (wal', w') (segs @ [[r]])" using ok(2) by simp
          show "\<exists>k'. durable crc w' (segs @ [[r]]) k' \<and> prefix (synced_records segs k) (synced_records (segs @ [[r]]) k')
              \<and> (sync_on_append (options wal) \<longrightarrow> k' = length (last (segs @ [[r]])))" if "durable crc w segs k" for k
            using ok(5) [OF rotated(7) [OF that]] synced_records_append_new [OF ne] opt by auto
          show "\<lparr>lsn_segment = active_id wal1, lsn_offset = active_len wal1\<rparr> =
              \<lparr>lsn_segment = of_nat (length (segs @ [[r]]) - 1),
               lsn_offset = of_nat (length (seg_bytes crc (butlast (last (segs @ [[r]])))))\<rparr>"
            using wal_inv_start [OF rotated(2)] by simp
          show "size_ok wal segs crc payload" using fit rotated(5) by (simp add: size_ok_def)
        qed (use ok rotated in \<open>simp_all add: appended_def\<close>)
      next
        case (failed e wal' w' segs'' t)
        then have s: "segs'' = segs @ [[]] \<or> segs'' = segs @ [[r]]" by simp
        have "\<exists>k'. crash_safe crc w' segs'' t k' \<and> prefix (synced_records segs k) (synced_records segs'' k')"
          if "durable crc w segs k" for k
        proof -
          have "durable crc w' segs'' 0" using failed(4) [OF rotated(7) [OF that]] .
          moreover have "prefix (synced_records segs k) (synced_records segs'' 0)"
            using s synced_records_append_new [OF ne] prefix_synced_records [OF ne]
            by (auto simp: synced_records_new)
          ultimately show ?thesis using durable_crash_safe by blast
        qed
        with s failed start rotated tot opt show thesis
          by (intro that(3) [of e wal' w' segs'' t]) auto
      qed
    qed
  qed
qed

end
