(* ===== verification/WalSpec.thy ===== *)
theory WalSpec
  imports WalInv
begin

text \<open>
  The write-ahead log, part five: crashes, the stream of records, and the properties of the log.
\<close>

section \<open>What a crash leaves\<close>

lemma torn_tail_prefix: "torn_tail crc ss n t \<Longrightarrow> prefix c t \<Longrightarrow> torn_tail crc ss n c"
  unfolding torn_tail_def
proof (elim disjE exE conjE)
  fix r k assume t: "prefix c t" "record_fits r" "k < length (enc crc r)" "t = take k (enc crc r)"
    "n + length (enc crc r) \<le> unat ss"
  then have "c = take (length c) t" by (metis append_eq_conv_conj prefix_def)
  with t(3,4) have "c = take (min (length c) k) (enc crc r)" by (simp add: take_take)
  with t show "c = [] \<or> (\<exists>r k. record_fits r \<and> k < length (enc crc r) \<and> c = take k (enc crc r)
      \<and> n + length (enc crc r) \<le> unat ss)"
    by (intro disjI2 exI [of _ r] exI [of _ "min (length c) k"]) simp
qed simp

lemma prefix_segment:
  assumes "prefix c (seg_bytes crc L @ t)" "prefix (seg_bytes crc (take k L)) c"
    and "torn_tail crc ss (n + length (seg_bytes crc L)) t" "n + length (seg_bytes crc L) \<le> unat ss"
    and "\<forall>r\<in>set L. record_fits r" "k \<le> length L"
  shows "\<exists>j t'. k \<le> j \<and> j \<le> length L \<and> c = seg_bytes crc (take j L) @ t'
    \<and> torn_tail crc ss (n + length (seg_bytes crc (take j L))) t'"
  using assms
proof (induction L arbitrary: c k n)
  case Nil
  then show ?case using torn_tail_prefix by (intro exI [of _ 0] exI [of _ c]) auto
next
  case (Cons r L)
  show ?case
  proof (cases "prefix (enc crc r) c")
    case True
    then obtain c' where c: "c = enc crc r @ c'" by (auto simp: prefix_def)
    have IH: "\<exists>j t'. k - 1 \<le> j \<and> j \<le> length L \<and> c' = seg_bytes crc (take j L) @ t'
        \<and> torn_tail crc ss (n + length (enc crc r) + length (seg_bytes crc (take j L))) t'"
      by (rule Cons.IH) (use Cons.prems c in \<open>cases k; auto simp: add.assoc\<close>)+
    then obtain j t' where "k - 1 \<le> j" "j \<le> length L" "c' = seg_bytes crc (take j L) @ t'"
      "torn_tail crc ss (n + length (enc crc r) + length (seg_bytes crc (take j L))) t'" by blast
    with c show ?thesis
      by (intro exI [of _ "Suc j"] exI [of _ t']) (auto simp: add.assoc)
  next
    case False
    then have "k = 0" using Cons.prems(2) by (cases k) (auto dest: append_prefixD)
    have "prefix c (enc crc r)"
      using Cons.prems(1) False by (metis append.assoc prefix_append seg_bytes_simps(2) prefix_same_cases prefixI)
    moreover have "c \<noteq> enc crc r" using False by auto
    ultimately have "length c < length (enc crc r)" "c = take (length c) (enc crc r)"
      by (auto simp: prefix_def simp del: length_enc)
    then have "torn_tail crc ss n c" unfolding torn_tail_def using Cons.prems(4,5)
      by (intro disjI2 exI [of _ r] exI [of _ "length c"]) auto
    with \<open>k = 0\<close> show ?thesis by (intro exI [of _ 0] exI [of _ c]) simp
  qed
qed

lemma crash_keeps:
  assumes "crash w w'" "bm_get (w_files w) (segment_path i) = Some c" "segment_path i \<in> elems (w_entries w)"
  shows "\<exists>c'. bm_get (w_files w') (segment_path i) = Some c'
    \<and> prefix (synced_content w (segment_path i)) c' \<and> prefix c' c"
proof -
  have "snd (split_name (segment_path i)) = Some SEGMENT_SUFFIX" by (simp add: split_segment_path)
  then show ?thesis using assms unfolding crash_def by fastforce
qed

lemma crash_prefix:
  assumes "crash w w'" "bm_get (w_files w) (segment_path i) = Some c0" "bm_get (w_files w') (segment_path i) = Some c"
  shows "prefix (synced_content w (segment_path i)) c" "prefix c c0"
proof -
  have "snd (split_name (segment_path i)) = Some SEGMENT_SUFFIX" by (simp add: split_segment_path)
  then show "prefix (synced_content w (segment_path i)) c" "prefix c c0"
    using assms unfolding crash_def by fastforce+
qed

lemma crash_names: "crash w w' \<Longrightarrow> wal_names (w_files w) n \<Longrightarrow> wal_names (w_files w') n"
  unfolding crash_def wal_names_def by (metis option.exhaust option.distinct(1))

lemma crash_disk:
  assumes d: "wal_disk crc ss w segs t" and safe: "crash_safe crc w segs t k" and cr: "crash w w'"
  shows "\<exists>segs' t'. wal_disk crc ss w' segs' t' \<and> prefix (synced_records segs k) (concat segs')
    \<and> prefix (concat segs') (concat segs) \<and> wal_bytes crc segs' \<le> wal_bytes crc segs"
proof -
  let ?n = "length segs - 1" and ?p = "\<lambda>i. segment_path (of_nat i)"
  have ne: "segs \<noteq> []" and le: "length segs \<le> 2 ^ 64" using d by (simp_all add: wal_disk_def)
  have sy: "synced_upto crc w segs k" using safe by (simp add: crash_safe_def)
  have last: "bm_get (w_files w) (?p ?n) = Some (seg_bytes crc (last segs) @ t)" by (rule wal_disk_last [OF d])
  have front: "bm_get (w_files w') (?p i) = Some (seg_bytes crc (segs ! i))" if "i < ?n" for i
  proof -
    have "bm_get (w_files w) (?p i) = Some (seg_bytes crc (segs ! i))"
      using wal_disk_segment(4) [OF d, of i] that by simp
    moreover have "synced_content w (?p i) = seg_bytes crc (segs ! i)" "?p i \<in> elems (w_entries w)"
      using sy that by (simp_all add: synced_upto_def)
    ultimately show ?thesis using crash_keeps [OF cr] prefix_order.antisym by metis
  qed
  note names = crash_names [OF cr, of "length segs"]
  have n: "wal_names (w_files w) (length segs)" using d by (simp add: wal_disk_def)
  show ?thesis
  proof (cases "bm_get (w_files w') (?p ?n)")
    case (Some c)
    then have "prefix (synced_content w (?p ?n)) c" "prefix c (seg_bytes crc (last segs) @ t)"
      using crash_prefix [OF cr last] by blast+
    moreover have "synced_content w (?p ?n) = seg_bytes crc (take k (last segs))" "k \<le> length (last segs)"
      using sy by (simp_all add: synced_upto_def)
    moreover have L: "\<forall>r\<in>set (last segs). record_fits r" "length (seg_bytes crc (last segs)) \<le> unat ss"
      "torn_tail crc ss (length (seg_bytes crc (last segs))) t"
      using d last_in_set [OF ne] unfolding wal_disk_def by blast+
    ultimately obtain j t' where j: "k \<le> j" "j \<le> length (last segs)" "c = seg_bytes crc (take j (last segs)) @ t'"
      "torn_tail crc ss (length (seg_bytes crc (take j (last segs)))) t'"
      using prefix_segment [of c crc "last segs" t k ss 0] by auto
    let ?segs = "butlast segs @ [take j (last segs)]"
    have short: "length (seg_bytes crc (take j xs)) \<le> length (seg_bytes crc xs)" for xs
      by (metis append_take_drop_id le_add1 length_append seg_bytes_simps(3))
    have "bm_get (w_files w') (?p i) = Some (seg_bytes crc (?segs ! i) @ (if Suc i = length segs then t' else []))"
      if "i < length segs" for i
    proof (cases "i = ?n")
      case True
      then show ?thesis using Some j(3) ne by (simp add: nth_append)
    next
      case False
      then have "i < ?n" using that by simp
      then show ?thesis using front [of i] by (simp add: nth_append nth_butlast)
    qed
    moreover have "\<forall>r\<in>set (take j (last segs)). record_fits r" "length (seg_bytes crc (take j (last segs))) \<le> unat ss"
      using L(1,2) short [of "last segs"] by (auto dest: in_set_takeD)
    ultimately have "wal_disk crc ss w' ?segs t'"
      using d j(4) names [OF n] ne unfolding wal_disk_def by (auto dest: in_set_butlastD)
    moreover have "prefix (synced_records segs k) (concat ?segs)"
      using j(1) prefix_synced_mono [of k j segs] by (simp add: synced_records_def)
    moreover have "prefix (concat ?segs) (concat segs)"
      using prefix_synced_records [OF ne, of j] by (simp add: synced_records_def)
    moreover have "wal_bytes crc ?segs \<le> wal_bytes crc segs"
      using wal_bytes_last [OF ne, of crc] short [of "last segs"] by simp
    ultimately show ?thesis by blast
  next
    case None
    then have "?p ?n \<notin> elems (w_entries w)" using crash_keeps [OF cr last] by auto
    then have two: "2 \<le> length segs" "last segs = []" using safe by (auto simp: crash_safe_def)
    let ?segs = "butlast segs"
    have len: "length ?segs = ?n" "?segs \<noteq> []" using two(1) by (auto simp: length_0_conv [symmetric] simp del: length_0_conv)
    have cat: "concat ?segs = concat segs" "wal_bytes crc ?segs = wal_bytes crc segs"
      using concat_butlast_last [OF ne] wal_bytes_last [OF ne, of crc] two(2) by simp_all
    have "wal_names (w_files w') ?n" unfolding wal_names_def
    proof (intro allI impI)
      fix p assume p: "bm_get (w_files w') p \<noteq> None \<and> snd (split_name p) = Some SEGMENT_SUFFIX"
      then obtain i where "i < length segs" "p = ?p i" using names [OF n] unfolding wal_names_def by blast
      moreover from this p None have "i \<noteq> ?n" by auto
      ultimately show "\<exists>i<?n. p = ?p i" by (intro exI [of _ i]) simp
    qed
    moreover have "last ?segs \<in> set segs" using len(2) by (meson in_set_butlastD last_in_set)
    ultimately have "wal_disk crc ss w' ?segs []"
      using d len front le unfolding wal_disk_def
      by (auto dest: in_set_butlastD simp: nth_butlast)
    then show ?thesis using cat prefix_synced_records [OF ne, of k] by (metis le_refl prefix_order.refl)
  qed
qed

lemma crash_exists:
  assumes d: "wal_disk crc ss w segs t" and sy: "synced_upto crc w segs k"
  shows "\<exists>w'. crash w w'"
proof -
  let ?w = "w\<lparr>w_synced := w_files w, w_entries := bts_of_list (bm_keys (w_files w)), w_locked := False, w_script := []\<rparr>"
  have "prefix (synced_content w p) c"
    if suf: "snd (split_name p) = Some SEGMENT_SUFFIX" and get: "bm_get (w_files w) p = Some c" for p c
  proof -
    have "wal_names (w_files w) (length segs)" using d by (simp add: wal_disk_def)
    then obtain i where i: "i < length segs" "p = segment_path (of_nat i)"
      unfolding wal_names_def using suf get by (metis option.distinct(1))
    have c: "c = seg_bytes crc (segs ! i) @ (if Suc i = length segs then t else [])"
      using wal_disk_segment(4) [OF d i(1)] get i(2) by simp
    show ?thesis
    proof (cases "i = length segs - 1")
      case True
      then have l: "segs ! i = last segs" using i(1) by (cases "segs = []") (simp_all add: last_conv_nth)
      have "synced_content w p = seg_bytes crc (take k (last segs))"
        using sy unfolding synced_upto_def i(2) True by blast
      moreover have "seg_bytes crc (last segs) = seg_bytes crc (take k (last segs)) @ seg_bytes crc (drop k (last segs))"
        by (metis append_take_drop_id seg_bytes_simps(3))
      ultimately show ?thesis unfolding c l by (metis append.assoc prefixI)
    next
      case False
      then have "i < length segs - 1" using i(1) by simp
      then have "synced_content w p = seg_bytes crc (segs ! i)"
        using sy unfolding synced_upto_def i(2) by blast
      then show ?thesis unfolding c by simp
    qed
  qed
  then have "crash w ?w" unfolding crash_def by (auto simp: quiet_def)
  then show ?thesis by blast
qed

section \<open>The stream of records\<close>

text \<open>The records of the log with their positions.\<close>

fun seg_records :: "(bytes \<Rightarrow> u32) \<Rightarrow> u64 \<Rightarrow> nat \<Rightarrow> Record list \<Rightarrow> StoredRecord list" where
  "seg_records crc i off [] = []"
| "seg_records crc i off (r # rs) =
    \<lparr>sr_lsn = \<lparr>lsn_segment = i, lsn_offset = of_nat off\<rparr>, sr_record = r\<rparr>
    # seg_records crc i (off + length (enc crc r)) rs"

definition stored_from :: "(bytes \<Rightarrow> u32) \<Rightarrow> Record list list \<Rightarrow> nat \<Rightarrow> StoredRecord list" where
  "stored_from crc segs j = concat (map (\<lambda>i. seg_records crc (of_nat i) 0 (segs ! i)) [j..<length segs])"

text \<open>A \<open>for\<close> loop over a list of items whose body may return early.\<close>

fun run_items :: "('i \<Rightarrow> 's \<Rightarrow> 'e + 's) \<Rightarrow> 'i list \<Rightarrow> 's \<Rightarrow> 'e + 's" where
  "run_items body [] st = Inr st"
| "run_items body (x # xs) st = (case body x st of Inl e \<Rightarrow> Inl e | Inr st \<Rightarrow> run_items body xs st)"

lemma run_items_append:
  "run_items body (xs @ ys) st =
    (case run_items body xs st of Inl e \<Rightarrow> Inl e | Inr st \<Rightarrow> run_items body ys st)"
  by (induction xs arbitrary: st) (auto split: sum.splits)

lemma sr_record_seg_records: "map sr_record (seg_records crc i off rs) = rs"
  by (induction rs arbitrary: off) simp_all

lemma sr_record_stored: "map sr_record (stored_from crc segs 0) = concat segs"
proof -
  have "map sr_record (stored_from crc segs 0) = concat (map (\<lambda>i. segs ! i) [0..<length segs])"
    by (simp add: stored_from_def map_concat comp_def sr_record_seg_records)
  then show ?thesis by (simp add: map_nth)
qed

lemma records_for_next:
  "records_next crc rs w = records_next crc rs' w' \<Longrightarrow>
    records_for crc body rs st w = records_for crc body rs' st w'"
  by (simp add: records_for.simps [of crc body rs] records_for.simps [of crc body rs'])

lemma stream_segment:
  assumes "quiet w" "\<forall>r\<in>set rs. record_fits r"
    and "off + length (seg_bytes crc rs) \<le> unat ss" "unat pl = off + length (seg_bytes crc rs)"
  shows "\<exists>w'. io_step w w' \<and> records_for crc body
      \<lparr>rs_segment_size = ss, rs_segment_ids = ids, rs_segment = Some
        \<lparr>rd_segment_id = i, rd_segment_size = ss, rd_physical_len = pl, rd_offset = of_nat off,
         rd_file = seg_bytes crc rs\<rparr>, rs_done = False\<rparr> st w =
    (case run_items body (map Inr (seg_records crc i off rs)) st of
       Inl e \<Rightarrow> (Inl e, w')
     | Inr st \<Rightarrow> records_for crc body
         \<lparr>rs_segment_size = ss, rs_segment_ids = ids, rs_segment = None, rs_done = False\<rparr> st w')"
  using assms
proof (induction rs arbitrary: off w st)
  case Nil
  obtain w' where "io_step w w'" "read_one crc (segment_path i) []
      \<lparr>lsn_segment = i, lsn_offset = of_nat off\<rparr> ss pl w = (Inr (ReadEof, []), w')"
    using read_one_Nil [OF Nil.prems(1)] by blast
  then show ?case
    by (intro exI [of _ w'] conjI) (auto intro: records_for_next simp: records_next.simps next_record_def Let_def)
next
  case (Cons r rs)
  let ?lsn = "\<lparr>lsn_segment = i, lsn_offset = of_nat off\<rparr>" and ?n = "length (enc crc r)"
  let ?rd = "\<lambda>off rs. \<lparr>rs_segment_size = ss, rs_segment_ids = ids, rs_segment = Some
        \<lparr>rd_segment_id = i, rd_segment_size = ss, rd_physical_len = pl, rd_offset = of_nat off,
         rd_file = seg_bytes crc rs\<rparr>, rs_done = False\<rparr>"
  have "off < 2 ^ 64" using Cons.prems(3) unat_u64_lt [of ss] by linarith
  then have off: "unat (of_nat off :: u64) = off" by (rule unat_u64_of_nat)
  have "unat (lsn_offset ?lsn) + ?n \<le> unat ss" "unat (lsn_offset ?lsn) + ?n \<le> unat pl"
    using Cons.prems(3,4) off by simp_all
  from read_one_enc [OF Cons.prems(1) _ this, of "segment_path i" "seg_bytes crc rs"] Cons.prems(2)
  obtain w1 where w1: "io_step w w1" "read_one crc (segment_path i) (enc crc r @ seg_bytes crc rs) ?lsn ss pl w =
      (Inr (ReadRecord r (of_nat (off + ?n)), seg_bytes crc rs), w1)" by auto
  have nxt: "records_next crc (?rd off (r # rs)) w =
      (Some (Inr \<lparr>sr_lsn = ?lsn, sr_record = r\<rparr>), ?rd (off + ?n) rs, w1)"
    using w1(2) by (simp add: records_next.simps next_record_def Let_def del: of_nat_add length_enc)
  show ?case
  proof (cases "body (Inr \<lparr>sr_lsn = ?lsn, sr_record = r\<rparr>) st")
    case (Inl e)
    with nxt w1(1) show ?thesis
      by (intro exI [of _ w1]) (simp add: records_for.simps [of crc body "?rd off (r # rs)"] del: seg_bytes_simps length_enc)
  next
    case (Inr st')
    from Cons.IH [OF io_step_quiet [OF w1(1) Cons.prems(1)], of "off + ?n" st'] Cons.prems(2-4)
    obtain w' where "io_step w1 w'" "records_for crc body (?rd (off + ?n) rs) st' w1 =
      (case run_items body (map Inr (seg_records crc i (off + ?n) rs)) st' of
         Inl e \<Rightarrow> (Inl e, w')
       | Inr st \<Rightarrow> records_for crc body
           \<lparr>rs_segment_size = ss, rs_segment_ids = ids, rs_segment = None, rs_done = False\<rparr> st w')"
      by (auto simp: add.assoc simp del: of_nat_add)
    with nxt Inr io_step_trans [OF w1(1)] show ?thesis
      by (intro exI [of _ w']) (simp add: records_for.simps [of crc body "?rd off (r # rs)"] del: seg_bytes_simps length_enc of_nat_add)
  qed
qed

lemma stream_segments:
  assumes "quiet w" "wal_disk crc ss w segs []" "j \<le> length segs"
  shows "\<exists>w'. io_step w w' \<and> records_for crc body
      \<lparr>rs_segment_size = ss, rs_segment_ids = map of_nat [j..<length segs], rs_segment = None,
       rs_done = False\<rparr> st w = (run_items body (map Inr (stored_from crc segs j)) st, w')"
  using assms
proof (induction "length segs - j" arbitrary: j w st)
  case 0
  then show ?case
    by (intro exI [of _ w]) (simp add: records_for.simps records_next.simps stored_from_def)
next
  case (Suc n)
  then have j: "j < length segs" and n: "n = length segs - Suc j" by simp_all
  note d = wal_disk_segment [OF Suc.prems(2) j]
  let ?c = "seg_bytes crc (segs ! j)" and ?ids = "map of_nat [Suc j..<length segs]"
  have upt: "map (of_nat :: nat \<Rightarrow> u64) [j..<length segs] = of_nat j # ?ids" using j by (simp add: upt_conv_Cons)
  have fl: "bm_get (w_files w) (segment_path (of_nat j)) = Some ?c" using d(4) by simp
  obtain w1 w2 where w2: "open_file (segment_path (of_nat j)) w = (Inr ?c, w1)"
    "metadata_len (segment_path (of_nat j)) w1 = (Inr (of_nat (length ?c)), w2)" "io_step w w2"
    using open_with_len_quiet [OF Suc.prems(1) fl] by blast
  have "length ?c < 2 ^ 64" using d(2) unat_u64_lt by (rule le_less_trans)
  have l: "0 + length ?c \<le> unat ss" using d(2) by simp
  have pl: "unat (of_nat (length ?c) :: u64) = 0 + length ?c"
    using \<open>length ?c < 2 ^ 64\<close> by (simp add: unat_u64_of_nat)
  let ?r = "\<lambda>seg. \<lparr>rs_segment_size = ss, rs_segment_ids = ?ids, rs_segment = seg, rs_done = False\<rparr>"
  let ?rd = "\<lparr>rd_segment_id = of_nat j, rd_segment_size = ss, rd_physical_len = of_nat (length ?c),
      rd_offset = of_nat 0, rd_file = ?c\<rparr>"
  have op: "records_for crc body \<lparr>rs_segment_size = ss, rs_segment_ids = of_nat j # ?ids,
      rs_segment = None, rs_done = False\<rparr> st w = records_for crc body (?r (Some ?rd)) st w2"
    by (rule records_for_next) (use w2 in \<open>simp add: records_next.simps [of crc _ w] reader_open_def\<close>)
  obtain w3 where w3: "io_step w2 w3" "records_for crc body (?r (Some ?rd)) st w2 =
      (case run_items body (map Inr (seg_records crc (of_nat j) 0 (segs ! j))) st of
         Inl e \<Rightarrow> (Inl e, w3) | Inr st \<Rightarrow> records_for crc body (?r None) st w3)"
    using stream_segment [OF io_step_quiet [OF w2(3) Suc.prems(1)] d(1) l pl, of body ?ids "of_nat j" st] by blast
  note s3 = io_step_trans [OF w2(3) w3(1)]
  have st: "stored_from crc segs j = seg_records crc (of_nat j) 0 (segs ! j) @ stored_from crc segs (Suc j)"
    using j by (simp add: stored_from_def upt_conv_Cons)
  show ?case
  proof (cases "run_items body (map Inr (seg_records crc (of_nat j) 0 (segs ! j))) st")
    case (Inl e)
    with op w3 s3 st upt show ?thesis by (intro exI [of _ w3]) (simp add: run_items_append)
  next
    case (Inr st')
    have "wal_disk crc ss w3 segs []" using Suc.prems(2) wal_disk_io_step [OF s3] by simp
    from Suc.hyps(1) [OF n io_step_quiet [OF s3 Suc.prems(1)] this] j obtain w' where
      "io_step w3 w'" "records_for crc body (?r None) st' w3 = (run_items body (map Inr (stored_from crc segs (Suc j))) st', w')"
      by auto
    with Inr op w3 io_step_trans [OF s3] st upt show ?thesis
      by (intro exI [of _ w']) (simp add: run_items_append)
  qed
qed

section \<open>Frames\<close>

text \<open>Rotation changes the content of no file; a failed append that changed one has poisoned the log.\<close>

lemma sync_file_frame: "file_content (snd (sync_file p w)) = file_content w"
  by (cases rule: sync_file_cases [of w p]) (auto simp: io_step_frame file_content_def)

lemma open_segment_frame: "file_content (snd (open_segment i w)) = file_content w"
  by (cases rule: io_call_cases [of "segment_path i" w])
     (auto simp: open_segment_def io_step_frame file_content_def bm_get_insert)

lemma sync_dir_frame: "file_content (snd (sync_dir w)) = file_content w"
  by (cases rule: io_call_cases [of "[]" w]) (auto simp: sync_dir_def io_step_frame file_content_def)

lemma wal_sync_frame: "file_content (snd (snd (wal_sync s))) = file_content (snd s)"
proof (cases s)
  case (Pair wal w)
  show ?thesis
    using sync_file_frame [of "segment_path (active_id wal)" w]
    by (cases "sync_file (segment_path (active_id wal)) w"; cases "fst (sync_file (segment_path (active_id wal)) w)")
       (auto simp: Pair wal_sync_def ensure_healthy_def)
qed

lemma bind_frame:
  assumes "file_content (snd (snd x)) = C"
    and "\<And>y s. x = (Inr y, s) \<Longrightarrow> file_content (snd s) = C \<Longrightarrow> file_content (snd (snd (f y s))) = C"
  shows "file_content (snd (snd (io_bind x f))) = C"
  using assms by (cases x; cases "fst x") auto

lemma on_world_frame: "snd (snd (on_world f s)) = snd (f (snd s))"
  by (simp add: on_world_def split: prod.split)

lemma rotate_frame: "file_content (snd (snd (rotate_if_needed n s))) = file_content (snd s)"
proof -
  have "file_content (snd (snd (io_bind (wal_sync s) (\<lambda>_ s.
      case checked_add (active_id (fst s)) 1 of
        None \<Rightarrow> (Inl SegmentIdExhausted, s)
      | Some i \<Rightarrow> io_bind (on_world (open_segment i) s) (\<lambda>_ s.
          io_bind (on_world sync_dir s) (\<lambda>_ (wal, w).
            (Inr (), (wal\<lparr>active_id := i, active_len := 0\<rparr>, w)))))))) = file_content (snd s)"
    by (intro bind_frame)
       (auto simp: wal_sync_frame on_world_frame open_segment_frame sync_dir_frame
         split: option.split intro!: bind_frame)
  then show ?thesis
    by (simp add: rotate_if_needed_def Let_def split: option.split)
qed

lemma write_record_poison:
  assumes "write_record crc kind payload n s = (Inl e, s')"
  shows "poisoned (fst s') \<or> file_content (snd s') = file_content (snd s)"
proof (cases s)
  case (Pair wal w)
  show ?thesis
  proof (cases "encode_record crc kind payload")
    case (Inl e')
    with assms show ?thesis by (auto simp: write_record_def)
  next
    case (Inr bs)
    show ?thesis
    proof (cases "checked_add_len (active_len wal) (length bs)")
      case (Inl e')
      with Inr Pair assms show ?thesis by (auto simp: write_record_def)
    next
      case (Inr m)
      obtain x w1 where x: "write_all (segment_path (active_id wal)) bs w = (x, w1)"
        by (cases "write_all (segment_path (active_id wal)) bs w")
      let ?wal = "wal\<lparr>active_len := m, total_len := n\<rparr>"
      obtain y w2 where y: "sync_file (segment_path (active_id wal)) w1 = (y, w2)"
        by (cases "sync_file (segment_path (active_id wal)) w1")
      show ?thesis
        using assms x y Inr Pair \<open>encode_record _ _ _ = _\<close>
        by (cases x; cases y; cases "poisoned wal")
           (auto simp: write_record_def write_or_poison_def wal_sync_def ensure_healthy_def Let_def
             split: if_splits)
    qed
  qed
qed

lemma append_poison:
  assumes "wal_append crc kind payload s = (Inl e, s')"
  shows "poisoned (fst s') \<or> file_content (snd s') = file_content (snd s)"
proof -
  have *: "poisoned (fst s') \<or> file_content (snd s') = file_content (snd s)"
    if "io_bind (rotate_if_needed n s) (\<lambda>_ s. write_record crc kind payload t s) = (Inl e, s')" for n t
  proof -
    obtain r s1 where Pair: "rotate_if_needed n s = (r, s1)" by (cases "rotate_if_needed n s")
    have "file_content (snd s1) = file_content (snd s)" using rotate_frame [of n s] Pair by simp
    with Pair that write_record_poison [of crc kind payload t s1 e s'] show ?thesis by (cases r) auto
  qed
  show ?thesis using assms *
    by (auto simp: wal_append_def ensure_healthy_def io_bind_def split: sum.splits if_splits prod.splits)
qed

section \<open>Properties\<close>

text \<open>C28. A record survives the trip to disk: what \<open>encode_record\<close> produces is read back as the
  same kind and payload, with the rest of the file left for the next read; and every proper
  prefix of it, however short, is recognised as the torn end of a segment and never taken for a
  record. Short reads and interrupted calls make no difference, and nothing is assumed of the
  checksum function.\<close>

theorem record_roundtrip:
  assumes "quiet w" and "encode_record crc kind payload = Inr bs" and "kind_get kind \<noteq> 0"
    and "unat off + length bs \<le> unat ss"
  shows "(unat off + length bs \<le> unat pl \<longrightarrow>
      (\<exists>w'. read_one crc path (bs @ rest) \<lparr>lsn_segment = i, lsn_offset = off\<rparr> ss pl w =
        (Inr (ReadRecord \<lparr>rec_kind = kind, rec_payload = payload\<rparr> (off + of_nat (length bs)), rest), w')))
    \<and> (\<forall>k<length bs. unat pl = unat off + k \<longrightarrow>
      (\<exists>rest' w'. read_one crc path (take k bs) \<lparr>lsn_segment = i, lsn_offset = off\<rparr> ss pl w =
        (Inr (if k = 0 then ReadEof else ReadIncomplete, rest'), w')))"
proof -
  let ?r = "\<lparr>rec_kind = kind, rec_payload = payload\<rparr>" and ?lsn = "\<lparr>lsn_segment = i, lsn_offset = off\<rparr>"
  have bs: "bs = enc crc ?r" and r: "record_fits ?r"
    using assms(2,3) by (auto simp: encode_record_eq record_fits_def split: if_splits)
  have l: "unat (lsn_offset ?lsn) + length (enc crc ?r) \<le> unat ss" using assms(4) bs by simp
  show ?thesis unfolding bs
  proof (intro conjI allI impI)
    assume "unat off + length (enc crc ?r) \<le> unat pl"
    then have "unat (lsn_offset ?lsn) + length (enc crc ?r) \<le> unat pl" by simp
    from read_one_enc [OF assms(1) r l this, of path rest] show "\<exists>w'. read_one crc path (enc crc ?r @ rest) ?lsn ss pl w =
        (Inr (ReadRecord ?r (off + of_nat (length (enc crc ?r))), rest), w')" by auto
  next
    fix k assume k: "k < length (enc crc ?r)" "unat pl = unat off + k"
    then have "unat pl = unat (lsn_offset ?lsn) + k" by simp
    from read_one_torn [OF assms(1) r k(1) l this, of path] show "\<exists>rest' w'. read_one crc path (take k (enc crc ?r)) ?lsn ss pl w =
        (Inr (if k = 0 then ReadEof else ReadIncomplete, rest'), w')" by blast
  qed
qed

text \<open>C18. \<open>append\<close> refines adding a record to the end of a list: on a healthy log whose calls do
  not fail it either refuses the record, for its size alone and without any effect, or the log
  holds exactly one more record, at the position whose \<open>Lsn\<close> it returns, in the active segment
  or in a new one.\<close>

theorem wal_append_refines:
  assumes "wal_inv crc (wal, w) segs" and "quiet w" and "kind_get kind \<noteq> 0" and "length segs < 2 ^ 64"
  shows "if size_ok wal segs crc payload
    then \<exists>wal' w' segs'. wal_append crc kind payload (wal, w) =
          (Inr \<lparr>lsn_segment = of_nat (length segs' - 1),
                lsn_offset = of_nat (length (seg_bytes crc (butlast (last segs'))))\<rparr>, (wal', w'))
        \<and> wal_inv crc (wal', w') segs' \<and> quiet w'
        \<and> concat segs' = concat segs @ [\<lparr>rec_kind = kind, rec_payload = payload\<rparr>]
    else \<exists>e. wal_append crc kind payload (wal, w) = (Inl e, (wal, w))"
  using assms(1,3) refl [of "\<lparr>rec_kind = kind, rec_payload = payload\<rparr>"]
proof (cases rule: wal_append_cases)
  case (refused e)
  then show ?thesis by auto
next
  case (ok lsn wal' w' segs')
  have ne: "segs \<noteq> []" using assms(1) by (simp add: wal_inv_def wal_disk_def)
  show ?thesis using ok assms(2) appended_concat [OF ne ok(2)] by auto
next
  case (failed e wal' w' segs' t)
  then show ?thesis using assms(2,4) by simp
qed

text \<open>C4. Nothing acknowledged is lost: take a log of which a prefix is durable, append a record
  while the file system may fail, shorten or interrupt any call, and crash at the end, so that of
  every file only some prefix containing its synced bytes remains. Reopening succeeds and yields
  a prefix of the records written that contains all the durable ones; with \<open>sync_on_append\<close> and a
  successful append, it yields all of them, the new one included.\<close>

theorem records_survive_crash:
  assumes "wal_inv crc (wal, w) segs" and "durable crc w segs k" and "kind_get kind \<noteq> 0"
    and "validate_options (options wal) = Inr ()"
    and "wal_append crc kind payload (wal, w) = (res, (wal', w'))" and "crash w' w''"
  shows "\<exists>new w3 segs3. wal_open crc (options wal) w'' = (Inr new, w3) \<and> wal_inv crc (new, w3) segs3
    \<and> prefix (synced_records segs k) (concat segs3)
    \<and> prefix (concat segs3) (concat segs @ [\<lparr>rec_kind = kind, rec_payload = payload\<rparr>])
    \<and> (sync_on_append (options wal) \<and> (\<exists>lsn. res = Inr lsn)
        \<longrightarrow> concat segs3 = concat segs @ [\<lparr>rec_kind = kind, rec_payload = payload\<rparr>])"
proof -
  let ?r = "\<lparr>rec_kind = kind, rec_payload = payload\<rparr>" and ?ss = "segment_size (options wal)"
  have ne: "segs \<noteq> []" using assms(1) by (simp add: wal_inv_def wal_disk_def)
  have "\<exists>segs' t k'. wal_disk crc ?ss w' segs' t \<and> crash_safe crc w' segs' t k'
      \<and> prefix (synced_records segs k) (synced_records segs' k')
      \<and> wal_bytes crc segs' \<le> unat (max_size (options wal))
      \<and> prefix (concat segs') (concat segs @ [?r])
      \<and> (sync_on_append (options wal) \<and> (\<exists>lsn. res = Inr lsn) \<longrightarrow> synced_records segs' k' = concat segs @ [?r])"
    using assms(1,3) refl [of "\<lparr>rec_kind = kind, rec_payload = payload\<rparr>"]
  proof (cases rule: wal_append_cases)
    case (refused e)
    then have "wal' = wal" "w' = w" "res = Inl e" using assms(5) by simp_all
    then show ?thesis using assms(1,2) durable_crash_safe
      by (intro exI [of _ segs] exI [of _ "[]"] exI [of _ k]) (simp add: wal_inv_def)
  next
    case (ok lsn wal1 w1 segs')
    then have eq: "wal' = wal1" "w' = w1" using assms(5) by simp_all
    obtain k' where k': "durable crc w1 segs' k'" "prefix (synced_records segs k) (synced_records segs' k')"
      "sync_on_append (options wal) \<longrightarrow> k' = length (last segs')" using ok(7) [OF assms(2)] by blast
    have "segs' \<noteq> []" using ok(3) by (simp add: wal_inv_def wal_disk_def)
    then have "sync_on_append (options wal) \<longrightarrow> synced_records segs' k' = concat segs @ [?r]"
      using k'(3) synced_records_all appended_concat [OF ne ok(2)] by auto
    then show ?thesis using k' ok(3,4) eq appended_concat [OF ne ok(2)] durable_crash_safe
      by (intro exI [of _ segs'] exI [of _ "[]"] exI [of _ k']) (simp add: wal_inv_def)
  next
    case (failed e wal1 w1 segs' t)
    then have eq: "w' = w1" "res = Inl e" using assms(5) by simp_all
    obtain k' where "crash_safe crc w1 segs' t k'" "prefix (synced_records segs k) (synced_records segs' k')"
      using failed(6) [OF assms(2)] by blast
    with failed(2-4) eq show ?thesis
      by (intro exI [of _ segs'] exI [of _ t] exI [of _ k']) auto
  qed
  then obtain segs' t k' where s: "wal_disk crc ?ss w' segs' t" "crash_safe crc w' segs' t k'"
    "prefix (synced_records segs k) (synced_records segs' k')"
    "wal_bytes crc segs' \<le> unat (max_size (options wal))" "prefix (concat segs') (concat segs @ [?r])"
    "sync_on_append (options wal) \<and> (\<exists>lsn. res = Inr lsn) \<longrightarrow> synced_records segs' k' = concat segs @ [?r]"
    by blast
  obtain segs3 t3 where d: "wal_disk crc ?ss w'' segs3 t3" "prefix (synced_records segs' k') (concat segs3)"
    "prefix (concat segs3) (concat segs')" "wal_bytes crc segs3 \<le> wal_bytes crc segs'"
    using crash_disk [OF s(1,2) assms(6)] by blast
  have "quiet w''" "\<not> w_locked w''" using assms(6) by (simp_all add: crash_def)
  from wal_open_ok [OF assms(4) this _ disjI1 [OF d(1)]] d(4) s(4) obtain new w3 where
    "wal_open crc (options wal) w'' = (Inr new, w3)" "wal_inv crc (new, w3) segs3" by (metis le_trans)
  moreover have "prefix (synced_records segs k) (concat segs3)" "prefix (concat segs3) (concat segs @ [?r])"
    using s(3,5) d(2,3) prefix_order.trans by blast+
  moreover have "sync_on_append (options wal) \<and> (\<exists>lsn. res = Inr lsn) \<longrightarrow> concat segs3 = concat segs @ [?r]"
    using s(6) d(2) calculation(4) prefix_order.antisym by metis
  ultimately show ?thesis by blast
qed

text \<open>C19. Opening recovers: a directory whose last segment ends in a torn write is opened as the
  log of exactly the intact records, the torn bytes are gone from the disk, and what was synced
  before is durable; an empty directory becomes the empty log.\<close>

theorem wal_open_recovers:
  assumes "validate_options opts = Inr ()" and "quiet w" and "\<not> w_locked w"
    and "wal_bytes crc segs \<le> unat (max_size opts)"
    and "wal_disk crc (segment_size opts) w segs t \<or> segs = [[]] \<and> wal_names (w_files w) 0"
  shows "\<exists>wal w'. wal_open crc opts w = (Inr wal, w') \<and> options wal = opts \<and> wal_inv crc (wal, w') segs
    \<and> (segments_synced w \<longrightarrow> durable crc w' segs (length (last segs)))"
  using wal_open_ok [OF assms] by blast

text \<open>Streaming reads back what was appended: iterating over the records of a healthy log
  hands the loop body every record, in order and with its position, and returns what the body
  makes of them; the loop ends.\<close>

theorem wal_records_spec:
  assumes "wal_inv crc (wal, w) segs" and "quiet w"
  shows "\<exists>rs w'. wal_records (wal, w) = (Inr rs, (wal, w'))
    \<and> (\<exists>w''. records_for crc body rs st w' = (run_items body (map Inr (stored_from crc segs 0)) st, w''))
    \<and> map sr_record (stored_from crc segs 0) = concat segs"
proof -
  have d: "wal_disk crc (segment_size (options wal)) w segs []" using assms(1) by (simp add: wal_inv_def)
  obtain w' where w': "io_step w w'" "segment_ids w = (Inr (map of_nat [0..<length segs]), w')"
    using wal_disk_ids [OF assms(2) d] by blast
  have d': "wal_disk crc (segment_size (options wal)) w' segs []" using d wal_disk_io_step [OF w'(1)] by simp
  let ?rs = "\<lparr>rs_segment_size = segment_size (options wal), rs_segment_ids = map of_nat [0..<length segs],
      rs_segment = None, rs_done = False\<rparr>"
  have "wal_records (wal, w) = (Inr ?rs, (wal, w'))"
    using assms(1) w'(2) by (simp add: wal_records_def ensure_healthy_def on_world_def wal_inv_def)
  moreover from stream_segments [OF io_step_quiet [OF w'(1) assms(2)] d', of 0 body st] obtain w'' where
    "records_for crc body ?rs st w' = (run_items body (map Inr (stored_from crc segs 0)) st, w'')" by auto
  ultimately show ?thesis using sr_record_stored by blast
qed

text \<open>A failed append is fenced: if it failed after bytes reached a file, the log is poisoned,
  and a poisoned log answers every later append, sync and read with \<open>Poisoned\<close> and touches
  nothing.\<close>

theorem failed_append_poisons:
  assumes "wal_append crc kind payload (wal, w) = (Inl e, (wal', w'))"
    and "file_content w' p \<noteq> file_content w p"
  shows "poisoned wal' \<and> wal_append crc kind2 payload2 (wal', w2) = (Inl Poisoned, (wal', w2))
    \<and> wal_sync (wal', w2) = (Inl Poisoned, (wal', w2))
    \<and> wal_records (wal', w2) = (Inl Poisoned, (wal', w2))"
proof -
  have "poisoned wal'" using append_poison [OF assms(1)] assms(2) by auto
  then show ?thesis
    by (simp add: wal_append_def wal_sync_def wal_records_def ensure_healthy_def)
qed

text \<open>One writer: while another process holds the lock, opening the log fails and touches no
  segment, and it reports the lock unless a call fails first.\<close>

theorem wal_single_writer:
  assumes "w_locked w" and "validate_options opts = Inr ()"
  shows "\<exists>e w'. wal_open crc opts w = (Inl e, w') \<and> (quiet w \<longrightarrow> e = Locked LOCK_FILE)
    \<and> w_locked w' \<and> (\<forall>i. bm_get (w_files w') (segment_path i) = bm_get (w_files w) (segment_path i))"
proof (cases rule: io_call_cases [of LOCK_FILE w])
  case (ok w1)
  then show ?thesis using assms
    by (simp add: wal_open_def wal_lock_def Let_def io_step_frame bm_get_insert)
next
  case (failed w1)
  then show ?thesis using assms by (simp add: wal_open_def wal_lock_def io_step_frame)
qed

section \<open>Witnesses\<close>

definition empty_world :: World where
  "empty_world = \<lparr>w_files = bm_empty, w_synced = bm_empty, w_entries = bts_empty, w_locked = False, w_script = []\<rparr>"

definition small_options :: WalOptions where
  "small_options = \<lparr>segment_size = 100, max_size = 1000, sync_on_append = True\<rparr>"

definition no_crc :: "bytes \<Rightarrow> u32" where
  "no_crc bs = 0"

definition small_record :: Record where
  "small_record = \<lparr>rec_kind = RecordKind 1, rec_payload = [7]\<rparr>"

definition torn_world :: World where
  "torn_world = empty_world\<lparr>w_files := bm_insert (segment_path 0) (take 5 (enc no_crc small_record)) bm_empty\<rparr>"

lemma small_valid: "validate_options small_options = Inr ()"
  by (simp add: validate_options_def small_options_def HEADER_LEN_U64_def)

lemma bm_get_empty_None: "bm_get bm_empty p = None"
  by (simp add: bm_get_def bm_empty.rep_eq)

lemma empty_world_ok: "quiet empty_world" "\<not> w_locked empty_world" "segments_synced empty_world"
  "wal_names (w_files empty_world) 0"
  by (simp_all add: empty_world_def quiet_def segments_synced_def synced_content_def file_content_def
      wal_names_def bm_get_empty_None)

lemma small_record_fits: "record_fits small_record" "length (enc no_crc small_record) = 33"
  by (simp_all add: record_fits_def small_record_def fits_u32_def)

lemma opened: "\<exists>wal w. wal_open no_crc small_options empty_world = (Inr wal, w) \<and> options wal = small_options
    \<and> wal_inv no_crc (wal, w) [[]] \<and> quiet w \<and> durable no_crc w [[]] 0"
  using wal_open_ok [OF small_valid empty_world_ok(1,2), of no_crc "[[]]"] empty_world_ok(3,4) by auto

lemma small_size_ok: "options wal = small_options \<Longrightarrow> size_ok wal [[]] no_crc [7]"
  by (simp add: size_ok_def small_options_def fits_u32_def)

theorem record_roundtrip_witness:
  "\<exists>bs w'. encode_record no_crc (RecordKind 1) [7] = Inr bs
    \<and> read_one no_crc ''x'' (bs @ [1, 2]) \<lparr>lsn_segment = 0, lsn_offset = 0\<rparr> 100 50 empty_world =
      (Inr (ReadRecord small_record (of_nat (length bs)), [1, 2]), w')"
proof -
  let ?bs = "enc no_crc small_record"
  have e: "encode_record no_crc (RecordKind 1) [7] = Inr ?bs"
    by (simp add: encode_record_eq small_record_def fits_u32_def)
  have "unat (0 :: u64) + length ?bs \<le> unat (100 :: u64)" "unat (0 :: u64) + length ?bs \<le> unat (50 :: u64)"
    unfolding small_record_fits(2) by simp_all
  with record_roundtrip [OF empty_world_ok(1) e, of 0 100 50 "''x''" "[1, 2]" 0] e show ?thesis
    by (auto simp: small_record_def)
qed

theorem wal_append_refines_witness:
  "\<exists>wal w wal' w' segs' lsn. wal_inv no_crc (wal, w) [[]]
    \<and> wal_append no_crc (RecordKind 1) [7] (wal, w) = (Inr lsn, (wal', w'))
    \<and> wal_inv no_crc (wal', w') segs' \<and> concat segs' = [small_record]"
proof -
  obtain wal w where o: "options wal = small_options" "wal_inv no_crc (wal, w) [[]]" "quiet w"
    using opened by blast
  have "kind_get (RecordKind 1) \<noteq> 0" "length [[] :: Record list] < 2 ^ 64" by simp_all
  from wal_append_refines [OF o(2,3) this, of "[7]"] small_size_ok [OF o(1)] obtain lsn wal' w' segs' where
    "wal_append no_crc (RecordKind 1) [7] (wal, w) = (Inr lsn, (wal', w'))" "wal_inv no_crc (wal', w') segs'"
    "concat segs' = [small_record]" by (auto simp: small_record_def)
  with o(2) show ?thesis by blast
qed

theorem records_survive_crash_witness:
  "\<exists>wal w lsn wal' w' w'' new w3 segs. wal_open no_crc small_options empty_world = (Inr wal, w)
    \<and> wal_append no_crc (RecordKind 1) [7] (wal, w) = (Inr lsn, (wal', w')) \<and> crash w' w''
    \<and> wal_open no_crc small_options w'' = (Inr new, w3) \<and> wal_inv no_crc (new, w3) segs
    \<and> concat segs = [small_record]"
proof -
  obtain wal w where o: "wal_open no_crc small_options empty_world = (Inr wal, w)" "options wal = small_options"
    "wal_inv no_crc (wal, w) [[]]" "quiet w" "durable no_crc w [[]] 0" using opened by blast
  have "kind_get (RecordKind 1) \<noteq> 0" by simp
  from o(3) this refl [of "\<lparr>rec_kind = RecordKind 1, rec_payload = [7]\<rparr>"] show ?thesis
  proof (cases rule: wal_append_cases [where payload = "[7]"])
    case (refused e)
    with small_size_ok [OF o(2)] show ?thesis by simp
  next
    case (failed e wal' w' segs' t)
    with o(4) show ?thesis by simp
  next
    case (ok lsn wal' w' segs')
    obtain k' where "durable no_crc w' segs' k'" using ok(7) [OF o(5)] by blast
    moreover have "wal_disk no_crc (segment_size (options wal')) w' segs' []" using ok(3) by (simp add: wal_inv_def)
    ultimately obtain w'' where c: "crash w' w''" using crash_exists unfolding durable_def by blast
    have "sync_on_append (options wal)" using o(2) by (simp add: small_options_def)
    with records_survive_crash [OF o(3,5) \<open>kind_get _ \<noteq> 0\<close> _ ok(1) c] small_valid o(2)
    show ?thesis using o(1) ok(1) c unfolding small_record_def by auto
  qed
qed

lemma torn_disk: "wal_disk no_crc 100 torn_world [[]] (take 5 (enc no_crc small_record))"
proof -
  have "torn_tail no_crc 100 0 (take 5 (enc no_crc small_record))"
    unfolding torn_tail_def using small_record_fits
    by (intro disjI2 exI [of _ small_record] exI [of _ 5]) auto
  then show ?thesis
    by (auto simp: wal_disk_def wal_names_def torn_world_def bm_get_insert bm_get_empty_None)
qed

theorem wal_open_recovers_witness:
  "\<exists>wal w. wal_open no_crc small_options torn_world = (Inr wal, w) \<and> wal_inv no_crc (wal, w) [[]]"
proof -
  have "wal_disk no_crc (segment_size small_options) torn_world [[]] (take 5 (enc no_crc small_record))"
    using torn_disk by (simp add: small_options_def)
  moreover have "quiet torn_world" "\<not> w_locked torn_world"
    using empty_world_ok by (simp_all add: torn_world_def quiet_def)
  moreover have "wal_bytes no_crc [[]] \<le> unat (max_size small_options)" by simp
  ultimately show ?thesis
    using wal_open_recovers [OF small_valid, of torn_world no_crc "[[]]"] by blast
qed

theorem wal_records_spec_witness:
  "\<exists>wal w rs w' w''. wal_inv no_crc (wal, w) [[]] \<and> wal_records (wal, w) = (Inr rs, (wal, w'))
    \<and> records_for no_crc (\<lambda>x n. Inr (Suc n)) rs 0 w' = (Inr 0 :: unit + nat, w'')"
proof -
  obtain wal w where o: "wal_inv no_crc (wal, w) [[]]" "quiet w" using opened by blast
  from wal_records_spec [OF o, of "\<lambda>x n. Inr (Suc n) :: unit + nat" 0] obtain rs w' w'' where
    "wal_records (wal, w) = (Inr rs, (wal, w'))"
    "records_for no_crc (\<lambda>x n. Inr (Suc n)) rs 0 w' = (Inr 0 :: unit + nat, w'')"
    by (auto simp: stored_from_def)
  with o(1) show ?thesis by blast
qed

definition open_wal :: Wal where
  "open_wal = \<lparr>options = small_options, active_id = 0, active_len = 0, total_len = 0, poisoned = False\<rparr>"

definition failing_world :: World where
  "failing_world = empty_world\<lparr>w_files := bm_insert (segment_path 0) [] bm_empty, w_script := [IoShort 3, IoFail]\<rparr>"

theorem failed_append_poisons_witness:
  "\<exists>e wal' w'. wal_append no_crc (RecordKind 1) [7] (open_wal, failing_world) = (Inl e, (wal', w'))
    \<and> file_content w' (segment_path 0) \<noteq> [] \<and> wal_sync (wal', w') = (Inl Poisoned, (wal', w'))"
proof -
  let ?bs = "enc no_crc \<lparr>rec_kind = RecordKind 1, rec_payload = [7]\<rparr>"
  let ?w = "failing_world\<lparr>w_script := [], w_files := bm_insert (segment_path 0) (take 3 ?bs) (bm_insert (segment_path 0) [] bm_empty)\<rparr>"
  have c: "file_content failing_world (segment_path 0) = []"
    by (simp add: file_content_def failing_world_def bm_get_insert)
  have "length (drop 3 ?bs) = 30" by simp
  then have "drop 3 ?bs \<noteq> []" by (metis list.size(3) zero_neq_numeral)
  then have w: "write_all (segment_path 0) ?bs failing_world = (Inl (Io (segment_path 0)), ?w)"
    using c by (simp add: write_all.simps [of _ ?bs] write_all.simps [of _ "drop 3 ?bs"] next_io_def
        failing_world_def append_file_def empty_world_def file_content_def bm_get_insert)
  have a: "wal_append no_crc (RecordKind 1) [7] (open_wal, failing_world) =
      (Inl (Io (segment_path 0)), (open_wal\<lparr>poisoned := True\<rparr>, ?w))"
    using w by (simp add: wal_append_def ensure_healthy_def open_wal_def encoded_len_eq fits_u32_def
        checked_add_len_def fits_u64_def checked_add_def small_options_def rotate_if_needed_def
        write_record_def encode_record_eq write_or_poison_def Let_def)
  have f: "file_content ?w (segment_path 0) \<noteq> file_content failing_world (segment_path 0)"
    unfolding c by (simp add: file_content_def bm_get_insert)
  from failed_append_poisons [OF a f] a f c show ?thesis by auto
qed

theorem wal_single_writer_witness:
  "\<exists>w'. wal_open no_crc small_options (empty_world\<lparr>w_locked := True\<rparr>) = (Inl (Locked LOCK_FILE), w')"
  using wal_single_writer [OF _ small_valid, of "empty_world\<lparr>w_locked := True\<rparr>" no_crc] empty_world_ok(1)
  by (auto simp: quiet_def)

section \<open>A rotation that fails half way\<close>

text \<open>The log after one record, about to rotate while syncing the directory fails, and to be cut
  off in the middle of the write after that.\<close>

definition rotating_wal :: Wal where
  "rotating_wal = \<lparr>options = small_options, active_id = 0, active_len = 33, total_len = 33, poisoned = False\<rparr>"

definition rotating_world :: World where
  "rotating_world = empty_world\<lparr>w_files := bm_insert (segment_path 0) (enc no_crc small_record) bm_empty,
     w_locked := True, w_script := [IoOk, IoOk, IoFail, IoShort 10, IoFail]\<rparr>"

definition left_files :: "(string, bytes) btreemap" where
  "left_files = bm_insert (segment_path 0) (enc no_crc small_record @ take 10 (enc no_crc small_record))
     (bm_insert (segment_path 1) [] (bm_insert (segment_path 0) (enc no_crc small_record) bm_empty))"

lemma rotating_inv: "wal_inv no_crc (rotating_wal, rotating_world) [[small_record]]"
  using small_record_fits
  by (auto simp: wal_inv_def wal_disk_def wal_names_def rotating_wal_def rotating_world_def small_options_def
      bm_get_insert bm_get_empty_None)

lemma rotation_fails:
  "wal_append no_crc (RecordKind 1) (replicate 60 0) (rotating_wal, rotating_world) =
    (Inl (Io []), (rotating_wal, rotating_world\<lparr>w_script := [IoShort 10, IoFail],
      w_synced := bm_insert (segment_path 0) (enc no_crc small_record) bm_empty,
      w_files := bm_insert (segment_path 1) [] (w_files rotating_world)\<rparr>))"
  by (simp add: wal_append_def ensure_healthy_def rotating_wal_def encoded_len_eq fits_u32_def
      checked_add_len_def fits_u64_def checked_add_def small_options_def rotate_if_needed_def
      wal_sync_def sync_file_def io_call_def next_io_def rotating_world_def empty_world_def Let_def
      on_world_def open_segment_def sync_dir_def file_content_def bm_get_insert bm_get_empty_None)

lemma write_torn:
  "wal_append no_crc (RecordKind 1) [7] (rotating_wal, rotating_world\<lparr>w_script := [IoShort 10, IoFail],
      w_synced := S, w_files := bm_insert (segment_path 1) [] (w_files rotating_world)\<rparr>) =
    (Inl (Io (segment_path 0)), (rotating_wal\<lparr>poisoned := True\<rparr>,
      rotating_world\<lparr>w_script := [], w_synced := S, w_files := left_files\<rparr>))"
proof -
  let ?bs = "enc no_crc \<lparr>rec_kind = RecordKind 1, rec_payload = [7]\<rparr>"
  let ?w = "rotating_world\<lparr>w_script := [IoShort 10, IoFail],
      w_synced := S, w_files := bm_insert (segment_path 1) [] (w_files rotating_world)\<rparr>"
  have "length (drop 10 ?bs) = 23" by simp
  then have ne: "drop 10 ?bs \<noteq> []" by (metis list.size(3) zero_neq_numeral)
  have "write_all (segment_path 0) ?bs ?w = (Inl (Io (segment_path 0)),
      rotating_world\<lparr>w_script := [], w_synced := S, w_files := left_files\<rparr>)"
    using ne by (simp add: write_all.simps [of _ ?bs] write_all.simps [of _ "drop 10 ?bs"] next_io_def
        append_file_def left_files_def rotating_world_def small_record_def Let_def file_content_def bm_get_insert
        empty_world_def)
  then show ?thesis
    by (simp add: wal_append_def ensure_healthy_def rotating_wal_def encoded_len_eq fits_u32_def
        checked_add_len_def fits_u64_def checked_add_def small_options_def rotate_if_needed_def
        write_record_def encode_record_eq write_or_poison_def Let_def)
qed

lemma left_files_get:
  "bm_get left_files p = (if p = segment_path 0 then Some (enc no_crc small_record @ take 10 (enc no_crc small_record))
    else if p = segment_path 1 then Some [] else None)"
  by (simp add: left_files_def bm_get_insert bm_get_empty_None)

lemma left_files_refused:
  assumes "w_files w = left_files" "quiet w" "\<not> w_locked w"
  shows "\<exists>w'. wal_open no_crc small_options w =
    (Inl (CorruptRecord \<lparr>lsn_segment = 0, lsn_offset = 33\<rparr> IncompleteRecord), w')"
proof -
  obtain w0 where w0: "io_step w w0" "wal_lock w = (Inr (),
      w0\<lparr>w_files := bm_insert LOCK_FILE (file_content w LOCK_FILE) (w_files w), w_locked := True\<rparr>)"
    (is "_ = (Inr (), ?w1)") using wal_lock_quiet [OF assms(2,3)] by blast
  have q1: "quiet ?w1" using io_step_quiet [OF w0(1) assms(2)] by (simp add: quiet_def)
  have two: "(of_nat 0 :: u64) = 0" "(of_nat (Suc 0) :: u64) = 1" by simp_all
  have "wal_names left_files 2"
    unfolding wal_names_def left_files_get by (auto simp: numeral_2_eq_2 less_Suc_eq)
  then have "\<exists>w2. io_step ?w1 w2 \<and> segment_ids ?w1 = (Inr (map of_nat [0..<2]), w2)"
    using assms(1) by (intro segment_ids_quiet [OF q1], simp_all)
      (auto simp: wal_names_LOCK bm_get_insert left_files_get numeral_2_eq_2 less_Suc_eq)
  then obtain w2 where w2: "io_step ?w1 w2" "segment_ids ?w1 = (Inr [0, 1], w2)"
    by (auto simp: numeral_2_eq_2)
  have fl: "bm_get (w_files w2) (segment_path 0) =
      Some (seg_bytes no_crc [small_record] @ take 10 (enc no_crc small_record))"
    using io_step_frame(1) [OF w2(1)] assms(1) by (simp add: bm_get_insert left_files_get)
  have "torn_tail no_crc 100 (length (seg_bytes no_crc [small_record])) (take 10 (enc no_crc small_record))"
    unfolding torn_tail_def using small_record_fits
    by (intro disjI2 exI [of _ small_record] exI [of _ 10]) auto
  with valid_len_quiet [OF io_step_quiet [OF w2(1) q1] _ _ _ fl, of 100] small_record_fits
  obtain w3 where w3: "valid_len no_crc 0 100 w2 = (Inr (IncompleteTail 33), w3)"
    by (auto simp: small_record_def)
  have "wal_recover no_crc 100 ?w1 = (Inl (CorruptRecord \<lparr>lsn_segment = 0, lsn_offset = 33\<rparr> IncompleteRecord), w3)"
    using w2(2) w3 by (simp add: wal_recover_def)
  then show ?thesis using w0(2) small_valid by (simp add: wal_open_def small_options_def)
qed

text \<open>C40. A rotation that fails while syncing the directory loses the log: the new, empty segment
  stays on disk, the log is not poisoned and goes on writing to the old one, and when such a write
  is cut off, recovery finds the torn record before the last segment and refuses to open the log,
  acknowledged records and all.\<close>

theorem failed_rotation_loses_log:
  "\<exists>wal w e1 wal1 w1 e2 wal2 w2. wal_inv no_crc (wal, w) [[small_record]]
    \<and> wal_append no_crc (RecordKind 1) (replicate 60 0) (wal, w) = (Inl e1, (wal1, w1)) \<and> \<not> poisoned wal1
    \<and> wal_append no_crc (RecordKind 1) [7] (wal1, w1) = (Inl e2, (wal2, w2))
    \<and> (\<exists>w3. wal_open no_crc (options wal) (w2\<lparr>w_locked := False\<rparr>) =
        (Inl (CorruptRecord \<lparr>lsn_segment = 0, lsn_offset = 33\<rparr> IncompleteRecord), w3))"
proof -
  let ?S = "bm_insert (segment_path 0) (enc no_crc small_record) bm_empty"
  let ?w2 = "rotating_world\<lparr>w_script := [], w_synced := ?S, w_files := left_files\<rparr>"
  have "\<exists>w3. wal_open no_crc small_options (?w2\<lparr>w_locked := False\<rparr>) =
      (Inl (CorruptRecord \<lparr>lsn_segment = 0, lsn_offset = 33\<rparr> IncompleteRecord), w3)"
    by (rule left_files_refused) (simp_all add: quiet_def)
  moreover have "\<not> poisoned rotating_wal" "options rotating_wal = small_options"
    by (simp_all add: rotating_wal_def)
  ultimately show ?thesis
    using rotating_inv rotation_fails write_torn [of ?S] by metis
qed

end
