(* ===== verification/WalDir.thy ===== *)
theory WalDir
  imports WalSpec
begin

text \<open>
  How opening the write-ahead log makes its directory: \<open>absolute_path\<close> (\<open>basisdb-wal/src/wal.rs\<close>)
  and \<open>create_dir_all\<close> (\<open>basisdb-wal/src/segment.rs\<close>), over a tree of directories in which an
  entry survives a crash only after its parent has been synced.

  An absolute path is the list of its components, \<open>[]\<close> is the root. As in \<open>World\<close>, a script
  holds the outcomes of the system calls to come; an empty script means that all succeed.
\<close>

section \<open>Directories\<close>

type_synonym path = "string list"

datatype FsPath = Abs path | Rel path

record Dirs =
  d_dirs :: "path list"
  d_synced :: "path list"
  d_script :: "IoOutcome list"

definition path_text :: "path \<Rightarrow> string" where
  "path_text p = concat (map (\<lambda>c. CHR ''/'' # c) p)"

definition dir_call :: "path \<Rightarrow> Dirs \<Rightarrow> (WalError + unit) \<times> Dirs" where
  "dir_call p d =
    (case d_script d of
       [] \<Rightarrow> (Inr (), d)
     | IoFail # s \<Rightarrow> (Inl (Io (path_text p)), d\<lparr>d_script := s\<rparr>)
     | _ # s \<Rightarrow> (Inr (), d\<lparr>d_script := s\<rparr>))"

definition try_exists :: "path \<Rightarrow> Dirs \<Rightarrow> (WalError + bool) \<times> Dirs" where
  "try_exists p d = io_bind (dir_call p d) (\<lambda>_ d. (Inr (p \<in> set (d_dirs d)), d))"

definition parent :: "path \<Rightarrow> path option" where
  "parent p = (if p = [] then None else Some (butlast p))"

text \<open>\<open>fs::create_dir_all\<close>: the missing directories on the way to a path, from the top. One that
  cannot be made ends it; those made before stay.\<close>

fun make_dirs :: "path \<Rightarrow> path list \<Rightarrow> Dirs \<Rightarrow> (WalError + unit) \<times> Dirs" where
  "make_dirs target [] d = (Inr (), d)"
| "make_dirs target (p # ps) d =
    (if p \<in> set (d_dirs d) then make_dirs target ps d
     else io_bind (dir_call target d) (\<lambda>_ d. make_dirs target ps (d\<lparr>d_dirs := p # d_dirs d\<rparr>)))"

definition ancestors :: "path \<Rightarrow> path list" where
  "ancestors p = map (\<lambda>k. take k p) [0..<Suc (length p)]"

text \<open>\<open>File::open(dir).and_then(|file| file.sync_all())\<close>\<close>

definition sync_entries :: "path \<Rightarrow> Dirs \<Rightarrow> (WalError + unit) \<times> Dirs" where
  "sync_entries p d =
    io_bind (dir_call p d) (\<lambda>_ d.
      if p \<notin> set (d_dirs d) then (Inl (Io (path_text p)), d)
      else (Inr (), d\<lparr>d_synced := filter (\<lambda>q. q \<noteq> [] \<and> butlast q = p) (d_dirs d) @ d_synced d\<rparr>))"

section \<open>The code\<close>

definition absolute_path :: "path option \<Rightarrow> FsPath \<Rightarrow> WalError + path" where
  "absolute_path current_dir p =
    (case p of
       Abs q \<Rightarrow> Inr q
     | Rel q \<Rightarrow>
         (case current_dir of
            Some current \<Rightarrow> Inr (current @ q)
          | None \<Rightarrow> Inl (Io ''.'')))"

function find_missing :: "path \<Rightarrow> path list \<Rightarrow> Dirs \<Rightarrow> (WalError + path list) \<times> Dirs" where
  "find_missing cursor missing d =
    io_bind (try_exists cursor d) (\<lambda>ex d.
      if ex then (Inr missing, d)
      else case parent cursor of
             None \<Rightarrow> (Inl SegmentIdExhausted, d)
           | Some p \<Rightarrow> find_missing p (missing @ [cursor]) d)"
  by pat_completeness auto
termination
  by (relation "measure (\<lambda>(cursor, missing, d). length cursor)")
     (auto simp: parent_def split: if_splits)

declare find_missing.simps [simp del]

fun sync_parents :: "path list \<Rightarrow> Dirs \<Rightarrow> (WalError + unit) \<times> Dirs" where
  "sync_parents [] d = (Inr (), d)"
| "sync_parents (created # rest) d =
    (case parent created of
       None \<Rightarrow> (Inl SegmentIdExhausted, d)
     | Some p \<Rightarrow> io_bind (sync_entries p d) (\<lambda>_ d. sync_parents rest d))"

definition create_dir_all :: "path \<Rightarrow> Dirs \<Rightarrow> (WalError + unit) \<times> Dirs" where
  "create_dir_all p d =
    io_bind (find_missing p [] d) (\<lambda>missing d.
    io_bind (make_dirs p (ancestors p) d) (\<lambda>_ d.
      sync_parents (rev missing) d))"

text \<open>\<open>Wal::open\<close> from its path: the directory is made before \<^const>\<open>wal_open\<close> locks it and recovers
  the segments in it. The check of the options comes first; \<^const>\<open>wal_open\<close>, whose own first step it is,
  repeats it.\<close>

definition wal_open_dir :: "path option \<Rightarrow> (bytes \<Rightarrow> u32) \<Rightarrow> FsPath \<Rightarrow> WalOptions \<Rightarrow> Dirs \<times> World
    \<Rightarrow> (WalError + Wal) \<times> Dirs \<times> World" where
  "wal_open_dir current_dir crc dir opts s =
    io_bind (validate_options opts, s) (\<lambda>_ s.
    io_bind (absolute_path current_dir dir, s) (\<lambda>p (d, w).
    io_bind (case create_dir_all p d of (r, d) \<Rightarrow> (r, (d, w))) (\<lambda>_ (d, w).
      case wal_open crc opts w of (r, w) \<Rightarrow> (r, (d, w)))))"

section \<open>Crashes\<close>

text \<open>A crash keeps a directory when its entry and those of the directories above it are synced.\<close>

definition crash_dirs :: "Dirs \<Rightarrow> path list" where
  "crash_dirs d = filter (\<lambda>p. \<forall>q \<in> set (ancestors p). q = [] \<or> q \<in> set (d_synced d)) (d_dirs d)"

text \<open>A tree in which every directory is in its parent and survives a crash.\<close>

definition dirs_ok :: "Dirs \<Rightarrow> bool" where
  "dirs_ok d \<longleftrightarrow> [] \<in> set (d_dirs d)
    \<and> (\<forall>p \<in> set (d_dirs d). p \<noteq> [] \<longrightarrow> butlast p \<in> set (d_dirs d) \<and> p \<in> set (d_synced d))"

text \<open>What the steps of a call that succeeds leave.\<close>

lemma dir_call_Inr: "dir_call p d = (Inr u, d') \<Longrightarrow> \<exists>s. d' = d\<lparr>d_script := s\<rparr>"
  by (auto simp: dir_call_def split: list.splits IoOutcome.splits intro: exI [of _ "[]"])

lemma io_bind_InrE:
  assumes "io_bind r f = (Inr y, d')"
  obtains x d1 where "r = (Inr x, d1)" "f x d1 = (Inr y, d')"
  using assms by (cases r; cases "fst r") (auto simp: io_bind_def)

lemma ancestors_Nil [simp]: "ancestors [] = [[]]"
  by (simp add: ancestors_def)

lemma ancestors_snoc [simp]: "ancestors (p @ [c]) = ancestors p @ [p @ [c]]"
  by (auto simp: ancestors_def)

lemma ancestors_self [simp]: "p \<in> set (ancestors p)"
  by (cases p rule: rev_cases) simp_all

lemma dirs_ok_ancestors: "dirs_ok d \<Longrightarrow> p \<in> set (d_dirs d) \<Longrightarrow> set (ancestors p) \<subseteq> set (d_dirs d)"
  by (induction p rule: rev_induct) (fastforce simp: dirs_ok_def)+

lemma find_missing_Inr:
  assumes "dirs_ok d" "find_missing cursor missing d = (Inr m, d')"
  shows "(\<exists>s. d' = d\<lparr>d_script := s\<rparr>) \<and> set (ancestors cursor) \<subseteq> set (d_dirs d) \<union> set m \<and> set missing \<subseteq> set m"
  using assms
proof (induction cursor arbitrary: missing d rule: rev_induct)
  case Nil
  then show ?case
    by (subst (asm) find_missing.simps)
       (auto simp: try_exists_def parent_def dirs_ok_def elim!: io_bind_InrE dest!: dir_call_Inr)
next
  case (snoc c cursor)
  from snoc.prems(2) obtain s where
    f: "(if cursor @ [c] \<in> set (d_dirs d) then (Inr missing, d\<lparr>d_script := s\<rparr>)
         else find_missing cursor (missing @ [cursor @ [c]]) (d\<lparr>d_script := s\<rparr>)) = (Inr m, d')"
    by (subst (asm) find_missing.simps)
       (auto simp: try_exists_def parent_def elim!: io_bind_InrE dest!: dir_call_Inr split: if_splits)
  have ok: "dirs_ok (d\<lparr>d_script := s\<rparr>)"
    using snoc.prems(1) by (simp add: dirs_ok_def)
  show ?case
  proof (cases "cursor @ [c] \<in> set (d_dirs d)")
    case True
    with f dirs_ok_ancestors [OF snoc.prems(1) True] show ?thesis by auto
  next
    case False
    with f snoc.IH [OF ok, of "missing @ [cursor @ [c]]"] show ?thesis by auto
  qed
qed

lemma make_dirs_Inr:
  assumes "make_dirs target ps d = (Inr u, d')"
  shows "set (d_dirs d') = set (d_dirs d) \<union> set ps \<and> d_synced d' = d_synced d"
  using assms
proof (induction ps arbitrary: d)
  case (Cons p ps)
  show ?case
  proof (cases "p \<in> set (d_dirs d)")
    case True
    with Cons show ?thesis by auto
  next
    case False
    with Cons.prems obtain s where
      "make_dirs target ps (d\<lparr>d_script := s, d_dirs := p # d_dirs d\<rparr>) = (Inr u, d')"
      by (auto elim!: io_bind_InrE dest!: dir_call_Inr)
    from Cons.IH [OF this] show ?thesis by auto
  qed
qed simp

lemma sync_entries_Inr:
  "sync_entries p d = (Inr u, d') \<Longrightarrow> d_dirs d' = d_dirs d
    \<and> set (d_synced d') = set (d_synced d) \<union> {q \<in> set (d_dirs d). q \<noteq> [] \<and> butlast q = p}"
  by (auto simp: sync_entries_def elim!: io_bind_InrE dest!: dir_call_Inr split: if_splits)

lemma sync_parents_Inr:
  assumes "sync_parents ps d = (Inr u, d')"
  shows "d_dirs d' = d_dirs d \<and> set (d_synced d) \<union> (set ps \<inter> set (d_dirs d)) \<subseteq> set (d_synced d')"
  using assms
proof (induction ps arbitrary: d)
  case (Cons p ps)
  from Cons.prems obtain d1 where p: "p \<noteq> []" and sy: "sync_entries (butlast p) d = (Inr (), d1)"
    and rest: "sync_parents ps d1 = (Inr u, d')"
    by (auto simp: parent_def split: if_splits elim!: io_bind_InrE)
  from Cons.IH [OF rest] sync_entries_Inr [OF sy] p show ?case by auto
qed simp

section \<open>Durability of the directory\<close>

text \<open>A call that succeeds on a durable tree leaves a durable one with the directory in it.\<close>

lemma create_dir_all_Inr:
  assumes "dirs_ok d" "create_dir_all p d = (Inr (), d')"
  shows "dirs_ok d' \<and> set (crash_dirs d') = set (d_dirs d) \<union> set (ancestors p)"
proof -
  from assms(2) obtain m d1 d2 where m: "find_missing p [] d = (Inr m, d1)"
    and mk: "make_dirs p (ancestors p) d1 = (Inr (), d2)" and sy: "sync_parents (rev m) d2 = (Inr (), d')"
    by (auto simp: create_dir_all_def elim!: io_bind_InrE)
  from find_missing_Inr [OF assms(1) m] make_dirs_Inr [OF mk] sync_parents_Inr [OF sy]
  have dirs: "set (d_dirs d') = set (d_dirs d) \<union> set (ancestors p)"
    and synced: "set (d_synced d) \<union> (set (ancestors p) - set (d_dirs d)) \<subseteq> set (d_synced d')"
    by auto
  have up: "butlast q \<in> set (ancestors p)" if "q \<in> set (ancestors p)" "q \<noteq> []" for q
    using that by (induction p rule: rev_induct) auto
  have ok: "dirs_ok d'"
    unfolding dirs_ok_def
  proof (intro conjI ballI impI)
    show "[] \<in> set (d_dirs d')" using assms(1) dirs by (simp add: dirs_ok_def)
  next
    fix q assume q: "q \<in> set (d_dirs d')" "q \<noteq> []"
    show "butlast q \<in> set (d_dirs d')" using q dirs up [of q] assms(1) by (auto simp: dirs_ok_def)
    show "q \<in> set (d_synced d')" using q dirs synced assms(1) by (auto simp: dirs_ok_def)
  qed
  have "set (crash_dirs d') = set (d_dirs d')"
  proof (intro equalityI subsetI)
    fix q assume q: "q \<in> set (d_dirs d')"
    show "q \<in> set (crash_dirs d')"
      using q dirs_ok_ancestors [OF ok q] ok by (auto simp: crash_dirs_def dirs_ok_def)
  qed (simp add: crash_dirs_def)
  with ok dirs show ?thesis by simp
qed

text \<open>C22. Opening the log keeps its directory: when \<open>Wal::open\<close> returns a log, on a tree whose
  directories are all durable, they are all durable afterwards, and a crash right after it loses
  neither the directory asked for, nor one above it, nor one that was there; a relative path names
  the directory below the current one.\<close>

theorem wal_open_dir_durable:
  assumes "dirs_ok d" "wal_open_dir current_dir crc dir opts (d, w) = (Inr wal, (d', w'))"
  shows "\<exists>p. (dir = Abs p \<or> (\<exists>q current. dir = Rel q \<and> current_dir = Some current \<and> p = current @ q))
    \<and> dirs_ok d' \<and> set (crash_dirs d') = set (d_dirs d) \<union> set (ancestors p)
    \<and> wal_open crc opts w = (Inr wal, w')"
proof -
  from assms(2) obtain p where p: "absolute_path current_dir dir = Inr p"
    and c: "create_dir_all p d = (Inr (), d')" "wal_open crc opts w = (Inr wal, w')"
    by (auto simp: wal_open_dir_def elim!: io_bind_InrE split: prod.splits)
  from p have "dir = Abs p \<or> (\<exists>q current. dir = Rel q \<and> current_dir = Some current \<and> p = current @ q)"
    by (auto simp: absolute_path_def split: FsPath.splits option.splits)
  with create_dir_all_Inr [OF assms(1) c(1)] c(2) show ?thesis by blast
qed

text \<open>A new node opens its log in a directory of its own below the root.\<close>

theorem wal_open_dir_durable_witness:
  "\<exists>d wal d' w'. dirs_ok d \<and> [''data'', ''wal''] \<notin> set (d_dirs d)
    \<and> wal_open_dir (Some [''data'']) no_crc (Rel [''wal'']) small_options (d, empty_world) = (Inr wal, (d', w'))
    \<and> [''data'', ''wal''] \<in> set (crash_dirs d')"
proof -
  let ?d = "\<lparr>d_dirs = [[]], d_synced = [], d_script = [IoOk]\<rparr>"
  have ok: "dirs_ok ?d" "[''data'', ''wal''] \<notin> set (d_dirs ?d)" by code_simp+
  have "fst (create_dir_all [''data'', ''wal''] ?d) = Inr ()" by code_simp
  then obtain d' where c: "create_dir_all [''data'', ''wal''] ?d = (Inr (), d')" by (metis prod.collapse)
  obtain wal w' where "wal_open no_crc small_options empty_world = (Inr wal, w')"
    using opened by blast
  with c small_valid have o: "wal_open_dir (Some [''data'']) no_crc (Rel [''wal'']) small_options (?d, empty_world)
      = (Inr wal, (d', w'))"
    by (simp add: wal_open_dir_def absolute_path_def io_bind_def)
  from wal_open_dir_durable [OF ok(1) o] ok o show ?thesis by fastforce
qed

text \<open>C39. The contract needs the durable tree: when a call makes a directory and then fails to
  sync its parent, the same call made again finds nothing missing, syncs nothing and returns without
  an error, and a crash after it loses the directory.
\<close>

theorem retried_create_not_durable:
  "\<exists>d d1 d2 e. dirs_ok d \<and> create_dir_all [''wal''] d = (Inl e, d1)
    \<and> create_dir_all [''wal''] d1 = (Inr (), d2)
    \<and> [''wal''] \<in> set (d_dirs d2) \<and> [''wal''] \<notin> set (crash_dirs d2)"
proof -
  let ?d = "\<lparr>d_dirs = [[]], d_synced = [], d_script = [IoOk, IoOk, IoOk, IoFail]\<rparr>"
  let ?d1 = "\<lparr>d_dirs = [[''wal''], []], d_synced = [], d_script = []\<rparr>"
  have "dirs_ok ?d" "create_dir_all [''wal''] ?d = (Inl (Io []), ?d1)"
    "create_dir_all [''wal''] ?d1 = (Inr (), ?d1)" "[''wal''] \<notin> set (crash_dirs ?d1)"
    by code_simp+
  then show ?thesis by (intro exI conjI) auto
qed

end
