(* ===== verification/Auth.thy ===== *)
theory Auth
  imports Text
begin

unbundle bit_operations_syntax

text \<open>
  Authentication of the peer transport (\<open>basisdb-node/src/auth.rs\<close>): hexadecimal keys and
  signatures, and the check of a signed body. HMAC-SHA256 is code of the \<open>hmac\<close> and \<open>sha2\<close>
  crates; here it is the parameter \<open>hmac\<close>, a function of key and body. What the code relies on
  is that a tag has 32 bytes and that \<open>verify_slice\<close> compares the tag of the body with the
  given bytes.
\<close>

definition KEY_BYTES :: nat where "KEY_BYTES = 32"
definition SIGNATURE_BYTES :: nat where "SIGNATURE_BYTES = 32"

datatype RaftKey = RaftKey (key_bytes: bytes)

datatype InvalidRaftKey = InvalidRaftKey

definition nibble :: "u8 \<Rightarrow> u8 option" where
  "nibble byte =
    (if 48 \<le> byte \<and> byte \<le> 57 then Some (byte - 48)
     else if 97 \<le> byte \<and> byte \<le> 102 then Some (byte - 97 + 10)
     else if 65 \<le> byte \<and> byte \<le> 70 then Some (byte - 65 + 10)
     else None)"

text \<open>\<open>u8::checked_mul\<close> and \<open>u8::checked_add\<close>\<close>

definition checked_mul_u8 :: "u8 \<Rightarrow> u8 \<Rightarrow> u8 option" where
  "checked_mul_u8 a b = (if uint a * uint b < 256 then Some (a * b) else None)"

definition checked_add_u8 :: "u8 \<Rightarrow> u8 \<Rightarrow> u8 option" where
  "checked_add_u8 a b = (if uint a + uint b < 256 then Some (a + b) else None)"

definition as_bytes :: "string \<Rightarrow> bytes" where
  "as_bytes s = map of_char s"

fun decode_pairs :: "bytes \<Rightarrow> bytes option" where
  "decode_pairs (a # b # rest) = do {
     hi \<leftarrow> nibble a;
     hi \<leftarrow> checked_mul_u8 hi 16;
     lo \<leftarrow> nibble b;
     byte \<leftarrow> checked_add_u8 hi lo;
     decoded \<leftarrow> decode_pairs rest;
     Some (byte # decoded) }"
| "decode_pairs _ = Some []"

definition decode_hex :: "nat \<Rightarrow> string \<Rightarrow> bytes option" where
  "decode_hex n value =
    (if length value \<noteq> n * 2 then None else decode_pairs (as_bytes value))"

definition HEX :: string where "HEX = ''0123456789abcdef''"

fun encode_hex :: "bytes \<Rightarrow> string" where
  "encode_hex [] = []"
| "encode_hex (byte # rest) =
    HEX ! unat (drop_bit 4 byte) # HEX ! unat (byte AND 15) # encode_hex rest"

definition from_hex :: "string \<Rightarrow> InvalidRaftKey + RaftKey" where
  "from_hex value =
    (case decode_hex KEY_BYTES value of
       Some k \<Rightarrow> Inr (RaftKey k)
     | None \<Rightarrow> Inl InvalidRaftKey)"

definition signature :: "(bytes \<Rightarrow> bytes \<Rightarrow> bytes) \<Rightarrow> RaftKey \<Rightarrow> bytes \<Rightarrow> string option" where
  "signature hmac key body = Some (encode_hex (hmac (key_bytes key) body))"

definition verify :: "(bytes \<Rightarrow> bytes \<Rightarrow> bytes) \<Rightarrow> RaftKey \<Rightarrow> bytes \<Rightarrow> string \<Rightarrow> bool" where
  "verify hmac key body sig =
    (case decode_hex SIGNATURE_BYTES sig of
       None \<Rightarrow> False
     | Some tag \<Rightarrow> hmac (key_bytes key) body = tag)"

section \<open>Hexadecimal\<close>

lemma length_encode_hex [simp]: "length (encode_hex bs) = length bs * 2"
  by (induction bs) simp_all

lemma nibble_hex_digit:
  assumes "n < 16"
  shows "nibble (of_char (HEX ! n)) = Some (of_nat n)"
proof -
  have "\<forall>n \<in> set [0..<16]. nibble (of_char (HEX ! n)) = Some (of_nat n)"
    by (simp add: HEX_def nibble_def upt_rec)
  with assms show ?thesis by simp
qed

lemma unat_u8_lt: "unat (b :: u8) < 256"
  using unsigned_less [of b] by simp

lemma unat_high: "unat (drop_bit 4 (b :: u8)) = unat b div 16"
  by (simp add: drop_bit_eq_div unat_div)

lemma unat_low: "unat ((b :: u8) AND 15) = unat b mod 16"
proof -
  have "(b AND 15) = take_bit 4 b" by (simp add: take_bit_eq_mask mask_eq_exp_minus_1)
  then show ?thesis by (simp add: take_bit_eq_mod unat_mod)
qed

lemma uint_of_nat_u8: "n < 256 \<Longrightarrow> uint (of_nat n :: u8) = int n"
  by (simp add: unsigned_of_nat take_bit_nat_eq_self)

lemma join_nibbles:
  assumes "h < 16" "l < 16"
  shows "checked_mul_u8 (of_nat h) 16 = Some (of_nat (h * 16))"
    and "checked_add_u8 (of_nat (h * 16)) (of_nat l) = Some (of_nat (h * 16 + l))"
proof -
  have "uint (of_nat h :: u8) * uint (16 :: u8) < 256"
    using assms by (simp add: uint_of_nat_u8)
  then show "checked_mul_u8 (of_nat h) 16 = Some (of_nat (h * 16))"
    by (simp add: checked_mul_u8_def)
  have "h * 16 < 256" "l < 256" using assms by simp_all
  then have "uint (of_nat (h * 16) :: u8) + uint (of_nat l :: u8) = int (h * 16) + int l"
    by (simp only: uint_of_nat_u8)
  also have "\<dots> < 256" using assms by simp
  finally have "uint (of_nat (h * 16) :: u8) + uint (of_nat l :: u8) < 256" .
  then show "checked_add_u8 (of_nat (h * 16)) (of_nat l) = Some (of_nat (h * 16 + l))"
    by (simp only: checked_add_u8_def if_True of_nat_add)
qed

lemma decode_encode_pairs: "decode_pairs (as_bytes (encode_hex bs)) = Some bs"
proof (induction bs)
  case (Cons b bs)
  define h l where "h = unat b div 16" and "l = unat b mod 16"
  have hl: "h < 16" "l < 16" "h * 16 + l = unat b"
    using unat_u8_lt [of b] by (simp_all add: h_def l_def)
  then have "of_nat (h * 16 + l) = b" by simp
  with Cons hl(1,2) join_nibbles [OF hl(1,2)] show ?case
    by (simp add: as_bytes_def unat_high unat_low nibble_hex_digit flip: h_def l_def)
qed (simp add: as_bytes_def)

lemma decode_encode_hex: "decode_hex (length bs) (encode_hex bs) = Some bs"
  by (simp add: decode_hex_def decode_encode_pairs)

section \<open>Properties\<close>

text \<open>Keys and signatures round-trip through hexadecimal, and signing is what verification
  checks: for a key of 32 bytes and any HMAC with 32-byte tags, the encoded key is read back,
  the signature of a body is accepted for it, and it is accepted for another body exactly when
  that body has the same tag.\<close>

theorem auth_roundtrip:
  assumes "\<And>k b. length (hmac k b) = 32" and "length (key_bytes key) = 32"
    and "signature hmac key body = Some sig"
  shows "from_hex (encode_hex (key_bytes key)) = Inr key
    \<and> verify hmac key body sig
    \<and> (verify hmac key' body' sig \<longleftrightarrow> hmac (key_bytes key') body' = hmac (key_bytes key) body)"
proof -
  have "decode_hex SIGNATURE_BYTES sig = Some (hmac (key_bytes key) body)"
    using assms(1,3) decode_encode_hex [of "hmac (key_bytes key) body"]
    by (auto simp: signature_def SIGNATURE_BYTES_def)
  moreover have "decode_hex KEY_BYTES (encode_hex (key_bytes key)) = Some (key_bytes key)"
    using assms(2) decode_encode_hex [of "key_bytes key"] by (simp add: KEY_BYTES_def)
  ultimately show ?thesis by (simp add: verify_def from_hex_def)
qed

theorem auth_roundtrip_witness:
  "verify (\<lambda>k b. replicate 32 (of_nat (length b))) (RaftKey (replicate 32 1)) [5, 6]
     (encode_hex (replicate 32 2))"
  using auth_roundtrip [of "\<lambda>k b. replicate 32 (of_nat (length b))" "RaftKey (replicate 32 1)" "[5, 6]"
      "encode_hex (replicate 32 2)"]
  by (simp add: signature_def)

end
