(* ===== verification/NodeConf.thy ===== *)
theory NodeConf
  imports Auth RaftCore
begin

text \<open>
  The configuration of a node (\<open>basisdb-node/src/config.rs\<close>) and how the command line program
  builds it from a file (\<open>basisdb/src/main.rs\<close>): \<open>parse_node_config\<close> and its helpers.

  Three things are parameters: reading the file (\<open>read\<close>), the TOML parser of the \<open>toml\<close> crate
  (\<open>from_str\<close>), and the resolution of host names by the operating system (\<open>lookup_host\<close>);
  \<open>None\<close> is an error of theirs. An error of the program is a constructor with the values that
  its message shows.
\<close>

section \<open>Addresses\<close>

text \<open>\<open>std::net::SocketAddr\<close>: an address and a port; for IPv6 also flow and scope.\<close>

datatype SocketAddr = V4 u32 u16 | V6 "128 word" u16 u32 u32

section \<open>Configuration\<close>

record StorageOptions =
  so_name :: string
  data_dir :: string

definition storage_options_default :: StorageOptions where
  "storage_options_default = \<lparr>so_name = ''default'', data_dir = ''/var/lib/basisdb''\<rparr>"

record NodeConfig =
  nc_node_id :: NodeId
  client_addr :: SocketAddr
  raft_addr :: SocketAddr
  nc_peers :: "(NodeId, SocketAddr) btreemap"
  raft_key :: RaftKey
  storage :: StorageOptions
  consensus :: Config

text \<open>\<open>Path::join\<close> with a relative name: a separator is added unless the path is empty or ends
  in one.\<close>

definition path_join :: "string \<Rightarrow> string \<Rightarrow> string" where
  "path_join dir name = (if dir = [] \<or> last dir = CHR ''/'' then dir @ name else dir @ ''/'' @ name)"

definition raft_dir :: "NodeConfig \<Rightarrow> string" where
  "raft_dir c = path_join (data_dir (storage c)) ''raft''"

definition raft_config :: "NodeId \<Rightarrow> Config" where
  "raft_config i = (with_parallel_disk_write (config_new i) False)\<lparr>max_entries_per_msg := 1\<rparr>"

section \<open>The configuration file\<close>

record NodeSection =
  ns_id :: u64
  ns_host :: string
  ns_client_port :: u16
  ns_raft_port :: u16

record PeerSection =
  ps_id :: u64
  ps_host :: string
  ps_raft_port :: u16

record ClusterSection =
  cs_raft_key :: string
  cs_peers :: "PeerSection list"

record StorageSection =
  sts_data_dir :: string

record ConfigFile =
  cf_node :: NodeSection
  cf_storage :: StorageSection
  cf_cluster :: ClusterSection

datatype ConfigError =
  Reading string
| Parsing string ConfigError
| InvalidToml
| Resolving string u16
| NoAddress string u16
| AmbiguousAddress string u16 nat
| InvalidKey
| DuplicateAddress SocketAddr
| DuplicateId u64
| NoPeers
| WrongSelfAddress u64 SocketAddr SocketAddr
| MissingSelf u64

definition resolve_peer_addr ::
    "(string \<Rightarrow> u16 \<Rightarrow> SocketAddr list option) \<Rightarrow> string \<Rightarrow> u16 \<Rightarrow> ConfigError + SocketAddr" where
  "resolve_peer_addr lookup_host host port =
    (case lookup_host host port of
       None \<Rightarrow> Inl (Resolving host port)
     | Some addrs \<Rightarrow>
         (case addrs of
            [addr] \<Rightarrow> Inr addr
          | [] \<Rightarrow> Inl (NoAddress host port)
          | _ \<Rightarrow> Inl (AmbiguousAddress host port (length addrs))))"

fun add_peers ::
    "(string \<Rightarrow> u16 \<Rightarrow> SocketAddr list option) \<Rightarrow> PeerSection list
      \<Rightarrow> (NodeId, SocketAddr) btreemap \<Rightarrow> ConfigError + (NodeId, SocketAddr) btreemap" where
  "add_peers lookup_host [] addrs = Inr addrs"
| "add_peers lookup_host (peer # rest) addrs =
    try_bind (resolve_peer_addr lookup_host (ps_host peer) (ps_raft_port peer)) (\<lambda>addr.
      if addr \<in> snd ` set (entries_of addrs) then Inl (DuplicateAddress addr)
      else if bm_get addrs (NodeId (ps_id peer)) \<noteq> None then Inl (DuplicateId (ps_id peer))
      else add_peers lookup_host rest (bm_insert (NodeId (ps_id peer)) addr addrs))"

definition peer_addrs ::
    "(string \<Rightarrow> u16 \<Rightarrow> SocketAddr list option) \<Rightarrow> PeerSection list
      \<Rightarrow> ConfigError + (NodeId, SocketAddr) btreemap" where
  "peer_addrs lookup_host peers =
    try_bind (add_peers lookup_host peers bm_empty) (\<lambda>addrs.
      if entries_of addrs = [] then Inl NoPeers else Inr addrs)"

definition parse_node_config ::
    "(string \<Rightarrow> ConfigFile option) \<Rightarrow> (string \<Rightarrow> u16 \<Rightarrow> SocketAddr list option) \<Rightarrow> string
      \<Rightarrow> ConfigError + NodeConfig" where
  "parse_node_config from_str lookup_host contents =
    (case from_str contents of
       None \<Rightarrow> Inl InvalidToml
     | Some file \<Rightarrow>
         let node = cf_node file; node_id = NodeId (ns_id node) in
         try_bind (resolve_peer_addr lookup_host (ns_host node) (ns_client_port node)) (\<lambda>client.
         try_bind (resolve_peer_addr lookup_host (ns_host node) (ns_raft_port node)) (\<lambda>raft.
         try_bind (map_sum (\<lambda>_. InvalidKey) id (from_hex (cs_raft_key (cf_cluster file)))) (\<lambda>key.
         try_bind (peer_addrs lookup_host (cs_peers (cf_cluster file))) (\<lambda>peers.
           case bm_get peers node_id of
             None \<Rightarrow> Inl (MissingSelf (node_num node_id))
           | Some peer_addr \<Rightarrow>
               if peer_addr \<noteq> raft then Inl (WrongSelfAddress (node_num node_id) peer_addr raft)
               else Inr \<lparr>nc_node_id = node_id, client_addr = client, raft_addr = raft,
                         nc_peers = peers, raft_key = key,
                         storage = \<lparr>so_name = ''default'', data_dir = sts_data_dir (cf_storage file)\<rparr>,
                         consensus = raft_config node_id\<rparr>)))))"

definition load_node_config ::
    "(string \<Rightarrow> string option) \<Rightarrow> (string \<Rightarrow> ConfigFile option)
      \<Rightarrow> (string \<Rightarrow> u16 \<Rightarrow> SocketAddr list option) \<Rightarrow> string \<Rightarrow> ConfigError + NodeConfig" where
  "load_node_config read from_str lookup_host path =
    (case read path of
       None \<Rightarrow> Inl (Reading path)
     | Some contents \<Rightarrow>
         map_sum (Parsing path) id (parse_node_config from_str lookup_host contents))"

section \<open>Peers\<close>

text \<open>The peers of a cluster have pairwise different addresses, and the map has one entry for
  each section.\<close>

definition addresses_distinct :: "(NodeId, SocketAddr) btreemap \<Rightarrow> bool" where
  "addresses_distinct m \<longleftrightarrow>
    (\<forall>i j a. bm_get m i = Some a \<and> bm_get m j = Some a \<longrightarrow> i = j)"

lemma add_peers_spec:
  assumes "add_peers lookup_host peers addrs = Inr m" "addresses_distinct addrs"
  shows "addresses_distinct m
    \<and> (\<forall>i. bm_get m i \<noteq> None \<longleftrightarrow> bm_get addrs i \<noteq> None \<or> i \<in> (NodeId \<circ> ps_id) ` set peers)
    \<and> (\<forall>p \<in> set peers. \<exists>a. lookup_host (ps_host p) (ps_raft_port p) = Some [a]
          \<and> bm_get m (NodeId (ps_id p)) = Some a)
    \<and> (\<forall>i a. bm_get addrs i = Some a \<longrightarrow> bm_get m i = Some a)
    \<and> (\<forall>p \<in> set peers. bm_get addrs (NodeId (ps_id p)) = None)
    \<and> distinct (map ps_id peers)"
  using assms
proof (induction peers arbitrary: addrs)
  case (Cons p ps)
  let ?i = "NodeId (ps_id p)"
  obtain a where a: "resolve_peer_addr lookup_host (ps_host p) (ps_raft_port p) = Inr a"
    "a \<notin> snd ` set (entries_of addrs)" "bm_get addrs ?i = None"
    "add_peers lookup_host ps (bm_insert ?i a addrs) = Inr m"
    using Cons.prems(1) by (auto simp: try_bind_Inr_iff split: if_splits)
  have look: "lookup_host (ps_host p) (ps_raft_port p) = Some [a]"
    using a(1) by (auto simp: resolve_peer_addr_def split: option.splits list.splits)
  have new: "bm_get addrs j \<noteq> Some a" for j
    using a(2) in_entries_iff [of j a addrs] by force
  have d: "addresses_distinct (bm_insert ?i a addrs)"
    using Cons.prems(2) new by (auto simp: addresses_distinct_def bm_get_insert)
  note IH = Cons.IH [OF a(4) d]
  have keep: "bm_get m i = Some x" if "bm_get (bm_insert ?i a addrs) i = Some x" for i x
    using IH that by blast
  have none: "\<forall>q \<in> set ps. bm_get (bm_insert ?i a addrs) (NodeId (ps_id q)) = None"
    and dist: "distinct (map ps_id ps)" using IH by blast+
  have fresh: "ps_id p \<notin> set (map ps_id ps)" using none by (auto simp: bm_get_insert)
  have rest: "\<forall>q \<in> set ps. bm_get addrs (NodeId (ps_id q)) = None"
    using none by (auto simp: bm_get_insert split: if_splits)
  have "bm_get m ?i = Some a" by (rule keep) (simp add: bm_get_insert)
  moreover have "\<forall>i x. bm_get addrs i = Some x \<longrightarrow> bm_get m i = Some x"
    using keep a(3) by (metis bm_get_insert option.distinct(1))
  moreover have "\<forall>i. bm_get m i \<noteq> None \<longleftrightarrow> bm_get addrs i \<noteq> None \<or> i \<in> (NodeId \<circ> ps_id) ` set (p # ps)"
    using IH by (auto simp: bm_get_insert split: if_splits)
  ultimately show ?case using IH look fresh rest dist a(3) by simp
qed simp

end
