(* ===== verification/Transport.thy ===== *)
theory Transport
  imports NodeConf RaftEvent
begin

text \<open>
  The peer transport (\<open>basisdb-node/src/transport.rs\<close>), the sending side: a bounded number of
  messages in flight to each peer, and the signed request that carries one.

  A spawned task is an element of \<open>tasks\<close>; it holds one permit of its peer's semaphore until it
  ends, whichever way it ends (\<open>task_done\<close>). The JSON encoding (\<open>encode\<close>) and HMAC (\<open>hmac\<close>) are
  parameters, and so is \<open>exchange\<close>: connecting, writing the HTTP request with the given
  signature and body, and reading the response.
\<close>

section \<open>State\<close>

definition MAX_RAFT_MESSAGE_BYTES :: nat where "MAX_RAFT_MESSAGE_BYTES = 2 * 1024 * 1024"
definition MAX_IN_FLIGHT_PER_PEER :: nat where "MAX_IN_FLIGHT_PER_PEER = 16"

record Peer =
  peer_addr :: SocketAddr
  permits :: nat

record PeerTransport =
  t_peers :: "(NodeId, Peer) btreemap"
  t_key :: RaftKey
  tasks :: "(SocketAddr \<times> Message) list"

text \<open>\<open>collect\<close> into a \<open>BTreeMap\<close>\<close>

fun bm_collect :: "('k :: linorder \<times> 'v) list \<Rightarrow> ('k, 'v) btreemap" where
  "bm_collect [] = bm_empty"
| "bm_collect ((k, v) # ps) = (let m = bm_collect ps in if bm_get m k = None then bm_insert k v m else m)"

definition transport_new :: "NodeId \<Rightarrow> RaftKey \<Rightarrow> (NodeId, SocketAddr) btreemap \<Rightarrow> PeerTransport" where
  "transport_new node_id key peers =
    \<lparr>t_peers = bm_collect (map (\<lambda>(peer, addr).
        (peer, \<lparr>peer_addr = addr, permits = MAX_IN_FLIGHT_PER_PEER\<rparr>))
        (filter (\<lambda>(peer, _). peer \<noteq> node_id) (entries_of peers))),
     t_key = key, tasks = []\<rparr>"

section \<open>Sending\<close>

definition transport_send :: "Message \<Rightarrow> PeerTransport \<Rightarrow> (NodeId + unit) \<times> PeerTransport" where
  "transport_send message t =
    (case bm_get (t_peers t) (m_to message) of
       None \<Rightarrow> (Inl (m_to message), t)
     | Some peer \<Rightarrow>
         if permits peer = 0 then (Inr (), t)
         else (Inr (), t\<lparr>t_peers := bm_insert (m_to message) (peer\<lparr>permits := permits peer - 1\<rparr>) (t_peers t),
                         tasks := tasks t @ [(peer_addr peer, message)]\<rparr>))"

definition task_done :: "nat \<Rightarrow> PeerTransport \<Rightarrow> PeerTransport" where
  "task_done i t =
    (if i < length (tasks t) then
       case bm_get (t_peers t) (m_to (snd (tasks t ! i))) of
         None \<Rightarrow> t
       | Some peer \<Rightarrow>
           t\<lparr>t_peers := bm_insert (m_to (snd (tasks t ! i))) (peer\<lparr>permits := permits peer + 1\<rparr>) (t_peers t),
             tasks := take i (tasks t) @ drop (Suc i) (tasks t)\<rparr>
     else t)"

datatype PostError =
  EncodingFailed
| TooLarge nat
| SigningFailed
| NetworkFailed string
| RejectedBy SocketAddr bytes

definition raft_request ::
    "(Message \<Rightarrow> bytes option) \<Rightarrow> (bytes \<Rightarrow> bytes \<Rightarrow> bytes) \<Rightarrow> RaftKey \<Rightarrow> Message
      \<Rightarrow> PostError + string \<times> bytes" where
  "raft_request encode hmac key message =
    (case encode message of
       None \<Rightarrow> Inl EncodingFailed
     | Some body \<Rightarrow>
         if length body > MAX_RAFT_MESSAGE_BYTES then Inl (TooLarge (length body))
         else
           case signature hmac key body of
             None \<Rightarrow> Inl SigningFailed
           | Some sig \<Rightarrow> Inr (sig, body))"

definition post_raft_message_inner ::
    "(Message \<Rightarrow> bytes option) \<Rightarrow> (bytes \<Rightarrow> bytes \<Rightarrow> bytes)
      \<Rightarrow> (SocketAddr \<Rightarrow> string \<Rightarrow> bytes \<Rightarrow> string + bytes) \<Rightarrow> SocketAddr \<Rightarrow> RaftKey \<Rightarrow> Message
      \<Rightarrow> PostError + unit" where
  "post_raft_message_inner encode hmac exchange addr key message =
    try_bind (raft_request encode hmac key message) (\<lambda>(sig, body).
    try_bind (map_sum NetworkFailed id (exchange addr sig body)) (\<lambda>response.
      if take 12 response = as_bytes ''HTTP/1.1 204'' then Inr ()
      else Inl (RejectedBy addr response)))"

section \<open>Permits\<close>

text \<open>The messages in flight to a peer and its free permits add up to the limit, and every task
  goes to the address of a known peer.\<close>

definition in_flight :: "PeerTransport \<Rightarrow> NodeId \<Rightarrow> nat" where
  "in_flight t i = length (filter (\<lambda>(_, m). m_to m = i) (tasks t))"

definition transport_inv :: "PeerTransport \<Rightarrow> bool" where
  "transport_inv t \<longleftrightarrow>
    (\<forall>i p. bm_get (t_peers t) i = Some p \<longrightarrow> permits p + in_flight t i = MAX_IN_FLIGHT_PER_PEER)
    \<and> (\<forall>(a, m) \<in> set (tasks t). \<exists>p. bm_get (t_peers t) (m_to m) = Some p \<and> peer_addr p = a)"

lemma bm_get_collect: "distinct (map fst ps) \<Longrightarrow> bm_get (bm_collect ps) k = map_of ps k"
  by (induction ps rule: bm_collect.induct) (force simp: Let_def bm_get_insert map_of_eq_None_iff)+

lemma distinct_filter_map:
  "distinct (map fst ps) \<Longrightarrow> distinct (map fst (map (\<lambda>(k, v). (k, f v)) (filter (\<lambda>(k, _). k \<noteq> x) ps)))"
  by (induction ps) force+

lemma map_of_filter_map:
  "map_of (map (\<lambda>(k, v). (k, f v)) (filter (\<lambda>(k, _). k \<noteq> x) ps)) k =
    (if k = x then None else map_option f (map_of ps k))"
  by (induction ps) auto

lemma transport_new_peers:
  "bm_get (t_peers (transport_new me key peers)) i =
    (if i = me then None
     else map_option (\<lambda>a. \<lparr>peer_addr = a, permits = MAX_IN_FLIGHT_PER_PEER\<rparr>) (bm_get peers i))"
proof -
  have "distinct (map fst (entries_of peers))"
    using bm_keys_distinct [of peers] by (simp add: bm_keys_def)
  from bm_get_collect [OF distinct_filter_map [OF this,
      of "\<lambda>a. \<lparr>peer_addr = a, permits = MAX_IN_FLIGHT_PER_PEER\<rparr>" me], of i]
  show ?thesis
    by (simp add: transport_new_def map_of_filter_map bm_get_def [of peers])
qed

lemma transport_new_inv: "transport_inv (transport_new me key peers)"
  by (auto simp: transport_inv_def transport_new_peers in_flight_def split: if_splits)
     (simp_all add: transport_new_def)

lemma transport_send_inv:
  assumes "transport_inv t" "transport_send m t = (r, t')"
  shows "transport_inv t'"
  using assms
  by (auto simp: transport_send_def transport_inv_def in_flight_def bm_get_insert
      split: option.splits if_splits) fastforce+

lemma in_flight_remove:
  assumes "n < length xs"
  shows "length (filter P (take n xs @ drop (Suc n) xs)) + (if P (xs ! n) then 1 else 0) =
    length (filter P xs)"
  using assms by (subst (3) id_take_nth_drop [OF assms]) simp

lemma task_done_inv:
  assumes "transport_inv t"
  shows "transport_inv (task_done n t)"
proof (cases "n < length (tasks t)")
  case True
  obtain a m where am: "tasks t ! n = (a, m)" by force
  then have "(a, m) \<in> set (tasks t)" using True nth_mem by metis
  then obtain p where p: "bm_get (t_peers t) (m_to m) = Some p"
    using assms by (auto simp: transport_inv_def)
  have rest: "set (take n (tasks t) @ drop (Suc n) (tasks t)) \<subseteq> set (tasks t)"
    by (auto dest: in_set_takeD in_set_dropD)
  have count: "in_flight (task_done n t) i + (if i = m_to m then 1 else 0) = in_flight t i" for i
    using in_flight_remove [OF True, of "\<lambda>(_, m). m_to m = i"] True am p
    by (auto simp: in_flight_def task_done_def)
  have peers: "bm_get (t_peers (task_done n t)) i =
      (if i = m_to m then Some (p\<lparr>permits := permits p + 1\<rparr>) else bm_get (t_peers t) i)" for i
    using True am p by (simp add: task_done_def bm_get_insert)
  have tk: "tasks (task_done n t) = take n (tasks t) @ drop (Suc n) (tasks t)"
    using True am p by (simp add: task_done_def)
  show ?thesis
    unfolding transport_inv_def
  proof (intro conjI allI impI ballI)
    fix i q assume q: "bm_get (t_peers (task_done n t)) i = Some q"
    show "permits q + in_flight (task_done n t) i = MAX_IN_FLIGHT_PER_PEER"
      using q assms p count [of i] by (fastforce simp: peers transport_inv_def split: if_splits)
  next
    fix x assume "x \<in> set (tasks (task_done n t))"
    then have "x \<in> set (tasks t)" using rest tk by auto
    with assms p show "case x of (a, m) \<Rightarrow> \<exists>q. bm_get (t_peers (task_done n t)) (m_to m) = Some q \<and> peer_addr q = a"
      by (fastforce simp: peers transport_inv_def)
  qed
qed (use assms in \<open>simp add: task_done_def\<close>)

end
