(* ===== verification/Store.thy ===== *)
theory Store
  imports RaftCore WalSpec
begin

text \<open>
  The durable Raft state (\<open>basisdb-node/src/store.rs\<close>): each record of the write-ahead log is a
  delta, the hard state and the changed suffix of the log; recovery replays the deltas.

  The JSON encoding is code of the \<open>serde_json\<close> crate: \<open>encode\<close> and \<open>decode\<close> are parameters, and
  the properties assume that decoding inverts encoding. \<open>None\<close> is the panic of \<open>Log::slice\<close>.
\<close>

section \<open>State and errors\<close>

definition RAFT_STATE_KIND :: u16 where "RAFT_STATE_KIND = 1"

datatype StoreError =
  StoreWal WalError
| StoreEncode
| StoreDecode
| UnexpectedKind u16
| TermRegression u64 u64
| InvalidTruncation LogIndex LogIndex
| NoncontiguousEntry LogIndex LogIndex
| SnapshotUnsupported

record PersistentDelta =
  pd_term :: Term
  pd_voted_for :: "NodeId option"
  pd_bootstrap_config :: Configuration
  pd_truncate_after :: LogIndex
  pd_entries :: "Entry list"

record RaftStore =
  st_wal :: Wal
  st_kind :: RecordKind
  st_durable :: Persistent

text \<open>\<open>?\<close> on a result of the log.\<close>

definition wal_err :: "(WalError + 'a) \<times> 's \<Rightarrow> (StoreError + 'a) \<times> 's" where
  "wal_err r = (map_sum StoreWal id (fst r), snd r)"

section \<open>Deltas\<close>

function prefix_loop :: "Log \<Rightarrow> Log \<Rightarrow> LogIndex \<Rightarrow> LogIndex \<Rightarrow> LogIndex" where
  "prefix_loop dur current floor index =
    (if index > floor \<and> term_at dur index \<noteq> term_at current index
     then prefix_loop dur current floor (index - 1) else index)"
  by pat_completeness auto
termination
  by (relation "measure (\<lambda>(d, c, f, i). unat i)")
     (auto simp: word_less_nat_alt unat_u64_diff word_le_nat_alt)

declare prefix_loop.simps [simp del]

definition common_prefix :: "Persistent \<Rightarrow> Persistent \<Rightarrow> LogIndex" where
  "common_prefix dur current =
    prefix_loop (p_log dur) (p_log current)
      (max (snapshot_index (p_log dur)) (snapshot_index (p_log current)))
      (min (last_index (p_log dur)) (last_index (p_log current)))"

fun append_entries_to :: "Log \<Rightarrow> Entry list \<Rightarrow> StoreError + Log" where
  "append_entries_to l [] = Inr l"
| "append_entries_to l (entry # entries) =
    (let expected = last_index l + 1 in
     if e_index entry \<noteq> expected then Inl (NoncontiguousEntry expected (e_index entry))
     else append_entries_to (log_append l entry) entries)"

definition apply_delta :: "Persistent \<Rightarrow> PersistentDelta \<Rightarrow> StoreError + Persistent" where
  "apply_delta state delta =
    (if pd_term delta < p_term state then Inl (TermRegression (p_term state) (pd_term delta))
     else
       let last = last_index (p_log state) in
       if pd_truncate_after delta > last then Inl (InvalidTruncation (pd_truncate_after delta) last)
       else
         try_bind (append_entries_to (truncate_after (p_log state) (pd_truncate_after delta))
                     (pd_entries delta)) (\<lambda>l.
           Inr (state\<lparr>p_log := l, p_term := pd_term delta, voted_for := pd_voted_for delta,
                      bootstrap_config := pd_bootstrap_config delta\<rparr>)))"

definition delta_of :: "Persistent \<Rightarrow> Persistent \<Rightarrow> PersistentDelta option" where
  "delta_of dur current =
    (let truncate_after = common_prefix dur current in
     map_option (\<lambda>entries.
         \<lparr>pd_term = p_term current, pd_voted_for = voted_for current,
          pd_bootstrap_config = bootstrap_config current,
          pd_truncate_after = truncate_after, pd_entries = entries\<rparr>)
       (log_slice (p_log current) (truncate_after + 1) (last_index (p_log current))))"

section \<open>Saving and recovering\<close>

definition store_save ::
    "(PersistentDelta \<Rightarrow> bytes option) \<Rightarrow> (bytes \<Rightarrow> u32) \<Rightarrow> Persistent \<Rightarrow> RaftStore \<times> World
      \<Rightarrow> ((StoreError + unit) \<times> (RaftStore \<times> World)) option" where
  "store_save encode crc current s =
    (if snapshot_index (p_log current) \<noteq> snapshot_index (p_log (st_durable (fst s)))
     then Some (Inl SnapshotUnsupported, s)
     else
       map_option (\<lambda>delta.
         case encode delta of
           None \<Rightarrow> (Inl StoreEncode, s)
         | Some encoded \<Rightarrow>
             (case wal_append crc (st_kind (fst s)) encoded (st_wal (fst s), snd s) of
                (Inl e, (wal, w)) \<Rightarrow> (Inl (StoreWal e), ((fst s)\<lparr>st_wal := wal\<rparr>, w))
              | (Inr _, (wal, w)) \<Rightarrow>
                  (case wal_sync (wal, w) of
                     (Inl e, (wal, w)) \<Rightarrow> (Inl (StoreWal e), ((fst s)\<lparr>st_wal := wal\<rparr>, w))
                   | (Inr _, (wal, w)) \<Rightarrow>
                       (Inr (), ((fst s)\<lparr>st_wal := wal, st_durable := current\<rparr>, w)))))
         (delta_of (st_durable (fst s)) current))"

text \<open>The body of the loop in \<open>recover\<close>.\<close>

definition recover_record ::
    "(bytes \<Rightarrow> PersistentDelta option) \<Rightarrow> RecordKind \<Rightarrow> Record \<Rightarrow> Persistent \<Rightarrow> StoreError + Persistent" where
  "recover_record decode kind r dur =
    (if rec_kind r \<noteq> kind then Inl (UnexpectedKind (kind_get (rec_kind r)))
     else case decode (rec_payload r) of
            None \<Rightarrow> Inl StoreDecode
          | Some delta \<Rightarrow> apply_delta dur delta)"

definition recover_item ::
    "(bytes \<Rightarrow> PersistentDelta option) \<Rightarrow> RecordKind \<Rightarrow> WalError + StoredRecord \<Rightarrow> Persistent
      \<Rightarrow> StoreError + Persistent" where
  "recover_item decode kind item dur =
    (case item of
       Inl e \<Rightarrow> Inl (StoreWal e)
     | Inr stored \<Rightarrow> recover_record decode kind (sr_record stored) dur)"

definition store_recover ::
    "(bytes \<Rightarrow> PersistentDelta option) \<Rightarrow> (bytes \<Rightarrow> u32) \<Rightarrow> RaftStore \<times> World
      \<Rightarrow> (StoreError + RaftStore) \<times> World" where
  "store_recover decode crc s =
    io_bind (case wal_err (wal_records (st_wal (fst s), snd s)) of (r, (wal, w)) \<Rightarrow> (r, w)) (\<lambda>rs w.
    io_bind (records_for crc (recover_item decode (st_kind (fst s))) rs (st_durable (fst s)) w) (\<lambda>dur w.
      (Inr ((fst s)\<lparr>st_durable := dur\<rparr>), w)))"

definition store_open ::
    "(bytes \<Rightarrow> PersistentDelta option) \<Rightarrow> (bytes \<Rightarrow> u32) \<Rightarrow> Persistent \<Rightarrow> World
      \<Rightarrow> (StoreError + RaftStore) \<times> World" where
  "store_open decode crc initial w =
    io_bind (wal_err (wal_open crc wal_options_default w)) (\<lambda>wal w.
    io_bind (wal_err (record_kind_new RAFT_STATE_KIND, w)) (\<lambda>kind w.
      store_recover decode crc (\<lparr>st_wal = wal, st_kind = kind, st_durable = initial\<rparr>, w)))"

section \<open>Deltas restore the state\<close>

text \<open>Two versions of a node's log: equal terms at an index mean equal entries up to it.\<close>

definition logs_match :: "Log \<Rightarrow> Log \<Rightarrow> bool" where
  "logs_match a b \<longleftrightarrow>
    (\<forall>i x y. log_get a i = Some x \<and> log_get b i = Some y \<and> e_term x = e_term y
      \<longrightarrow> (\<forall>j\<le>i. log_get a j = log_get b j))"

definition same_snapshot :: "Log \<Rightarrow> Log \<Rightarrow> bool" where
  "same_snapshot a b \<longleftrightarrow> snapshot_index a = snapshot_index b \<and> snapshot_term a = snapshot_term b
    \<and> snapshot_config a = snapshot_config b"

lemma prefix_loop_spec:
  assumes "floor \<le> i"
  shows "floor \<le> prefix_loop d c floor i \<and> prefix_loop d c floor i \<le> i
    \<and> (prefix_loop d c floor i = floor
       \<or> term_at d (prefix_loop d c floor i) = term_at c (prefix_loop d c floor i))"
  using assms
proof (induction d c floor i rule: prefix_loop.induct)
  case (1 d c floor i)
  show ?case
  proof (cases "floor < i \<and> term_at d i \<noteq> term_at c i")
    case True
    then have "floor \<le> i - 1" "i - 1 \<le> i" by (auto simp: word_less_nat_alt word_le_nat_alt unat_u64_diff)
    with "1.IH" [OF True] True show ?thesis
      by (auto simp: prefix_loop.simps [of d c floor i])
  next
    case False
    then show ?thesis using "1.prems" by (auto simp: prefix_loop.simps [of d c floor i])
  qed
qed

lemma append_entries_to_ok:
  assumes "wf_log l" "unat (last_index l) + length es < 2 ^ 64"
    and "\<forall>i<length es. unat (e_index (es ! i)) = unat (last_index l) + i + 1"
  shows "append_entries_to l es = Inr (l\<lparr>log_entries := log_entries l @ es\<rparr>)"
  using assms
proof (induction es arbitrary: l)
  case (Cons e es)
  have "unat (last_index l) + 1 < 2 ^ 64" using Cons.prems(2) by simp
  then have max: "last_index l \<noteq> u64_max" by auto
  have "unat (e_index e) = unat (last_index l) + 1" using Cons.prems(3) by force
  then have e: "e_index e = last_index l + 1"
    using unat_u64_Suc [OF max] by (simp add: word_unat_eq_iff)
  have "append_entries_to (log_append l e) es =
      Inr (log_append l e\<lparr>log_entries := log_entries (log_append l e) @ es\<rparr>)"
  proof (rule Cons.IH)
    show "wf_log (log_append l e)" by (rule wf_log_append [OF Cons.prems(1) e max])
    show "unat (last_index (log_append l e)) + length es < 2 ^ 64"
      using Cons.prems(2) e unat_u64_Suc [OF max] by simp
    show "\<forall>i<length es. unat (e_index (es ! i)) = unat (last_index (log_append l e)) + i + 1"
    proof (intro allI impI)
      fix i assume "i < length es"
      with Cons.prems(3) [rule_format, of "Suc i"] show "unat (e_index (es ! i)) = unat (last_index (log_append l e)) + i + 1"
        using e unat_u64_Suc [OF max] by simp
    qed
  qed
  then show ?case using e by (simp add: log_append_def)
qed simp

lemma common_prefix_agrees:
  assumes wf: "wf_log (p_log d)" "wf_log (p_log c)" and snap: "same_snapshot (p_log d) (p_log c)"
    and match: "logs_match (p_log d) (p_log c)"
  defines "k \<equiv> common_prefix d c" and "n \<equiv> unat (common_prefix d c) - unat (snapshot_index (p_log c))"
  shows "snapshot_index (p_log c) \<le> k" "k \<le> last_index (p_log d)" "k \<le> last_index (p_log c)"
    "take n (log_entries (p_log d)) = take n (log_entries (p_log c))"
proof -
  let ?f = "snapshot_index (p_log c)"
  have s: "snapshot_index (p_log d) = ?f" using snap by (simp add: same_snapshot_def)
  have le: "?f \<le> min (last_index (p_log d)) (last_index (p_log c))"
    using snapshot_le_last [OF wf(1)] snapshot_le_last [OF wf(2)] s by simp
  have k: "?f \<le> k" "k \<le> min (last_index (p_log d)) (last_index (p_log c))"
    "k = ?f \<or> term_at (p_log d) k = term_at (p_log c) k"
    using prefix_loop_spec [OF le, of "p_log d" "p_log c"] by (simp_all add: k_def common_prefix_def s)
  then show "?f \<le> k" and kd: "k \<le> last_index (p_log d)" and kc: "k \<le> last_index (p_log c)" by simp_all
  have agree: "log_get (p_log d) j = log_get (p_log c) j" if "j \<le> k" for j
  proof (cases "k = ?f")
    case True
    then show ?thesis using that s by (simp add: log_get_def)
  next
    case False
    with k(1) have "\<not> k \<le> ?f" by (simp add: antisym)
    then obtain x y where x: "log_get (p_log d) k = Some x" "log_get (p_log c) k = Some y"
      using log_get_None_iff [OF wf(1), of k] log_get_None_iff [OF wf(2), of k] s kd kc
      by (metis leD option.exhaust)
    then have "e_term x = e_term y" using k(3) False by (metis term_at_get)
    then show ?thesis using match x that unfolding logs_match_def by blast
  qed
  let ?n = "unat k - unat ?f"
  have len: "?n \<le> length (log_entries (p_log d))" "?n \<le> length (log_entries (p_log c))"
    using kd kc unat_last_index [OF wf(1)] unat_last_index [OF wf(2)] s by (auto simp: word_le_nat_alt)
  have "take ?n (log_entries (p_log d)) = take ?n (log_entries (p_log c))"
  proof (rule nth_equalityI)
    fix i assume "i < length (take ?n (log_entries (p_log d)))"
    then have i: "i < ?n" by simp
    let ?j = "?f + of_nat (Suc i) :: u64"
    have bound: "unat ?f + Suc i \<le> unat k" using i by simp
    then have lt: "unat ?f + Suc i < 2 ^ 64" using unat_u64_lt [of k] by (rule le_less_trans)
    then have "unat (of_nat (Suc i) :: u64) = Suc i" by (intro unat_u64_of_nat) linarith
    then have j: "unat ?j = unat ?f + Suc i" using lt by (subst unat_u64_add) simp_all
    then have "?j \<le> k" using bound by (simp add: word_le_nat_alt)
    with agree [OF this] j len i s show "take ?n (log_entries (p_log d)) ! i = take ?n (log_entries (p_log c)) ! i"
      by (simp add: log_get_eq)
  qed (use len in simp)
  then show "take n (log_entries (p_log d)) = take n (log_entries (p_log c))" by (simp add: n_def k_def)
qed

lemma filter_drop:
  assumes "wf_log l" "snapshot_index l \<le> k" "k \<noteq> u64_max"
  shows "filter (\<lambda>x. k + 1 \<le> e_index x \<and> e_index x \<le> last_index l) (log_entries l) =
    drop (unat k - unat (snapshot_index l)) (log_entries l)"
proof -
  let ?b = "unat (snapshot_index l)" and ?n = "length (log_entries l)"
  have cons: "\<forall>i < ?n. unat (e_index (log_entries l ! i)) = Suc ?b + i"
    using assms(1) by (simp add: wf_log_def)
  have k1: "unat (k + 1) = Suc (unat k)" by (rule unat_u64_Suc [OF assms(3)])
  have b: "?b \<le> unat k" using assms(2) by (simp add: word_le_nat_alt)
  show ?thesis unfolding word_le_nat_alt k1
    using filter_consecutive [OF cons, of "Suc (unat k)" "unat (last_index l)"] b
    by (auto simp: unat_last_index [OF assms(1)] max_def)
qed

lemma delta_restores:
  assumes wf: "wf_log (p_log d)" "wf_log (p_log c)" and snap: "same_snapshot (p_log d) (p_log c)"
    and match: "logs_match (p_log d) (p_log c)" and t: "p_term d \<le> p_term c"
    and max: "last_index (p_log c) \<noteq> u64_max"
  shows "\<exists>delta. delta_of d c = Some delta \<and> apply_delta d delta = Inr c"
proof -
  let ?k = "common_prefix d c" and ?f = "snapshot_index (p_log c)"
  let ?n = "unat ?k - unat ?f" and ?cs = "log_entries (p_log c)"
  note k = common_prefix_agrees [OF wf snap match]
  have kmax: "?k \<noteq> u64_max" using k(3) max by (metis le_u64_max order_antisym)
  have s: "snapshot_index (p_log d) = ?f" "snapshot_term (p_log d) = snapshot_term (p_log c)"
    "snapshot_config (p_log d) = snapshot_config (p_log c)"
    using snap by (simp_all add: same_snapshot_def)
  let ?delta = "\<lparr>pd_term = p_term c, pd_voted_for = voted_for c, pd_bootstrap_config = bootstrap_config c,
      pd_truncate_after = ?k, pd_entries = drop ?n ?cs\<rparr>"
  have delta: "delta_of d c = Some ?delta"
    using log_slice_filter [OF wf(2)] filter_drop [OF wf(2) k(1) kmax] by (simp add: delta_of_def Let_def)
  let ?l = "truncate_after (p_log d) ?k"
  have l: "?l = (p_log d)\<lparr>log_entries := take ?n ?cs\<rparr>"
    using k(4) s(1) by (simp add: truncate_after_eq)
  have wl: "wf_log ?l" using wf(1) by simp
  have "?n \<le> length ?cs" using k(3) unat_last_index [OF wf(2)] by (auto simp: word_le_nat_alt)
  then have last: "unat (last_index ?l) = unat ?f + ?n" using unat_last_index [OF wl] l s(1) by simp
  have bound: "unat ?f + length ?cs < 2 ^ 64" using wf(2) by (simp add: wf_log_def)
  have "append_entries_to ?l (drop ?n ?cs) = Inr (?l\<lparr>log_entries := log_entries ?l @ drop ?n ?cs\<rparr>)"
  proof (rule append_entries_to_ok [OF wl])
    show "unat (last_index ?l) + length (drop ?n ?cs) < 2 ^ 64"
      using last bound \<open>?n \<le> length ?cs\<close> by simp
    show "\<forall>i<length (drop ?n ?cs). unat (e_index (drop ?n ?cs ! i)) = unat (last_index ?l) + i + 1"
      using wf(2) last by (simp add: wf_log_def)
  qed
  moreover have "?l\<lparr>log_entries := log_entries ?l @ drop ?n ?cs\<rparr> = p_log c"
    unfolding l using s by simp
  ultimately have "apply_delta d ?delta = Inr c"
    using t k(2) by (simp add: apply_delta_def Let_def not_less)
  with delta show ?thesis by blast
qed

section \<open>The invariant of the store\<close>

text \<open>An open store has replayed exactly the records of its log, and all of them are durable.\<close>

definition replayed ::
    "(bytes \<Rightarrow> PersistentDelta option) \<Rightarrow> Persistent \<Rightarrow> Record list \<Rightarrow> Persistent \<Rightarrow> bool" where
  "replayed decode initial rs p \<longleftrightarrow>
    run_items (recover_record decode (RecordKind RAFT_STATE_KIND)) rs initial = Inr p"

definition store_inv ::
    "(bytes \<Rightarrow> PersistentDelta option) \<Rightarrow> (bytes \<Rightarrow> u32) \<Rightarrow> Persistent \<Rightarrow> RaftStore \<times> World
      \<Rightarrow> Record list list \<Rightarrow> bool" where
  "store_inv decode crc initial s segs \<longleftrightarrow>
    wal_inv crc (st_wal (fst s), snd s) segs
    \<and> options (st_wal (fst s)) = wal_options_default
    \<and> st_kind (fst s) = RecordKind RAFT_STATE_KIND
    \<and> replayed decode initial (concat segs) (st_durable (fst s))
    \<and> durable crc (snd s) segs (length (last segs))"

text \<open>The current state may follow the durable one: same snapshot, matching logs, later term.\<close>

definition may_follow :: "Persistent \<Rightarrow> Persistent \<Rightarrow> bool" where
  "may_follow d c \<longleftrightarrow> wf_log (p_log d) \<and> wf_log (p_log c) \<and> same_snapshot (p_log d) (p_log c)
    \<and> logs_match (p_log d) (p_log c) \<and> p_term d \<le> p_term c \<and> last_index (p_log c) \<noteq> u64_max"

lemma run_items_records:
  "run_items (recover_item decode kind) (map Inr xs) st =
    run_items (recover_record decode kind) (map sr_record xs) st"
  by (induction xs arbitrary: st) (auto simp: recover_item_def split: sum.splits)

lemma store_recover_quiet:
  assumes "wal_inv crc (st_wal st, w) segs" "quiet w"
  shows "\<exists>w'. io_step w w' \<and> store_recover decode crc (st, w) =
    (case run_items (recover_record decode (st_kind st)) (concat segs) (st_durable st) of
       Inl e \<Rightarrow> (Inl e, w') | Inr p \<Rightarrow> (Inr (st\<lparr>st_durable := p\<rparr>), w'))"
proof -
  let ?ss = "segment_size (options (st_wal st))"
  have d: "wal_disk crc ?ss w segs []" and np: "\<not> poisoned (st_wal st)"
    using assms(1) by (simp_all add: wal_inv_def)
  obtain w1 where w1: "io_step w w1" "segment_ids w = (Inr (map of_nat [0..<length segs]), w1)"
    using wal_disk_ids [OF assms(2) d] by blast
  have d1: "wal_disk crc ?ss w1 segs []" using d wal_disk_io_step [OF w1(1)] by simp
  let ?rs = "\<lparr>rs_segment_size = ?ss, rs_segment_ids = map of_nat [0..<length segs], rs_segment = None, rs_done = False\<rparr>"
  obtain w2 where w2: "io_step w1 w2" "records_for crc (recover_item decode (st_kind st)) ?rs (st_durable st) w1 =
      (run_items (recover_record decode (st_kind st)) (concat segs) (st_durable st), w2)"
    using stream_segments [OF io_step_quiet [OF w1(1) assms(2)] d1, of 0 "recover_item decode (st_kind st)" "st_durable st"]
    by (auto simp: run_items_records sr_record_stored)
  have "wal_records (st_wal st, w) = (Inr ?rs, (st_wal st, w1))"
    using np w1(2) by (simp add: wal_records_def ensure_healthy_def on_world_def)
  with w2 io_step_trans [OF w1(1) w2(1)] show ?thesis
    by (intro exI [of _ w2]) (auto simp: store_recover_def wal_err_def io_bind_def split: sum.splits)
qed

lemma store_open_ok:
  assumes "quiet w" "\<not> w_locked w" "segments_synced w"
    and "wal_bytes crc segs \<le> unat (max_size wal_options_default)"
    and "wal_disk crc (segment_size wal_options_default) w segs t \<or> segs = [[]] \<and> wal_names (w_files w) 0"
    and "replayed decode initial (concat segs) p"
  shows "\<exists>st w'. store_open decode crc initial w = (Inr st, w') \<and> st_durable st = p
    \<and> store_inv decode crc initial (st, w') segs \<and> quiet w'"
proof -
  have v: "validate_options wal_options_default = Inr ()"
    by (simp add: validate_options_def wal_options_default_def HEADER_LEN_U64_def
        DEFAULT_SEGMENT_SIZE_def DEFAULT_MAX_SIZE_def)
  obtain wal w1 where w1: "wal_open crc wal_options_default w = (Inr wal, w1)" "options wal = wal_options_default"
    "wal_inv crc (wal, w1) segs" "quiet w1" "durable crc w1 segs (length (last segs))"
    using wal_open_ok [OF v assms(1,2,4,5)] assms(3) by blast
  let ?kind = "RecordKind RAFT_STATE_KIND"
  let ?st = "\<lparr>st_wal = wal, st_kind = ?kind, st_durable = initial\<rparr>"
  have kind: "record_kind_new RAFT_STATE_KIND = Inr ?kind"
    by (simp add: record_kind_new_def RAFT_STATE_KIND_def)
  have inv: "wal_inv crc (st_wal ?st, w1) segs" using w1(3) by simp
  from store_recover_quiet [OF inv w1(4), of decode] assms(6) obtain w2 where w2: "io_step w1 w2"
    "store_recover decode crc (?st, w1) = (Inr (?st\<lparr>st_durable := p\<rparr>), w2)"
    by (auto simp: replayed_def)
  have "store_open decode crc initial w = (Inr (?st\<lparr>st_durable := p\<rparr>), w2)"
    using w1(1) w2(2) kind by (simp add: store_open_def wal_err_def)
  moreover have "store_inv decode crc initial (?st\<lparr>st_durable := p\<rparr>, w2) segs"
    using w1 assms(6) w2(1) by (simp add: store_inv_def wal_inv_def wal_disk_io_step durable_io_step io_step_frame)
  ultimately show ?thesis using io_step_quiet [OF w2(1) w1(4)] by fastforce
qed

lemma replayed_snoc:
  assumes "\<And>x b. encode x = Some b \<Longrightarrow> decode b = Some x"
    and "replayed decode initial rs d" "delta_of d c = Some delta" "encode delta = Some bs"
    and "apply_delta d delta = Inr c"
  shows "replayed decode initial (rs @ [\<lparr>rec_kind = RecordKind RAFT_STATE_KIND, rec_payload = bs\<rparr>]) c"
  using assms(2,5) assms(1) [OF assms(4)] by (simp add: replayed_def run_items_append recover_record_def)

text \<open>What a save leaves on disk, whatever the file system does.\<close>

lemma store_save_cases:
  assumes codec: "\<And>x b. encode x = Some b \<Longrightarrow> decode b = Some x"
    and inv: "store_inv decode crc initial (st, w) segs" and follow: "may_follow (st_durable st) current"
    and save: "store_save encode crc current (st, w) = Some (res, (st', w'))"
  shows "\<exists>segs' t k. wal_disk crc (segment_size wal_options_default) w' segs' t \<and> crash_safe crc w' segs' t k
    \<and> prefix (concat segs) (synced_records segs' k)
    \<and> (concat segs' = concat segs \<or> (\<exists>r. concat segs' = concat segs @ [r]
          \<and> replayed decode initial (concat segs @ [r]) current))
    \<and> wal_bytes crc segs' \<le> unat (max_size wal_options_default)
    \<and> (res = Inr () \<longrightarrow> store_inv decode crc initial (st', w') segs' \<and> st_durable st' = current
          \<and> replayed decode initial (synced_records segs' k) current)"
proof -
  let ?d = "st_durable st" and ?ss = "segment_size wal_options_default" and ?max = "max_size wal_options_default"
  have w: "wal_inv crc (st_wal st, w) segs" "options (st_wal st) = wal_options_default"
    and k: "st_kind st = RecordKind RAFT_STATE_KIND" and rp: "replayed decode initial (concat segs) ?d"
    and du: "durable crc w segs (length (last segs))"
    using inv by (simp_all add: store_inv_def)
  have ne: "segs \<noteq> []" using w(1) by (simp add: wal_inv_def wal_disk_def)
  note all = synced_records_all [OF ne]
  have snap: "snapshot_index (p_log current) = snapshot_index (p_log ?d)"
    using follow by (simp add: may_follow_def same_snapshot_def)
  obtain delta where delta: "delta_of ?d current = Some delta" "apply_delta ?d delta = Inr current"
    using delta_restores [of ?d current] follow by (auto simp: may_follow_def)
  have stay: "?thesis" if "w' = w" "res \<noteq> Inr ()"
    using that w du durable_crash_safe all
    by (intro exI [of _ segs] exI [of _ "[]"] exI [of _ "length (last segs)"]) (auto simp: wal_inv_def)
  show ?thesis
  proof (cases "encode delta")
    case None
    with save snap delta have "w' = w" "res \<noteq> Inr ()" by (auto simp: store_save_def)
    then show ?thesis by (rule stay)
  next
    case (Some bs)
    let ?r = "\<lparr>rec_kind = st_kind st, rec_payload = bs\<rparr>"
    have new: "replayed decode initial (concat segs @ [?r]) current"
      unfolding k using codec rp delta(1) Some delta(2) by (rule replayed_snoc)
    have kn: "kind_get (st_kind st) \<noteq> 0" by (simp add: k RAFT_STATE_KIND_def)
    from w(1) kn refl [of ?r] show ?thesis
    proof (cases rule: wal_append_cases)
      case (refused e)
      with save snap delta Some have "w' = w" "res \<noteq> Inr ()" by (auto simp: store_save_def)
      then show ?thesis by (rule stay)
    next
      case (failed e wal1 w1 segs' t)
      then have eq: "w' = w1" "res \<noteq> Inr ()" using save snap delta Some by (auto simp: store_save_def)
      obtain k' where "crash_safe crc w1 segs' t k'" "prefix (concat segs) (synced_records segs' k')"
        using failed(6) [OF du] all by auto
      with failed eq w(2) new show ?thesis
        by (intro exI [of _ segs'] exI [of _ t] exI [of _ k']) auto
    next
      case (ok lsn wal1 w1 segs')
      have cat: "concat segs' = concat segs @ [?r]" by (rule appended_concat [OF ne ok(2)])
      have opt: "options wal1 = wal_options_default" using ok(4) w(2) by simp
      obtain k' where k': "durable crc w1 segs' k'" "prefix (concat segs) (synced_records segs' k')"
        using ok(7) [OF du] all by auto
      have ne': "segs' \<noteq> []" using ok(3) by (simp add: wal_inv_def wal_disk_def)
      have b: "wal_bytes crc segs' \<le> unat ?max" using ok(3) opt by (simp add: wal_inv_def)
      from ok(3) show ?thesis
      proof (cases rule: wal_sync_cases)
        case (failed w2 e)
        then have eq: "w' = w2" "res \<noteq> Inr ()" using save snap delta Some ok(1) by (auto simp: store_save_def)
        have "wal_disk crc ?ss w2 segs' []"
          using ok(3) opt wal_disk_io_step [OF failed(2)] by (simp add: wal_inv_def)
        moreover have "crash_safe crc w2 segs' [] k'"
          using k'(1) durable_io_step [OF failed(2)] durable_crash_safe by blast
        ultimately show ?thesis using eq k'(2) cat new b
          by (intro exI [of _ segs'] exI [of _ "[]"] exI [of _ k']) auto
      next
        case (ok w2)
        then have eq: "w' = w2" "st' = st\<lparr>st_wal := wal1, st_durable := current\<rparr>"
          using save snap delta Some \<open>wal_append _ _ _ _ = _\<close> by (auto simp: store_save_def)
        have dur: "durable crc w2 segs' (length (last segs'))" by (rule ok(6) [OF k'(1)])
        have "store_inv decode crc initial (st', w') segs'"
          using ok(2) opt k new cat dur eq by (simp add: store_inv_def)
        moreover have "wal_disk crc ?ss w2 segs' []" using ok(2) opt by (simp add: wal_inv_def)
        ultimately show ?thesis
          using eq dur durable_crash_safe cat new b synced_records_all [OF ne']
          by (intro exI [of _ segs'] exI [of _ "[]"] exI [of _ "length (last segs')"]) auto
      qed
    qed
  qed
qed

lemma append_entries_to_wf:
  assumes "wf_log l" "append_entries_to l es = Inr l'" "unat (last_index l) + length es < 2 ^ 64"
  shows "wf_log l' \<and> l' = l\<lparr>log_entries := log_entries l @ es\<rparr>"
  using assms
proof (induction es arbitrary: l)
  case (Cons e es)
  have max: "last_index l \<noteq> u64_max" using Cons.prems(3) by auto
  have e: "e_index e = last_index l + 1" using Cons.prems(2) by (auto simp: Let_def split: if_splits)
  have *: "wf_log l' \<and> l' = log_append l e\<lparr>log_entries := log_entries (log_append l e) @ es\<rparr>"
    using Cons.prems(2,3) e unat_u64_Suc [OF max] wf_log_append [OF Cons.prems(1) e max]
    by (intro Cons.IH) (auto simp: Let_def)
  show ?case using conjunct1 [OF *] conjunct2 [OF *] by (intro conjI) (assumption, simp add: log_append_def)
qed simp

lemma prefix_between:
  "prefix xs ys \<Longrightarrow> prefix ys zs \<Longrightarrow> zs = xs \<or> (\<exists>r. zs = xs @ [r]) \<Longrightarrow> ys = xs \<or> ys = zs"
  by (auto simp: prefix_snoc intro: prefix_order.antisym)

lemma save_crash_open:
  assumes "\<And>x b. encode x = Some b \<Longrightarrow> decode b = Some x"
    and "store_inv decode crc initial (st, w) segs" and "may_follow (st_durable st) current"
    and "store_save encode crc current (st, w) = Some (res, (st', w'))" and "crash w' w''"
  shows "\<exists>new w3 segs3. store_open decode crc initial w'' = (Inr new, w3)
    \<and> store_inv decode crc initial (new, w3) segs3
    \<and> (st_durable new = st_durable st \<or> st_durable new = current)
    \<and> (res = Inr () \<longrightarrow> st_durable new = current \<and> st_durable st' = current)"
proof -
  obtain segs' t k where s: "wal_disk crc (segment_size wal_options_default) w' segs' t" "crash_safe crc w' segs' t k"
    "prefix (concat segs) (synced_records segs' k)"
    "concat segs' = concat segs \<or> (\<exists>r. concat segs' = concat segs @ [r]
          \<and> replayed decode initial (concat segs @ [r]) current)"
    "wal_bytes crc segs' \<le> unat (max_size wal_options_default)"
    "res = Inr () \<longrightarrow> st_durable st' = current \<and> replayed decode initial (synced_records segs' k) current"
    using store_save_cases [OF assms(1-4)] by blast
  obtain segs3 t3 where d: "wal_disk crc (segment_size wal_options_default) w'' segs3 t3"
    "prefix (synced_records segs' k) (concat segs3)" "prefix (concat segs3) (concat segs')"
    "wal_bytes crc segs3 \<le> wal_bytes crc segs'" using crash_disk [OF s(1,2) assms(5)] by blast
  have old: "replayed decode initial (concat segs) (st_durable st)" using assms(2) by (simp add: store_inv_def)
  have "prefix (concat segs) (concat segs3)" using s(3) d(2) prefix_order.trans by blast
  then have cases: "concat segs3 = concat segs \<or> concat segs3 = concat segs'"
    using prefix_between d(3) s(4) by blast
  obtain p where p: "replayed decode initial (concat segs3) p" "p = st_durable st \<or> p = current"
    "res = Inr () \<longrightarrow> p = current"
  proof (cases "res = Inr ()")
    case True
    then have r: "replayed decode initial (synced_records segs' k) current" using s(6) by blast
    have "prefix (synced_records segs' k) (concat segs')" using d(2,3) prefix_order.trans by blast
    then have "synced_records segs' k = concat segs3 \<or> synced_records segs' k = concat segs"
      using prefix_between [OF s(3)] s(4) d(2,3) prefix_order.antisym by metis
    then show thesis
    proof
      assume "synced_records segs' k = concat segs3"
      with r show thesis by (intro that [of current]) simp_all
    next
      assume a: "synced_records segs' k = concat segs"
      then have "st_durable st = current" using r old by (simp add: replayed_def)
      with cases s(4) old show thesis by (intro that [of current]) auto
    qed
  next
    case False
    with cases s(4) old show thesis using that by metis
  qed
  have "quiet w''" "\<not> w_locked w''" using assms(5) by (simp_all add: crash_def)
  from store_open_ok [OF this crash_segments_synced [OF assms(5)] _ disjI1 [OF d(1)] p(1)] d(4) s(5)
  obtain new w3 where "store_open decode crc initial w'' = (Inr new, w3)" "st_durable new = p"
    "store_inv decode crc initial (new, w3) segs3" by (meson le_trans)
  with p(2,3) s(6) show ?thesis by blast
qed

text \<open>A crash while the store is idle loses nothing.\<close>

lemma idle_crash_open:
  assumes "store_inv decode crc initial (st, w) segs" "crash w w'"
  shows "\<exists>new w3 segs3. store_open decode crc initial w' = (Inr new, w3)
    \<and> store_inv decode crc initial (new, w3) segs3 \<and> st_durable new = st_durable st"
proof -
  have w: "wal_inv crc (st_wal st, w) segs" "options (st_wal st) = wal_options_default"
    and rp: "replayed decode initial (concat segs) (st_durable st)"
    and du: "durable crc w segs (length (last segs))"
    using assms(1) by (simp_all add: store_inv_def)
  have disk: "wal_disk crc (segment_size wal_options_default) w segs []" "segs \<noteq> []"
    "wal_bytes crc segs \<le> unat (max_size wal_options_default)"
    using w by (simp_all add: wal_inv_def wal_disk_def)
  obtain segs3 t3 where d: "wal_disk crc (segment_size wal_options_default) w' segs3 t3"
    "prefix (concat segs) (concat segs3)" "prefix (concat segs3) (concat segs)"
    "wal_bytes crc segs3 \<le> wal_bytes crc segs"
    using crash_disk [OF disk(1) durable_crash_safe [OF du] assms(2)] synced_records_all [OF disk(2)] by auto
  then have "concat segs3 = concat segs" using prefix_order.antisym by blast
  with rp have "replayed decode initial (concat segs3) (st_durable st)" by simp
  moreover have "quiet w'" "\<not> w_locked w'" using assms(2) by (simp_all add: crash_def)
  ultimately show ?thesis
    using store_open_ok [OF _ _ crash_segments_synced [OF assms(2)] _ disjI1 [OF d(1)]] d(4) disk(3)
    by (meson le_trans)
qed

section \<open>Properties\<close>

text \<open>C3. Nothing a save acknowledged is lost: on a store that has replayed its log, save a state
  that may follow the durable one, with any of the file-system calls failing, and crash. The store
  opens again, from the same initial state, and holds either the state from before the save or the
  saved one, and certainly the saved one when the save had returned successfully.\<close>

theorem save_survives_crash:
  assumes "\<And>x b. encode x = Some b \<Longrightarrow> decode b = Some x"
    and "store_inv decode crc initial (st, w) segs" and "may_follow (st_durable st) current"
    and "store_save encode crc current (st, w) = Some (res, (st', w'))" and "crash w' w''"
  shows "\<exists>new w3 segs3. store_open decode crc initial w'' = (Inr new, w3)
    \<and> store_inv decode crc initial (new, w3) segs3
    \<and> (st_durable new = st_durable st \<or> st_durable new = current)
    \<and> (res = Inr () \<longrightarrow> st_durable new = current \<and> st_durable st' = current)"
  using assms by (rule save_crash_open)

text \<open>C27. A delta carries enough: applying the delta that \<open>save\<close> computes for a state that may
  follow the durable one gives back that state exactly, hard state and log; computing it does not
  panic, and its entries are only those after the common prefix of the two logs.\<close>

theorem delta_roundtrip:
  assumes "may_follow d c"
  shows "\<exists>delta. delta_of d c = Some delta \<and> apply_delta d delta = Inr c
    \<and> (\<forall>e \<in> set (pd_entries delta). common_prefix d c < e_index e)"
proof -
  from assms have a: "wf_log (p_log d)" "wf_log (p_log c)" "same_snapshot (p_log d) (p_log c)"
    "logs_match (p_log d) (p_log c)" "p_term d \<le> p_term c" "last_index (p_log c) \<noteq> u64_max"
    by (simp_all add: may_follow_def)
  obtain delta where d: "delta_of d c = Some delta" "apply_delta d delta = Inr c"
    using delta_restores [OF a] by blast
  have "common_prefix d c \<noteq> u64_max"
    using common_prefix_agrees(3) [OF a(1-4)] a(6) by (metis le_u64_max order_antisym)
  then have "\<forall>e \<in> set (pd_entries delta). common_prefix d c < e_index e"
    using d(1) log_slice_filter [OF a(2)] u64_Suc_le_iff by (auto simp: delta_of_def Let_def)
  with d show ?thesis by blast
qed

text \<open>C33. Recovery never builds a bad state, whatever delta it reads: if a delta is accepted, the
  term has not gone back, the log is still contiguous from its snapshot, nothing up to the
  truncation point has changed, and the delta's entries follow it.\<close>

theorem apply_delta_safe:
  assumes "wf_log (p_log s)" and "apply_delta s delta = Inr s'"
    and "unat (last_index (p_log s)) + length (pd_entries delta) < 2 ^ 64"
  shows "p_term s \<le> p_term s' \<and> wf_log (p_log s') \<and> pd_truncate_after delta \<le> last_index (p_log s)
    \<and> log_entries (p_log s') =
        log_entries (truncate_after (p_log s) (pd_truncate_after delta)) @ pd_entries delta
    \<and> same_snapshot (p_log s) (p_log s')"
proof -
  let ?l = "truncate_after (p_log s) (pd_truncate_after delta)"
  from assms(2) obtain l where l: "append_entries_to ?l (pd_entries delta) = Inr l"
    "s' = s\<lparr>p_log := l, p_term := pd_term delta, voted_for := pd_voted_for delta,
       bootstrap_config := pd_bootstrap_config delta\<rparr>" "p_term s \<le> pd_term delta"
    "pd_truncate_after delta \<le> last_index (p_log s)"
    by (auto simp: apply_delta_def Let_def try_bind_def not_less split: if_splits sum.splits)
  have wl: "wf_log ?l" using assms(1) by simp
  have "unat (last_index ?l) \<le> unat (last_index (p_log s))"
    using unat_last_index [OF wl] unat_last_index [OF assms(1)] by (simp add: truncate_after_eq)
  with assms(3) have "unat (last_index ?l) + length (pd_entries delta) < 2 ^ 64" by linarith
  note a = append_entries_to_wf [OF wl l(1) this]
  have "p_log s' = l" "p_term s' = pd_term delta" using l(2) by simp_all
  with conjunct1 [OF a] have "wf_log (p_log s')" by simp
  then show ?thesis using conjunct2 [OF a] l(2-4) by (intro conjI) (simp_all add: same_snapshot_def)
qed

section \<open>Witnesses\<close>

definition voted :: Persistent where
  "voted = persistent_default\<lparr>p_term := 1, voted_for := Some (NodeId 1)\<rparr>"

definition vote_delta :: PersistentDelta where
  "vote_delta = \<lparr>pd_term = 1, pd_voted_for = Some (NodeId 1), pd_bootstrap_config = default_configuration,
     pd_truncate_after = 0, pd_entries = []\<rparr>"

definition one_code :: "PersistentDelta \<Rightarrow> bytes option" where
  "one_code d = (if d = vote_delta then Some [1] else None)"

definition one_decode :: "bytes \<Rightarrow> PersistentDelta option" where
  "one_decode b = (if b = [1] then Some vote_delta else None)"

lemma voted_follows: "may_follow persistent_default voted"
  by (simp add: may_follow_def voted_def persistent_default_def same_snapshot_def logs_match_def
      last_index_def default_log_def wf_log_def u64_max_def)

lemma voted_delta: "delta_of persistent_default voted = Some vote_delta"
  by (simp add: delta_of_def Let_def common_prefix_def prefix_loop.simps voted_def persistent_default_def
      default_log_def last_index_def log_slice_def vote_delta_def)

theorem delta_roundtrip_witness:
  "apply_delta persistent_default vote_delta = Inr voted"
  using delta_roundtrip [OF voted_follows] voted_delta by auto

theorem apply_delta_safe_witness:
  "p_term persistent_default \<le> p_term voted \<and> wf_log (p_log voted)"
proof -
  have "apply_delta persistent_default vote_delta = Inr voted"
    using delta_restores [of persistent_default voted] voted_follows voted_delta by (auto simp: may_follow_def)
  then show ?thesis using apply_delta_safe [of persistent_default vote_delta voted] voted_follows
    by (simp add: may_follow_def vote_delta_def)
qed

theorem save_survives_crash_witness:
  "\<exists>st w st' w' w'' new w3. store_open one_decode no_crc persistent_default empty_world = (Inr st, w)
    \<and> store_save one_code no_crc voted (st, w) = Some (Inr (), (st', w')) \<and> crash w' w''
    \<and> store_open one_decode no_crc persistent_default w'' = (Inr new, w3) \<and> st_durable new = voted"
proof -
  let ?segs = "[[]] :: Record list list" and ?i = persistent_default
  have "replayed one_decode ?i (concat ?segs) ?i" by (simp add: replayed_def)
  with store_open_ok [OF empty_world_ok(1-3), of no_crc ?segs "[]" one_decode ?i ?i] empty_world_ok(4)
  obtain st w where o: "store_open one_decode no_crc ?i empty_world = (Inr st, w)" "st_durable st = ?i"
    "store_inv one_decode no_crc ?i (st, w) ?segs" "quiet w" by auto
  have wi: "wal_inv no_crc (st_wal st, w) ?segs" "options (st_wal st) = wal_options_default"
    and kd: "st_kind st = RecordKind 1" using o(3) by (simp_all add: store_inv_def RAFT_STATE_KIND_def)
  have size: "size_ok (st_wal st) ?segs no_crc [1]"
    by (simp add: size_ok_def wi(2) wal_options_default_def DEFAULT_MAX_SIZE_def DEFAULT_SEGMENT_SIZE_def fits_u32_def)
  have kn: "kind_get (RecordKind 1) \<noteq> 0" by simp
  from wi(1) kn refl [of "\<lparr>rec_kind = RecordKind 1, rec_payload = [1]\<rparr>"] obtain lsn wal1 w1 segs1 where
    a: "wal_append no_crc (RecordKind 1) [1] (st_wal st, w) = (Inr lsn, (wal1, w1))"
      "wal_inv no_crc (wal1, w1) segs1" "quiet w1"
  proof (cases rule: wal_append_cases)
    case (ok lsn wal1 w1 segs1)
    with o(4) show ?thesis using that by blast
  qed (use size o(4) in simp_all)
  from a(2) obtain w2 where b: "wal_sync (wal1, w1) = (Inr (), (wal1, w2))"
  proof (cases rule: wal_sync_cases)
    case (ok w2)
    then show ?thesis using that by blast
  qed (use a(3) in simp)
  have save: "store_save one_code no_crc voted (st, w) =
      Some (Inr (), (st\<lparr>st_wal := wal1, st_durable := voted\<rparr>, w2))" (is "_ = Some (_, (?st, _))")
    using a(1) b kd voted_delta o(2) voted_follows
    by (simp add: store_save_def one_code_def may_follow_def same_snapshot_def)
  have follow: "may_follow (st_durable st) voted" using o(2) voted_follows by simp
  have codec: "\<And>x b. one_code x = Some b \<Longrightarrow> one_decode b = Some x"
    by (auto simp: one_code_def one_decode_def split: if_splits)
  obtain segs' t k where "wal_disk no_crc (segment_size wal_options_default) w2 segs' t" "crash_safe no_crc w2 segs' t k"
    using store_save_cases [OF codec o(3) follow save] by blast
  then obtain w'' where c: "crash w2 w''" using crash_exists unfolding crash_safe_def by blast
  from save_survives_crash [OF codec o(3) follow save c] obtain new w3 where
    "store_open one_decode no_crc ?i w'' = (Inr new, w3)" "st_durable new = voted" by blast
  with o(1) save c show ?thesis by blast
qed

end
