(* ===== verification/Kv.thy ===== *)
theory Kv
  imports Text Collections
begin

text \<open>
  The replicated key-value state machine (\<open>basisdb-node/src/command.rs\<close>). Every node applies
  the committed commands in log order to a \<open>KvState\<close>; a mutation carries the client's id and
  sequence number, and the session of the client caches the last request and its result, so
  that a retried command is answered without being applied again.

  An operation takes the state and returns it with a result; \<open>Inl\<close> is the error sent to the
  client. \<open>HashMap\<close> is a partial map and \<open>BTreeMap\<close> the ordered map of \<open>Collections\<close>.
\<close>

section \<open>Errors and messages\<close>

text \<open>\<open>ConnectError\<close> is a status code with a message.\<close>

datatype ConnectCode =
  InvalidArgument | ResourceExhausted | FailedPrecondition | Aborted | Internal | NotFound
| Unavailable

datatype ConnectError = ConnectError (ce_code: ConnectCode) (ce_message: string)

text \<open>The response messages of \<open>basisdb-proto\<close>.\<close>

record RegisterSessionResponse =
  rs_client_id :: u64

record PutResponse =
  pu_namespace :: string
  pu_key :: string
  pu_etag :: string
  pu_generation :: u64
  pu_size :: u64

record DeleteResponse =
  dl_namespace :: string
  dl_key :: string
  dl_etag :: string
  dl_generation :: u64
  dl_deleted :: bool

section \<open>Data\<close>

definition MAX_VALUE_BYTES :: nat where "MAX_VALUE_BYTES = 65536"
definition MAX_NAMESPACE_BYTES :: nat where "MAX_NAMESPACE_BYTES = 255"
definition MAX_KEY_BYTES :: nat where "MAX_KEY_BYTES = 1024"
definition MAX_ETAG_BYTES :: nat where "MAX_ETAG_BYTES = 128"

datatype KvCommand =
  RegisterSession
| ReadBarrier
| Put (c_client: u64) (c_sequence: u64) (c_namespace: string) (c_key: string) (c_body: bytes)
    (c_if_match: string) (c_if_none_match: bool)
| Delete (c_client: u64) (c_sequence: u64) (c_namespace: string) (c_key: string)
    (c_if_match: string)

datatype KvApplyResult =
  AppliedRegister RegisterSessionResponse
| AppliedPut PutResponse
| AppliedDelete DeleteResponse
| AppliedReadBarrier

datatype KvName = KvName (name_namespace: string) (name_key: string)

record KvRecord =
  kr_body :: bytes
  kr_etag :: string
  kr_generation :: u64

datatype MutationRequest =
  PutRequest KvName bytes string bool
| DeleteRequest KvName string

datatype MutationRejection = KeyExists | EtagMismatch | GenerationExhausted

datatype MutationResult =
  PutDone PutResponse
| DeleteDone DeleteResponse
| Rejected MutationRejection

record SessionState =
  ss_sequence :: u64
  ss_request :: "MutationRequest option"
  ss_result :: "MutationResult option"

text \<open>The derived order of \<open>KvName\<close>: by namespace, then by key.\<close>

instantiation KvName :: linorder
begin

definition less_eq_KvName :: "KvName \<Rightarrow> KvName \<Rightarrow> bool" where
  "less_eq_KvName a b \<longleftrightarrow>
    name_namespace a < name_namespace b
    \<or> name_namespace a = name_namespace b \<and> name_key a \<le> name_key b"

definition less_KvName :: "KvName \<Rightarrow> KvName \<Rightarrow> bool" where
  "less_KvName a b \<longleftrightarrow>
    name_namespace a < name_namespace b
    \<or> name_namespace a = name_namespace b \<and> name_key a < name_key b"

instance
  by standard (auto simp: less_eq_KvName_def less_KvName_def KvName.expand)

end

record KvState =
  next_client_id :: u64
  next_generation :: u64
  kv_entries :: "(KvName, KvRecord) btreemap"
  kv_sessions :: "u64 \<rightharpoonup> SessionState"

definition session_default :: SessionState where
  "session_default = \<lparr>ss_sequence = 0, ss_request = None, ss_result = None\<rparr>"

definition kv_new :: KvState where
  "kv_new = \<lparr>next_client_id = 1, next_generation = 1, kv_entries = bm_empty,
             kv_sessions = Map.empty\<rparr>"

section \<open>Validation\<close>

definition kv_name_new :: "string \<Rightarrow> string \<Rightarrow> ConnectError + KvName" where
  "kv_name_new namespace key =
    (if namespace = [] then Inl (ConnectError InvalidArgument ''namespace must not be empty'')
     else if length namespace > MAX_NAMESPACE_BYTES
     then Inl (ConnectError InvalidArgument ''namespace exceeds 255-byte limit'')
     else if key = [] then Inl (ConnectError InvalidArgument ''key must not be empty'')
     else if length key > MAX_KEY_BYTES
     then Inl (ConnectError InvalidArgument ''key exceeds 1024-byte limit'')
     else Inr (KvName namespace key))"

definition validate_mutation_request :: "u64 \<Rightarrow> u64 \<Rightarrow> ConnectError + unit" where
  "validate_mutation_request client_id sequence =
    (if client_id = 0 then Inl (ConnectError InvalidArgument ''client_id must be registered'')
     else if sequence = 0 then Inl (ConnectError InvalidArgument ''sequence must be positive'')
     else Inr ())"

definition validate_etag :: "string \<Rightarrow> ConnectError + unit" where
  "validate_etag etag =
    (if length etag > MAX_ETAG_BYTES
     then Inl (ConnectError InvalidArgument ''ETag exceeds 128-byte limit'') else Inr ())"

definition validate_put_preconditions :: "string \<Rightarrow> bool \<Rightarrow> ConnectError + unit" where
  "validate_put_preconditions if_match if_none_match =
    try_bind (validate_etag if_match) (\<lambda>_.
      if if_match \<noteq> [] \<and> if_none_match
      then Inl (ConnectError InvalidArgument ''if_match and if_none_match are mutually exclusive'')
      else Inr ())"

definition validate_value :: "bytes \<Rightarrow> ConnectError + unit" where
  "validate_value body =
    (if length body > MAX_VALUE_BYTES
     then Inl (ConnectError ResourceExhausted ''value exceeds 65536-byte limit'') else Inr ())"

definition body_len :: "bytes \<Rightarrow> ConnectError + u64" where
  "body_len body =
    (if fits_u64 (length body) then Inr (of_nat (length body))
     else Inl (ConnectError ResourceExhausted ''value too large''))"

definition etag_for :: "u64 \<Rightarrow> string" where
  "etag_for generation = [CHR 0x22] @ ''c9-'' @ show_u64 generation @ [CHR 0x22]"

definition check_put_preconditions ::
    "KvRecord option \<Rightarrow> string \<Rightarrow> bool \<Rightarrow> MutationRejection + unit" where
  "check_put_preconditions current if_match if_none_match =
    (if if_none_match \<and> current \<noteq> None then Inl KeyExists
     else if if_match \<noteq> [] then
       (case current of
          Some r \<Rightarrow> if kr_etag r = if_match then Inr () else Inl EtagMismatch
        | None \<Rightarrow> Inl EtagMismatch)
     else Inr ())"

section \<open>Sessions\<close>

fun connect_error :: "MutationRejection \<Rightarrow> ConnectError" where
  "connect_error KeyExists = ConnectError FailedPrecondition ''key already exists''"
| "connect_error EtagMismatch = ConnectError FailedPrecondition ''ETag precondition failed''"
| "connect_error GenerationExhausted =
    ConnectError ResourceExhausted ''kv generation space exhausted''"

definition session_record ::
    "SessionState \<Rightarrow> u64 \<Rightarrow> MutationRequest \<Rightarrow> MutationResult \<Rightarrow> SessionState" where
  "session_record s sequence request result =
    s\<lparr>ss_sequence := sequence, ss_request := Some request, ss_result := Some result\<rparr>"

definition session :: "KvState \<Rightarrow> u64 \<Rightarrow> ConnectError + SessionState" where
  "session st client_id =
    (case kv_sessions st client_id of
       Some s \<Rightarrow> Inr s
     | None \<Rightarrow> Inl (ConnectError InvalidArgument ''unknown client session''))"

text \<open>\<open>self.session_mut(client_id)?.record(sequence, request, result)\<close>\<close>

definition record_session ::
    "KvState \<Rightarrow> u64 \<Rightarrow> u64 \<Rightarrow> MutationRequest \<Rightarrow> MutationResult \<Rightarrow> ConnectError + KvState" where
  "record_session st client_id sequence request result =
    try_bind (session st client_id) (\<lambda>s.
      Inr (st\<lparr>kv_sessions := (kv_sessions st)
                (client_id \<mapsto> session_record s sequence request result)\<rparr>))"

definition cached_mutation ::
    "SessionState \<Rightarrow> u64 \<Rightarrow> MutationRequest \<Rightarrow> ConnectError + MutationResult option" where
  "cached_mutation s sequence request =
    (if sequence < ss_sequence s then Inl (ConnectError Aborted ''stale client sequence'')
     else if sequence > ss_sequence s then Inr None
     else case (ss_request s, ss_result s) of
            (Some cached, Some result) \<Rightarrow>
              if cached = request then Inr (Some result)
              else Inl (ConnectError Aborted ''sequence reused for different request'')
          | (None, None) \<Rightarrow> Inl (ConnectError Internal ''session cache is incomplete'')
          | _ \<Rightarrow> Inl (ConnectError Internal ''session cache is inconsistent''))"

definition cached_put ::
    "KvState \<Rightarrow> u64 \<Rightarrow> u64 \<Rightarrow> MutationRequest \<Rightarrow> ConnectError + PutResponse option" where
  "cached_put st client_id sequence request =
    try_bind (session st client_id) (\<lambda>s.
    try_bind (cached_mutation s sequence request) (\<lambda>hit.
      case hit of
        Some (PutDone response) \<Rightarrow> Inr (Some response)
      | Some (Rejected rejection) \<Rightarrow> Inl (connect_error rejection)
      | Some (DeleteDone _) \<Rightarrow> Inl (ConnectError Internal ''session result mismatch'')
      | None \<Rightarrow> Inr None))"

definition cached_delete ::
    "KvState \<Rightarrow> u64 \<Rightarrow> u64 \<Rightarrow> MutationRequest \<Rightarrow> ConnectError + DeleteResponse option" where
  "cached_delete st client_id sequence request =
    try_bind (session st client_id) (\<lambda>s.
    try_bind (cached_mutation s sequence request) (\<lambda>hit.
      case hit of
        Some (DeleteDone response) \<Rightarrow> Inr (Some response)
      | Some (Rejected rejection) \<Rightarrow> Inl (connect_error rejection)
      | Some (PutDone _) \<Rightarrow> Inl (ConnectError Internal ''session result mismatch'')
      | None \<Rightarrow> Inr None))"

section \<open>Applying commands\<close>

definition alloc_client_id :: "KvState \<Rightarrow> KvState \<times> (ConnectError + u64)" where
  "alloc_client_id st =
    (let client_id = next_client_id st in
     case checked_add (next_client_id st) 1 of
       None \<Rightarrow> (st, Inl (ConnectError ResourceExhausted ''client id space exhausted''))
     | Some n \<Rightarrow>
         (st\<lparr>next_client_id := n,
            kv_sessions := (kv_sessions st)(client_id \<mapsto> session_default)\<rparr>, Inr client_id))"

definition alloc_generation :: "KvState \<Rightarrow> KvState \<times> (MutationRejection + u64)" where
  "alloc_generation st =
    (let generation = next_generation st in
     case checked_add (next_generation st) 1 of
       None \<Rightarrow> (st, Inl GenerationExhausted)
     | Some n \<Rightarrow> (st\<lparr>next_generation := n\<rparr>, Inr generation))"

definition reject ::
    "KvState \<Rightarrow> u64 \<Rightarrow> u64 \<Rightarrow> MutationRequest \<Rightarrow> MutationRejection
      \<Rightarrow> KvState \<times> (ConnectError + KvApplyResult)" where
  "reject st client_id sequence request rejection =
    (case record_session st client_id sequence request (Rejected rejection) of
       Inl e \<Rightarrow> (st, Inl e)
     | Inr st \<Rightarrow> (st, Inl (connect_error rejection)))"

definition finish ::
    "KvState \<Rightarrow> u64 \<Rightarrow> u64 \<Rightarrow> MutationRequest \<Rightarrow> MutationResult \<Rightarrow> KvApplyResult
      \<Rightarrow> KvState \<times> (ConnectError + KvApplyResult)" where
  "finish st client_id sequence request result reply =
    (case record_session st client_id sequence request result of
       Inl e \<Rightarrow> (st, Inl e)
     | Inr st \<Rightarrow> (st, Inr reply))"

definition store_value ::
    "KvState \<Rightarrow> u64 \<Rightarrow> u64 \<Rightarrow> MutationRequest \<Rightarrow> KvName \<Rightarrow> bytes \<Rightarrow> u64
      \<Rightarrow> KvState \<times> (ConnectError + KvApplyResult)" where
  "store_value st client_id sequence request name body sz =
    (case alloc_generation st of
       (st, Inl rejection) \<Rightarrow> reject st client_id sequence request rejection
     | (st, Inr generation) \<Rightarrow>
         let etag = etag_for generation;
             response = \<lparr>pu_namespace = name_namespace name, pu_key = name_key name,
                         pu_etag = etag, pu_generation = generation, pu_size = sz\<rparr>;
             st = st\<lparr>kv_entries := bm_insert name
                    \<lparr>kr_body = body, kr_etag = etag, kr_generation = generation\<rparr>
                    (kv_entries st)\<rparr>
         in finish st client_id sequence request (PutDone response) (AppliedPut response))"

definition apply_put ::
    "KvState \<Rightarrow> u64 \<Rightarrow> u64 \<Rightarrow> string \<Rightarrow> string \<Rightarrow> bytes \<Rightarrow> string \<Rightarrow> bool
      \<Rightarrow> KvState \<times> (ConnectError + KvApplyResult)" where
  "apply_put st client_id sequence namespace key body if_match if_none_match =
    (case try_bind (validate_mutation_request client_id sequence) (\<lambda>_.
          try_bind (validate_put_preconditions if_match if_none_match) (\<lambda>_.
          try_bind (validate_value body) (\<lambda>_. kv_name_new namespace key))) of
       Inl e \<Rightarrow> (st, Inl e)
     | Inr name \<Rightarrow>
         let request = PutRequest name body if_match if_none_match in
         (case cached_put st client_id sequence request of
            Inl e \<Rightarrow> (st, Inl e)
          | Inr (Some response) \<Rightarrow> (st, Inr (AppliedPut response))
          | Inr None \<Rightarrow>
              (case check_put_preconditions (bm_get (kv_entries st) name) if_match if_none_match of
                 Inl rejection \<Rightarrow> reject st client_id sequence request rejection
               | Inr _ \<Rightarrow>
                   (case body_len body of
                      Inl e \<Rightarrow> (st, Inl e)
                    | Inr sz \<Rightarrow>
                        store_value st client_id sequence request name body sz))))"

definition delete_response :: "KvName \<Rightarrow> KvRecord option \<Rightarrow> DeleteResponse" where
  "delete_response name removed =
    (case removed of
       Some r \<Rightarrow> \<lparr>dl_namespace = name_namespace name, dl_key = name_key name,
                  dl_etag = kr_etag r, dl_generation = kr_generation r, dl_deleted = True\<rparr>
     | None \<Rightarrow> \<lparr>dl_namespace = name_namespace name, dl_key = name_key name,
                dl_etag = [], dl_generation = 0, dl_deleted = False\<rparr>)"

definition apply_delete ::
    "KvState \<Rightarrow> u64 \<Rightarrow> u64 \<Rightarrow> string \<Rightarrow> string \<Rightarrow> string
      \<Rightarrow> KvState \<times> (ConnectError + KvApplyResult)" where
  "apply_delete st client_id sequence namespace key if_match =
    (case try_bind (validate_mutation_request client_id sequence) (\<lambda>_.
          try_bind (validate_etag if_match) (\<lambda>_. kv_name_new namespace key)) of
       Inl e \<Rightarrow> (st, Inl e)
     | Inr name \<Rightarrow>
         let request = DeleteRequest name if_match in
         (case cached_delete st client_id sequence request of
            Inl e \<Rightarrow> (st, Inl e)
          | Inr (Some response) \<Rightarrow> (st, Inr (AppliedDelete response))
          | Inr None \<Rightarrow>
              let current = bm_get (kv_entries st) name in
              if if_match \<noteq> []
                 \<and> (case current of None \<Rightarrow> True | Some r \<Rightarrow> if_match \<noteq> kr_etag r)
              then reject st client_id sequence request EtagMismatch
              else
                let response = delete_response name current;
                    st = st\<lparr>kv_entries := bm_remove name (kv_entries st)\<rparr>
                in finish st client_id sequence request (DeleteDone response)
                     (AppliedDelete response)))"

definition kv_apply :: "KvState \<Rightarrow> KvCommand \<Rightarrow> KvState \<times> (ConnectError + KvApplyResult)" where
  "kv_apply st command =
    (case command of
       RegisterSession \<Rightarrow>
         (case alloc_client_id st of
            (st, Inl e) \<Rightarrow> (st, Inl e)
          | (st, Inr client_id) \<Rightarrow> (st, Inr (AppliedRegister \<lparr>rs_client_id = client_id\<rparr>)))
     | ReadBarrier \<Rightarrow> (st, Inr AppliedReadBarrier)
     | Put client_id sequence namespace key body if_match if_none_match \<Rightarrow>
         apply_put st client_id sequence namespace key body if_match if_none_match
     | Delete client_id sequence namespace key if_match \<Rightarrow>
         apply_delete st client_id sequence namespace key if_match)"

definition key_not_found :: ConnectError where
  "key_not_found = ConnectError NotFound ''key not found''"

text \<open>The state after a sequence of commands, as \<open>apply_committed\<close> applies them.\<close>

definition kv_run :: "KvState \<Rightarrow> KvCommand list \<Rightarrow> KvState" where
  "kv_run st cmds = foldl (\<lambda>st c. fst (kv_apply st c)) st cmds"

section \<open>The shape of a mutation\<close>

text \<open>What a command asks for once it has passed validation: the client, its sequence number
  and the request that the session caches.\<close>

definition mutation_request :: "KvCommand \<Rightarrow> (u64 \<times> u64 \<times> MutationRequest) option" where
  "mutation_request c =
    (case c of
       Put cl sq ns k body im inm \<Rightarrow>
         (case kv_name_new ns k of
            Inr name \<Rightarrow>
              if cl \<noteq> 0 \<and> sq \<noteq> 0 \<and> length im \<le> MAX_ETAG_BYTES \<and> (im = [] \<or> \<not> inm)
                 \<and> length body \<le> MAX_VALUE_BYTES
              then Some (cl, sq, PutRequest name body im inm) else None
          | Inl _ \<Rightarrow> None)
     | Delete cl sq ns k im \<Rightarrow>
         (case kv_name_new ns k of
            Inr name \<Rightarrow>
              if cl \<noteq> 0 \<and> sq \<noteq> 0 \<and> length im \<le> MAX_ETAG_BYTES
              then Some (cl, sq, DeleteRequest name im) else None
          | Inl _ \<Rightarrow> None)
     | _ \<Rightarrow> None)"

definition replay ::
    "MutationRequest \<Rightarrow> MutationResult \<Rightarrow> ConnectError + KvApplyResult" where
  "replay rq res =
    (case res of
       Rejected rejection \<Rightarrow> Inl (connect_error rejection)
     | PutDone response \<Rightarrow>
         (case rq of PutRequest _ _ _ _ \<Rightarrow> Inr (AppliedPut response)
          | DeleteRequest _ _ \<Rightarrow> Inl (ConnectError Internal ''session result mismatch''))
     | DeleteDone response \<Rightarrow>
         (case rq of DeleteRequest _ _ \<Rightarrow> Inr (AppliedDelete response)
          | PutRequest _ _ _ _ \<Rightarrow> Inl (ConnectError Internal ''session result mismatch'')))"

definition execute ::
    "KvState \<Rightarrow> u64 \<Rightarrow> u64 \<Rightarrow> MutationRequest \<Rightarrow> KvState \<times> (ConnectError + KvApplyResult)" where
  "execute st cl sq rq =
    (case rq of
       PutRequest name body im inm \<Rightarrow>
         (case check_put_preconditions (bm_get (kv_entries st) name) im inm of
            Inl rejection \<Rightarrow> reject st cl sq rq rejection
          | Inr _ \<Rightarrow> store_value st cl sq rq name body (of_nat (length body)))
     | DeleteRequest name im \<Rightarrow>
         if im \<noteq> [] \<and> (case bm_get (kv_entries st) name of None \<Rightarrow> True | Some r \<Rightarrow> im \<noteq> kr_etag r)
         then reject st cl sq rq EtagMismatch
         else finish (st\<lparr>kv_entries := bm_remove name (kv_entries st)\<rparr>) cl sq rq
                (DeleteDone (delete_response name (bm_get (kv_entries st) name)))
                (AppliedDelete (delete_response name (bm_get (kv_entries st) name))))"

lemmas validation_defs = validate_mutation_request_def validate_put_preconditions_def
  validate_etag_def validate_value_def

lemma body_len_small: "length body \<le> MAX_VALUE_BYTES \<Longrightarrow> body_len body = Inr (of_nat (length body))"
  by (simp add: body_len_def fits_u64_def MAX_VALUE_BYTES_def)

lemma kv_apply_mutation:
  assumes "mutation_request c = Some (cl, sq, rq)"
  shows "kv_apply st c =
    (case session st cl of
       Inl e \<Rightarrow> (st, Inl e)
     | Inr s \<Rightarrow>
         (case cached_mutation s sq rq of
            Inl e \<Rightarrow> (st, Inl e)
          | Inr (Some res) \<Rightarrow> (st, replay rq res)
          | Inr None \<Rightarrow> execute st cl sq rq))"
proof (cases c)
  case (Put cl' sq' ns k body im inm)
  with assms obtain name where n: "kv_name_new ns k = Inr name" "cl' = cl" "sq' = sq"
    "rq = PutRequest name body im inm" "cl \<noteq> 0" "sq \<noteq> 0" "length im \<le> MAX_ETAG_BYTES"
    "im = [] \<or> \<not> inm" "length body \<le> MAX_VALUE_BYTES"
    by (auto simp: mutation_request_def split: sum.splits if_splits)
  with Put show ?thesis
    by (auto simp: kv_apply_def apply_put_def validation_defs body_len_small cached_put_def
        execute_def replay_def split: sum.splits option.splits MutationResult.splits)
next
  case (Delete cl' sq' ns k im)
  with assms obtain name where n: "kv_name_new ns k = Inr name" "cl' = cl" "sq' = sq"
    "rq = DeleteRequest name im" "cl \<noteq> 0" "sq \<noteq> 0" "length im \<le> MAX_ETAG_BYTES"
    by (auto simp: mutation_request_def split: sum.splits if_splits)
  with Delete show ?thesis
    by (auto simp: kv_apply_def apply_delete_def validation_defs cached_delete_def Let_def
        execute_def replay_def split: sum.splits option.splits MutationResult.splits)
qed (use assms in \<open>simp_all add: mutation_request_def\<close>)

text \<open>A command without a valid request changes the state only when it registers a session.\<close>

lemma kv_apply_invalid:
  assumes "mutation_request c = None"
  shows "fst (kv_apply st c) = (if c = RegisterSession then fst (alloc_client_id st) else st)"
proof (cases c)
  case RegisterSession
  then show ?thesis by (simp add: kv_apply_def split: prod.splits sum.splits)
qed (use assms in \<open>auto simp: kv_apply_def apply_put_def apply_delete_def validation_defs
        mutation_request_def split: sum.splits if_splits\<close>)

lemma session_Inr_iff [simp]: "session st cl = Inr s \<longleftrightarrow> kv_sessions st cl = Some s"
  by (auto simp: session_def split: option.splits)

lemma record_session_Some:
  "kv_sessions st cl = Some s \<Longrightarrow> record_session st cl sq rq res =
    Inr (st\<lparr>kv_sessions := (kv_sessions st)(cl \<mapsto> session_record s sq rq res)\<rparr>)"
  by (simp add: record_session_def session_def)

lemma checked_add_1: "checked_add n 1 = (if n = u64_max then None else Some (n + 1))"
proof (cases "n = u64_max")
  case True
  then show ?thesis by (simp add: checked_add_None_iff)
next
  case False
  then show ?thesis using checked_add_Some_iff [of n 1 "n + 1"] by (simp add: unat_u64_Suc)
qed

text \<open>The three ways a mutation that is not a retry ends.\<close>

lemma executeE:
  assumes "execute st cl sq rq = (st', r)" and "kv_sessions st cl = Some s"
  obtains
    (rejected) rejection where
      "st' = st\<lparr>kv_sessions := (kv_sessions st)(cl \<mapsto> session_record s sq rq (Rejected rejection))\<rparr>"
      "r = Inl (connect_error rejection)"
  | (put) name body im inm g response where
      "rq = PutRequest name body im inm"
      "check_put_preconditions (bm_get (kv_entries st) name) im inm = Inr ()"
      "g = next_generation st" "g \<noteq> u64_max"
      "response = \<lparr>pu_namespace = name_namespace name, pu_key = name_key name,
        pu_etag = etag_for g, pu_generation = g, pu_size = of_nat (length body)\<rparr>"
      "st' = st\<lparr>next_generation := g + 1,
        kv_entries := bm_insert name \<lparr>kr_body = body, kr_etag = etag_for g, kr_generation = g\<rparr>
          (kv_entries st),
        kv_sessions := (kv_sessions st)(cl \<mapsto> session_record s sq rq (PutDone response))\<rparr>"
      "r = Inr (AppliedPut response)"
  | (delete) name im response where
      "rq = DeleteRequest name im"
      "im = [] \<or> (\<exists>x. bm_get (kv_entries st) name = Some x \<and> kr_etag x = im)"
      "response = delete_response name (bm_get (kv_entries st) name)"
      "st' = st\<lparr>kv_entries := bm_remove name (kv_entries st),
        kv_sessions := (kv_sessions st)(cl \<mapsto> session_record s sq rq (DeleteDone response))\<rparr>"
      "r = Inr (AppliedDelete response)"
proof (cases rq)
  case (PutRequest name body im inm)
  show thesis
  proof (cases "check_put_preconditions (bm_get (kv_entries st) name) im inm")
    case (Inl rejection)
    with PutRequest assms show thesis
      by (intro rejected [of rejection]) (auto simp: execute_def reject_def record_session_Some)
  next
    case (Inr u)
    show thesis
    proof (cases "next_generation st = u64_max")
      case True
      with PutRequest assms Inr show thesis
        by (intro rejected [of GenerationExhausted])
           (simp_all add: execute_def reject_def record_session_Some store_value_def
              alloc_generation_def checked_add_1)
    next
      case False
      with PutRequest assms Inr show thesis
        by (intro put [of name body im inm])
           (auto simp: execute_def record_session_Some store_value_def finish_def Let_def
              alloc_generation_def checked_add_1)
    qed
  qed
next
  case (DeleteRequest name im)
  show thesis
  proof (cases "im \<noteq> [] \<and> (case bm_get (kv_entries st) name of None \<Rightarrow> True | Some r \<Rightarrow> im \<noteq> kr_etag r)")
    case True
    with DeleteRequest assms show thesis
      by (intro rejected [of EtagMismatch]) (auto simp: execute_def reject_def record_session_Some)
  next
    case False
    then have "im = [] \<or> (\<exists>x. bm_get (kv_entries st) name = Some x \<and> kr_etag x = im)"
      by (auto split: option.splits)
    with DeleteRequest assms False show thesis
      by (intro delete [of name im]) (auto simp: execute_def record_session_Some finish_def)
  qed
qed

section \<open>The invariant\<close>

definition result_matches :: "MutationRequest \<Rightarrow> MutationResult \<Rightarrow> bool" where
  "result_matches rq res =
    (case res of
       Rejected _ \<Rightarrow> True
     | PutDone _ \<Rightarrow> (case rq of PutRequest _ _ _ _ \<Rightarrow> True | _ \<Rightarrow> False)
     | DeleteDone _ \<Rightarrow> (case rq of DeleteRequest _ _ \<Rightarrow> True | _ \<Rightarrow> False))"

text \<open>A session has seen no mutation, or caches a request with a result of its kind.\<close>

definition session_ok :: "SessionState \<Rightarrow> bool" where
  "session_ok s \<longleftrightarrow>
    s = session_default
    \<or> ss_sequence s \<noteq> 0
      \<and> (\<exists>rq res. ss_request s = Some rq \<and> ss_result s = Some res \<and> result_matches rq res)"

text \<open>A stored record: its name and size respect the limits, its ETag is that of its
  generation, and the generation has been allocated.\<close>

definition record_ok :: "u64 \<Rightarrow> KvName \<Rightarrow> KvRecord \<Rightarrow> bool" where
  "record_ok limit name r \<longleftrightarrow>
    kv_name_new (name_namespace name) (name_key name) = Inr name
    \<and> length (kr_body r) \<le> MAX_VALUE_BYTES
    \<and> kr_etag r = etag_for (kr_generation r)
    \<and> 0 < kr_generation r \<and> kr_generation r < limit"

definition kv_inv :: "KvState \<Rightarrow> bool" where
  "kv_inv st \<longleftrightarrow>
    0 < next_client_id st \<and> 0 < next_generation st
    \<and> (\<forall>name r. bm_get (kv_entries st) name = Some r \<longrightarrow> record_ok (next_generation st) name r)
    \<and> (\<forall>n1 r1 n2 r2. bm_get (kv_entries st) n1 = Some r1 \<longrightarrow> bm_get (kv_entries st) n2 = Some r2
          \<longrightarrow> kr_generation r1 = kr_generation r2 \<longrightarrow> n1 = n2)
    \<and> (\<forall>cl s. kv_sessions st cl = Some s \<longrightarrow>
          0 < cl \<and> cl < next_client_id st \<and> session_ok s)"

lemma kv_inv_new [simp]: "kv_inv kv_new"
  by (simp add: kv_inv_def kv_new_def)

lemma u64_pos_Suc: "(n :: u64) \<noteq> u64_max \<Longrightarrow> 0 < n + 1"
  by (simp add: word_less_nat_alt unat_u64_Suc)

lemma record_ok_mono: "record_ok g n r \<Longrightarrow> g \<le> g' \<Longrightarrow> record_ok g' n r"
  by (auto simp: record_ok_def)

lemma session_ok_record: "sq \<noteq> 0 \<Longrightarrow> result_matches rq res \<Longrightarrow> session_ok (session_record s sq rq res)"
  by (simp add: session_ok_def session_record_def)

lemma kv_inv_session:
  assumes "kv_inv st" "kv_sessions st cl = Some s" "session_ok s'"
  shows "kv_inv (st\<lparr>kv_sessions := (kv_sessions st)(cl \<mapsto> s')\<rparr>)"
  using assms by (simp add: kv_inv_def)

lemma kv_inv_insert:
  assumes "kv_inv st" "next_generation st \<noteq> u64_max"
    and "kv_name_new (name_namespace name) (name_key name) = Inr name"
    and "length body \<le> MAX_VALUE_BYTES"
  shows "kv_inv (st\<lparr>next_generation := next_generation st + 1,
    kv_entries := bm_insert name \<lparr>kr_body = body, kr_etag = etag_for (next_generation st),
      kr_generation = next_generation st\<rparr> (kv_entries st)\<rparr>)"
proof -
  let ?g = "next_generation st"
  have lt: "?g < ?g + 1" using assms(2) by (rule u64_less_Suc)
  have old: "record_ok (?g + 1) n r \<and> kr_generation r \<noteq> ?g"
    if "bm_get (kv_entries st) n = Some r" for n r
  proof -
    have "record_ok ?g n r" using assms(1) that by (simp add: kv_inv_def)
    then show ?thesis using record_ok_mono [of ?g n r "?g + 1"] lt
      by (auto simp: less_imp_le) (simp add: record_ok_def)
  qed
  show ?thesis
    using assms lt old u64_pos_Suc [OF assms(2)]
    by (auto simp: kv_inv_def bm_get_insert record_ok_def) (metis less_irrefl)
qed

lemma kv_inv_remove: "kv_inv st \<Longrightarrow> kv_inv (st\<lparr>kv_entries := bm_remove name (kv_entries st)\<rparr>)"
  by (simp add: kv_inv_def bm_get_remove)

lemma mutation_request_valid:
  assumes "mutation_request c = Some (cl, sq, rq)"
  shows "cl \<noteq> 0 \<and> sq \<noteq> 0
    \<and> (\<forall>name body im inm. rq = PutRequest name body im inm \<longrightarrow>
        kv_name_new (name_namespace name) (name_key name) = Inr name
        \<and> length body \<le> MAX_VALUE_BYTES)"
  using assms
  by (auto simp: mutation_request_def kv_name_new_def split: KvCommand.splits sum.splits if_splits)

lemma kv_inv_execute:
  assumes "kv_inv st" "kv_sessions st cl = Some s" "execute st cl sq rq = (st', r)"
    and "mutation_request c = Some (cl, sq, rq)"
  shows "kv_inv st'"
  using assms(3,2)
proof (cases rule: executeE)
  case (rejected rejection)
  with assms(1,2) mutation_request_valid [OF assms(4)] show ?thesis
    by (simp add: kv_inv_session session_ok_record result_matches_def)
next
  case (put name body im inm g response)
  with mutation_request_valid [OF assms(4)] assms(1) have
    "kv_inv (st\<lparr>next_generation := g + 1, kv_entries := bm_insert name
       \<lparr>kr_body = body, kr_etag = etag_for g, kr_generation = g\<rparr> (kv_entries st)\<rparr>)"
    using kv_inv_insert [of st name body] by simp
  from kv_inv_session [OF this, of cl s "session_record s sq rq (PutDone response)"] put
    assms(2) mutation_request_valid [OF assms(4)]
  show ?thesis by (simp add: session_ok_record result_matches_def)
next
  case (delete name im response)
  from kv_inv_session [OF kv_inv_remove [OF assms(1), of name], of cl s
      "session_record s sq rq (DeleteDone response)"] delete
    assms(2) mutation_request_valid [OF assms(4)]
  show ?thesis by (simp add: session_ok_record result_matches_def)
qed

lemma kv_inv_alloc: "kv_inv st \<Longrightarrow> kv_inv (fst (alloc_client_id st))"
proof -
  assume inv: "kv_inv st"
  show ?thesis
  proof (cases "next_client_id st = u64_max")
    case False
    have "next_client_id st < next_client_id st + 1" using False by (rule u64_less_Suc)
    moreover have "session_ok session_default" by (simp add: session_ok_def)
    ultimately show ?thesis using inv u64_pos_Suc [OF False]
      by (simp add: alloc_client_id_def checked_add_1 Let_def False kv_inv_def)
         (metis less_trans)
  qed (simp add: alloc_client_id_def checked_add_1 Let_def inv)
qed

lemma kv_apply_cases:
  obtains (same) "fst (kv_apply st c) = st"
  | (register) "c = RegisterSession" "fst (kv_apply st c) = fst (alloc_client_id st)"
  | (execute) cl sq rq s where "mutation_request c = Some (cl, sq, rq)"
      "kv_sessions st cl = Some s" "ss_sequence s < sq" "kv_apply st c = execute st cl sq rq"
proof (cases "mutation_request c")
  case None
  then show thesis using kv_apply_invalid [of c st] same register by (metis (full_types))
next
  case (Some m)
  obtain cl sq rq where m: "m = (cl, sq, rq)" by (cases m)
  note eq = kv_apply_mutation [OF Some [unfolded m], of st]
  show thesis
  proof (cases "\<exists>s. kv_sessions st cl = Some s \<and> cached_mutation s sq rq = Inr None")
    case True
    then obtain s where s: "kv_sessions st cl = Some s" "cached_mutation s sq rq = Inr None"
      by blast
    then have "ss_sequence s < sq"
      by (auto simp: cached_mutation_def split: if_splits option.splits)
    moreover have "kv_apply st c = execute st cl sq rq"
      using s by (simp add: eq session_def)
    ultimately show thesis by (rule execute [OF Some [unfolded m] s(1)])
  next
    case False
    then have "fst (kv_apply st c) = st"
      by (auto simp: eq session_def split: sum.splits option.splits)
    then show thesis by (rule same)
  qed
qed

lemma kv_inv_apply: "kv_inv st \<Longrightarrow> kv_inv (fst (kv_apply st c))"
proof (cases rule: kv_apply_cases [of st c])
  case (execute cl sq rq s)
  then show "kv_inv st \<Longrightarrow> ?thesis"
    using kv_inv_execute [OF _ execute(2) _ execute(1), of "fst (kv_apply st c)" "snd (kv_apply st c)"]
    by simp
qed (simp_all add: kv_inv_alloc)

lemma kv_run_simps [simp]:
  "kv_run st [] = st"
  "kv_run st (c # cs) = kv_run (fst (kv_apply st c)) cs"
  "kv_run st (cs @ cs') = kv_run (kv_run st cs) cs'"
  by (simp_all add: kv_run_def)

lemma kv_inv_run: "kv_inv st \<Longrightarrow> kv_inv (kv_run st cs)"
  by (induction cs arbitrary: st) (simp_all add: kv_inv_apply)

section \<open>Sessions along an execution\<close>

definition of_client :: "u64 \<Rightarrow> KvCommand \<Rightarrow> bool" where
  "of_client cl c =
    (case c of
       Put cl' _ _ _ _ _ _ \<Rightarrow> cl' = cl
     | Delete cl' _ _ _ _ \<Rightarrow> cl' = cl
     | _ \<Rightarrow> False)"

lemma mutation_request_client: "mutation_request c = Some (cl, sq, rq) \<Longrightarrow> of_client cl c"
  by (auto simp: mutation_request_def of_client_def
      split: KvCommand.splits sum.splits if_splits)

lemma execute_session:
  assumes "execute st cl sq rq = (st', r)" "kv_sessions st cl = Some s"
  obtains res where
    "kv_sessions st' = (kv_sessions st)(cl \<mapsto> session_record s sq rq res)" "r = replay rq res"
  using assms
proof (cases rule: executeE)
  case (rejected rejection)
  then show thesis by (intro that [of "Rejected rejection"]) (simp_all add: replay_def)
next
  case (put name body im inm g response)
  then show thesis by (intro that [of "PutDone response"]) (simp_all add: replay_def)
next
  case (delete name im response)
  then show thesis by (intro that [of "DeleteDone response"]) (simp_all add: replay_def)
qed

lemma alloc_session_frame:
  assumes "kv_inv st" "kv_sessions st cl = Some s"
  shows "kv_sessions (fst (alloc_client_id st)) cl = Some s"
proof -
  have "cl \<noteq> next_client_id st" using assms by (auto simp: kv_inv_def)
  with assms(2) show ?thesis
    by (simp add: alloc_client_id_def Let_def split: option.split)
qed

lemma kv_apply_session:
  assumes "kv_inv st" "kv_sessions st cl = Some s"
  shows "\<exists>s'. kv_sessions (fst (kv_apply st c)) cl = Some s' \<and> ss_sequence s \<le> ss_sequence s'
    \<and> (of_client cl c \<or> s' = s)"
proof (cases rule: kv_apply_cases [of st c])
  case (execute cl' sq rq s')
  obtain res where "kv_sessions (fst (kv_apply st c)) =
      (kv_sessions st)(cl' \<mapsto> session_record s' sq rq res)"
    using execute_session [OF _ execute(2), of sq rq "fst (kv_apply st c)" "snd (kv_apply st c)"]
      execute(4) by auto
  with execute assms(2) mutation_request_client [OF execute(1)] show ?thesis
    by (auto simp: session_record_def)
qed (use assms alloc_session_frame in auto)

lemma kv_run_session:
  assumes "kv_inv st" "kv_sessions st cl = Some s"
  shows "\<exists>s'. kv_sessions (kv_run st cs) cl = Some s' \<and> ss_sequence s \<le> ss_sequence s'
    \<and> ((\<exists>c \<in> set cs. of_client cl c) \<or> s' = s)"
  using assms
proof (induction cs arbitrary: st s)
  case (Cons c cs)
  obtain s1 where s1: "kv_sessions (fst (kv_apply st c)) cl = Some s1"
    "ss_sequence s \<le> ss_sequence s1" "of_client cl c \<or> s1 = s"
    using kv_apply_session [OF Cons.prems] by blast
  from Cons.IH [OF kv_inv_apply [OF Cons.prems(1)] s1(1)] s1(2,3) show ?case by force
qed auto

lemma kv_apply_executed:
  assumes "mutation_request c = Some (cl, sq, rq)" "kv_sessions st cl = Some s"
    and "ss_sequence s < sq" and "kv_apply st c = (st1, r)"
  shows "\<exists>res. kv_sessions st1 cl = Some (session_record s sq rq res) \<and> r = replay rq res"
proof -
  have "cached_mutation s sq rq = Inr None" using assms(3) by (auto simp: cached_mutation_def)
  then have "execute st cl sq rq = (st1, r)"
    using assms(4) kv_apply_mutation [OF assms(1), of st] assms(2) by (simp add: session_def)
  then show ?thesis using execute_session [OF _ assms(2)] by (metis fun_upd_same)
qed

section \<open>Generations along an execution\<close>

text \<open>A record of a later state was there before, under the same name, or has a generation that
  was still free.\<close>

lemma kv_apply_generation:
  assumes "kv_inv st"
  shows "next_generation st \<le> next_generation (fst (kv_apply st c))
    \<and> (bm_get (kv_entries (fst (kv_apply st c))) n = Some r \<longrightarrow>
        bm_get (kv_entries st) n = Some r \<or> next_generation st \<le> kr_generation r)"
proof (cases rule: kv_apply_cases [of st c])
  case register
  then show ?thesis by (simp add: alloc_client_id_def Let_def split: option.split)
next
  case (execute cl sq rq s)
  then obtain st' x where x: "execute st cl sq rq = (st', x)" by (cases "execute st cl sq rq")
  from x execute(2) show ?thesis
  proof (cases rule: executeE)
    case (put name body im inm g response)
    then have "g \<le> g + 1" using u64_less_Suc [of g] by simp
    with put execute(4) x show ?thesis by (auto simp: bm_get_insert)
  qed (use execute(4) x in \<open>auto simp: bm_get_remove\<close>)
qed simp

lemma kv_run_generation:
  assumes "kv_inv st"
  shows "next_generation st \<le> next_generation (kv_run st cs)
    \<and> (bm_get (kv_entries (kv_run st cs)) n = Some r \<longrightarrow>
        bm_get (kv_entries st) n = Some r \<or> next_generation st \<le> kr_generation r)"
  using assms
proof (induction cs arbitrary: st)
  case (Cons c cs)
  from Cons.IH [OF kv_inv_apply [OF Cons.prems], of c] kv_apply_generation [OF Cons.prems, of c n r]
  show ?case by (auto intro: order_trans)
qed simp

lemma etag_for_inject [simp]: "etag_for a = etag_for b \<longleftrightarrow> a = b"
  by (simp add: etag_for_def)

section \<open>Properties\<close>

text \<open>C21. Every state that the committed commands lead to from the initial one satisfies the
  invariant: names and values respect the limits, ETags are those of their generations, no two
  records share a generation, generations and client ids in use have been allocated, and a
  session caches a result exactly when it has completed a mutation.\<close>

theorem kv_invariant: "kv_inv (kv_run kv_new cmds)"
  by (rule kv_inv_run) simp

text \<open>C13. At most once: once a mutation with client id and sequence number has been executed,
  no later command with the same pair changes the state, whatever commands come in between and
  whatever the later command asks for.\<close>

theorem kv_at_most_once:
  assumes "kv_inv st" and "mutation_request c = Some (cl, sq, rq)"
    and "kv_sessions st cl = Some s" and "ss_sequence s < sq"
    and "mutation_request c' = Some (cl, sq, rq')"
  shows "let st1 = fst (kv_apply st c); st2 = kv_run st1 cs in fst (kv_apply st2 c') = st2"
proof -
  let ?st1 = "fst (kv_apply st c)"
  obtain s1 where s1: "kv_sessions ?st1 cl = Some s1" "ss_sequence s1 = sq"
    using kv_apply_executed [OF assms(2-4), of ?st1 "snd (kv_apply st c)"]
    by (auto simp: session_record_def)
  obtain s2 where s2: "kv_sessions (kv_run ?st1 cs) cl = Some s2" "sq \<le> ss_sequence s2"
    using kv_run_session [OF kv_inv_apply [OF assms(1)] s1(1)] s1(2) by blast
  have "fst (kv_apply (kv_run ?st1 cs) c') = kv_run ?st1 cs"
  proof (cases rule: kv_apply_cases [of "kv_run ?st1 cs" c'])
    case register
    with assms(5) show ?thesis by (simp add: mutation_request_def)
  next
    case (execute cl' sq' rq'' s')
    with assms(5) s2 show ?thesis by auto
  qed
  then show ?thesis by (simp add: Let_def)
qed

text \<open>C20. A retry is answered with the original result: while the client has not sent another
  mutation, repeating a mutation that was executed (accepted or refused by its precondition)
  gives the same answer and leaves the state as it is.\<close>

theorem kv_retry_same_reply:
  assumes "kv_inv st" and "mutation_request c = Some (cl, sq, rq)"
    and "kv_sessions st cl = Some s" and "ss_sequence s < sq"
    and "\<forall>c' \<in> set cs. \<not> of_client cl c'"
  shows "let st1 = fst (kv_apply st c); st2 = kv_run st1 cs
         in kv_apply st2 c = (st2, snd (kv_apply st c))"
proof -
  let ?st1 = "fst (kv_apply st c)"
  obtain res where s1: "kv_sessions ?st1 cl = Some (session_record s sq rq res)"
    and r: "snd (kv_apply st c) = replay rq res"
    using kv_apply_executed [OF assms(2-4), of ?st1 "snd (kv_apply st c)"] by auto
  have "kv_sessions (kv_run ?st1 cs) cl = Some (session_record s sq rq res)"
    using kv_run_session [OF kv_inv_apply [OF assms(1)] s1, of cs] assms(5) by auto
  then have "kv_apply (kv_run ?st1 cs) c = (kv_run ?st1 cs, replay rq res)"
    by (simp add: kv_apply_mutation [OF assms(2)] session_def cached_mutation_def
        session_record_def)
  with r show ?thesis by (simp add: Let_def)
qed

text \<open>C24. An ETag identifies one version of one key: if a record of a later state carries the
  ETag of a record of an earlier state, it is that record, under the same name. A conditional
  write that passes its \<open>if_match\<close> test therefore replaces exactly the value its client saw.\<close>

theorem etag_identifies_version:
  assumes "kv_inv st" and "bm_get (kv_entries st) n = Some r"
    and "bm_get (kv_entries (kv_run st cs)) n' = Some r'" and "kr_etag r' = kr_etag r"
  shows "n' = n \<and> r' = r"
proof -
  have ok: "record_ok (next_generation st) n r"
    "record_ok (next_generation (kv_run st cs)) n' r'"
    using assms(1-3) kv_inv_run [OF assms(1), of cs] by (simp_all add: kv_inv_def)
  then have eq: "kr_generation r' = kr_generation r"
    using assms(4) by (simp add: record_ok_def)
  with ok(1) have "\<not> next_generation st \<le> kr_generation r'"
    by (simp add: record_ok_def not_le)
  then have old: "bm_get (kv_entries st) n' = Some r'"
    using kv_run_generation [OF assms(1), of cs n' r'] assms(3) by blast
  then have "n' = n" using assms(1,2) eq unfolding kv_inv_def by blast
  with old assms(2) show ?thesis by simp
qed

text \<open>C30. A put that is not a retry takes effect exactly when its precondition holds: with
  \<open>if_none_match\<close> the key must be absent, with \<open>if_match\<close> the current ETag must be the given
  one. Then the key maps to the new body with a fresh generation and nothing else changes;
  otherwise the store is untouched and the client learns which precondition failed.\<close>

theorem put_spec:
  assumes "mutation_request c = Some (cl, sq, PutRequest name body im inm)"
    and "kv_sessions st cl = Some s" and "ss_sequence s < sq" and "next_generation st \<noteq> u64_max"
  shows "let current = bm_get (kv_entries st) name; st' = fst (kv_apply st c);
             g = next_generation st
         in if (inm \<longrightarrow> current = None) \<and> (im \<noteq> [] \<longrightarrow> (\<exists>x. current = Some x \<and> kr_etag x = im))
            then snd (kv_apply st c) = Inr (AppliedPut
                   \<lparr>pu_namespace = name_namespace name, pu_key = name_key name,
                    pu_etag = etag_for g, pu_generation = g, pu_size = of_nat (length body)\<rparr>)
              \<and> next_generation st' = g + 1
              \<and> bm_get (kv_entries st') = (bm_get (kv_entries st))
                   (name \<mapsto> \<lparr>kr_body = body, kr_etag = etag_for g, kr_generation = g\<rparr>)
            else snd (kv_apply st c) = Inl (connect_error
                   (if inm \<and> current \<noteq> None then KeyExists else EtagMismatch))
              \<and> kv_entries st' = kv_entries st \<and> next_generation st' = g"
proof -
  have "cached_mutation s sq (PutRequest name body im inm) = Inr None"
    using assms(3) by (auto simp: cached_mutation_def)
  then have "kv_apply st c = execute st cl sq (PutRequest name body im inm)"
    using kv_apply_mutation [OF assms(1), of st] assms(2) by (simp add: session_def)
  with assms(2,4) show ?thesis
    by (auto simp: Let_def execute_def check_put_preconditions_def store_value_def
        alloc_generation_def checked_add_1 finish_def reject_def record_session_Some
        fun_eq_iff bm_get_insert split: option.splits)
qed

text \<open>A delete that is not a retry and whose \<open>if_match\<close> (when given) names the current
  version removes the key, changes nothing else and reports the version it removed, or that
  there was none; with any other \<open>if_match\<close> it is refused and the store is untouched.\<close>

theorem delete_spec:
  assumes "mutation_request c = Some (cl, sq, DeleteRequest name im)"
    and "kv_sessions st cl = Some s" and "ss_sequence s < sq"
  shows "let current = bm_get (kv_entries st) name; st' = fst (kv_apply st c)
         in if im = [] \<or> (\<exists>x. current = Some x \<and> kr_etag x = im)
            then (\<exists>resp. snd (kv_apply st c) = Inr (AppliedDelete resp)
                \<and> dl_deleted resp = (current \<noteq> None)
                \<and> dl_etag resp = (case current of None \<Rightarrow> [] | Some x \<Rightarrow> kr_etag x))
              \<and> bm_get (kv_entries st') = (bm_get (kv_entries st))(name := None)
            else snd (kv_apply st c) = Inl (connect_error EtagMismatch)
              \<and> kv_entries st' = kv_entries st"
proof -
  have "cached_mutation s sq (DeleteRequest name im) = Inr None"
    using assms(3) by (auto simp: cached_mutation_def)
  then have "kv_apply st c = execute st cl sq (DeleteRequest name im)"
    using kv_apply_mutation [OF assms(1), of st] assms(2) by (simp add: session_def)
  with assms(2) show ?thesis
    by (auto simp: Let_def execute_def finish_def reject_def record_session_Some
        delete_response_def fun_eq_iff bm_get_remove split: option.splits)
qed

text \<open>A command that fails has no effect on the stored values: whatever the error
  (validation, stale or reused sequence number, failed precondition, exhausted ids), entries
  and generation counter are as before.\<close>

theorem failed_command_keeps_values:
  assumes "snd (kv_apply st c) = Inl e"
  shows "kv_entries (fst (kv_apply st c)) = kv_entries st
    \<and> next_generation (fst (kv_apply st c)) = next_generation st"
proof (cases rule: kv_apply_cases [of st c])
  case register
  then show ?thesis by (simp add: alloc_client_id_def Let_def split: option.split)
next
  case (execute cl sq rq s)
  then obtain st' where x: "execute st cl sq rq = (st', Inl e)"
    using assms by (cases "execute st cl sq rq") simp
  from x execute(2) show ?thesis
    by (cases rule: executeE) (use execute(4) x in simp_all)
qed simp

section \<open>Witnesses\<close>

text \<open>One registered client, and a store with one value written by it.\<close>

definition one_client :: KvState where
  "one_client = kv_run kv_new [RegisterSession]"

definition put_a :: "u64 \<Rightarrow> string \<Rightarrow> KvCommand" where
  "put_a sq im = Put 1 sq ''ns'' ''a'' [7] im False"

definition one_value :: KvState where
  "one_value = fst (kv_apply one_client (put_a 1 []))"

lemma kv_name_ns_a: "kv_name_new ''ns'' ''a'' = Inr (KvName ''ns'' ''a'')"
  by (simp add: kv_name_new_def MAX_NAMESPACE_BYTES_def MAX_KEY_BYTES_def)

lemma one_client_facts:
  "kv_inv one_client" "kv_sessions one_client 1 = Some session_default"
  "next_generation one_client = 1" "kv_entries one_client = bm_empty"
  by (simp add: one_client_def kv_inv_run del: kv_run_simps)
     (simp_all add: one_client_def kv_apply_def alloc_client_id_def kv_new_def checked_add_1
       u64_max_def)

lemma put_a_request:
  "sq \<noteq> 0 \<Longrightarrow> length im \<le> 128 \<Longrightarrow>
    mutation_request (put_a sq im) = Some (1, sq, PutRequest (KvName ''ns'' ''a'') [7] im False)"
  by (simp add: put_a_def mutation_request_def kv_name_ns_a MAX_ETAG_BYTES_def MAX_VALUE_BYTES_def)

lemma session_default_sequence [simp]: "ss_sequence session_default = 0"
  by (simp add: session_default_def)

theorem put_spec_witness:
  "snd (kv_apply one_client (put_a 1 [])) = Inr (AppliedPut
      \<lparr>pu_namespace = ''ns'', pu_key = ''a'', pu_etag = etag_for 1, pu_generation = 1, pu_size = 1\<rparr>)
   \<and> bm_get (kv_entries one_value) (KvName ''ns'' ''a'') =
      Some \<lparr>kr_body = [7], kr_etag = etag_for 1, kr_generation = 1\<rparr>"
  using put_spec [OF put_a_request [of 1 "[]"] one_client_facts(2)]
  by (simp add: Let_def one_client_facts u64_max_def one_value_def)

lemma one_value_facts:
  "kv_inv one_value"
  "kv_sessions one_value 1 \<noteq> None"
  "bm_get (kv_entries one_value) (KvName ''ns'' ''a'') =
    Some \<lparr>kr_body = [7], kr_etag = etag_for 1, kr_generation = 1\<rparr>"
  by (simp add: one_value_def kv_inv_apply one_client_facts(1))
     (simp_all add: one_value_def one_client_facts kv_apply_mutation [OF put_a_request]
      session_def cached_mutation_def execute_def check_put_preconditions_def store_value_def
      alloc_generation_def checked_add_1 u64_max_def finish_def record_session_Some Let_def
      bm_get_insert)

theorem kv_at_most_once_witness:
  "let st1 = fst (kv_apply one_client (put_a 1 [])); st2 = kv_run st1 [RegisterSession, put_a 2 []]
   in fst (kv_apply st2 (put_a 1 ''x'')) = st2"
  using kv_at_most_once [OF one_client_facts(1) put_a_request [of 1 "[]"] one_client_facts(2) _
      put_a_request [of 1 "''x''"], where cs = "[RegisterSession, put_a 2 []]"]
  by (simp del: kv_run_simps)

theorem kv_retry_same_reply_witness:
  "let st1 = fst (kv_apply one_client (put_a 1 [])); st2 = kv_run st1 [RegisterSession]
   in kv_apply st2 (put_a 1 []) = (st2, snd (kv_apply one_client (put_a 1 [])))"
  using kv_retry_same_reply [OF one_client_facts(1) put_a_request [of 1 "[]"] one_client_facts(2),
      of "[RegisterSession]"]
  by (simp add: of_client_def)

theorem etag_identifies_version_witness:
  "bm_get (kv_entries (kv_run one_value [ReadBarrier])) (KvName ''ns'' ''a'') =
     bm_get (kv_entries one_value) (KvName ''ns'' ''a'')"
proof -
  have "bm_get (kv_entries (kv_run one_value [ReadBarrier])) (KvName ''ns'' ''a'') =
      Some \<lparr>kr_body = [7], kr_etag = etag_for 1, kr_generation = 1\<rparr>"
    by (simp add: kv_apply_def one_value_facts)
  from etag_identifies_version [OF one_value_facts(1,3) this] this one_value_facts(3)
  show ?thesis by simp
qed

theorem delete_spec_witness:
  "bm_get (kv_entries (fst (kv_apply one_client (Delete 1 1 ''ns'' ''a'' [])))) (KvName ''ns'' ''a'') = None"
proof -
  have "mutation_request (Delete 1 1 ''ns'' ''a'' []) = Some (1, 1, DeleteRequest (KvName ''ns'' ''a'') [])"
    by (simp add: mutation_request_def kv_name_ns_a MAX_ETAG_BYTES_def)
  from delete_spec [OF this one_client_facts(2)] show ?thesis by (simp add: Let_def)
qed

theorem failed_command_keeps_values_witness:
  "snd (kv_apply one_value (Put 1 0 ''ns'' ''a'' [] [] False)) =
      Inl (ConnectError InvalidArgument ''sequence must be positive'')
   \<and> kv_entries (fst (kv_apply one_value (Put 1 0 ''ns'' ''a'' [] [] False))) = kv_entries one_value"
proof -
  have "snd (kv_apply one_value (Put 1 0 ''ns'' ''a'' [] [] False)) =
      Inl (ConnectError InvalidArgument ''sequence must be positive'')"
    by (simp add: kv_apply_def apply_put_def validation_defs)
  then show ?thesis using failed_command_keeps_values [of one_value] by blast
qed

end
