(* ===== verification/Runtime.thy ===== *)
theory Runtime
  imports Transport Store Kv RaftNode
begin

text \<open>
  The driver of a node (\<open>basisdb-node/src/runtime.rs\<close>) and the receiving side of the transport
  (\<open>basisdb-node/src/transport.rs\<close>): it runs the Raft state machine, saves its state before it
  sends messages, applies committed commands to the key-value state and answers the proposals.

  The runtime is one record: the machine behind the lock (node and store, with the file system
  below the store), the key-value state, the waiting proposals, the answers put into the
  one-shot channels, the transport and the failure flag. An \<open>async\<close> operation is its body
  between two points where it can be interleaved with others: what happens before the lock is
  taken, and what happens while it is held (the \<open>_locked\<close> definitions). \<open>None\<close> is a panic, or a
  loop that does not end. The JSON encodings, HMAC, CRC-32 and the texts of errors are
  parameters, collected in \<open>Env\<close>.
\<close>

section \<open>Errors and parameters\<close>

datatype RuntimeError =
  IdentityMismatch NodeId NodeId
| InvalidSelfPeer NodeId SocketAddr
| DuplicatePeerAddress SocketAddr
| StoreFailed StoreError
| SnapshotTransportUnsupported
| UnknownPeer NodeId
| RuntimeFailed

datatype MessageError =
  WrongRecipient NodeId NodeId
| UnknownSender NodeId
| SelfMessage

record Env =
  env_crc :: "bytes \<Rightarrow> u32"
  env_hmac :: "bytes \<Rightarrow> bytes \<Rightarrow> bytes"
  delta_to_vec :: "PersistentDelta \<Rightarrow> bytes option"
  delta_from_slice :: "bytes \<Rightarrow> PersistentDelta option"
  command_to_vec :: "KvCommand \<Rightarrow> bytes option"
  command_from_slice :: "bytes \<Rightarrow> KvCommand option"
  message_to_vec :: "Message \<Rightarrow> bytes option"
  message_from_slice :: "bytes \<Rightarrow> Message option"
  error_text :: "RuntimeError \<Rightarrow> string"

section \<open>State\<close>

text \<open>The sending half of a one-shot channel is named by the proposal's id.\<close>

record PendingProposal =
  pp_id :: u64
  pp_command :: bytes

record PendingCleanup =
  pc_index :: LogIndex
  pc_id :: u64

type_synonym Reply = "ConnectError + KvApplyResult"

record RaftRuntime =
  rt_config :: NodeConfig
  rt_node :: RaftNode
  rt_store :: RaftStore
  rt_world :: World
  rt_state :: KvState
  rt_waiters :: "LogIndex \<rightharpoonup> PendingProposal"
  rt_replies :: "(u64 \<times> Reply) list"
  next_proposal_id :: u64
  rt_transport :: PeerTransport
  rt_failed :: bool

section \<open>Opening\<close>

text \<open>\<open>find(|address| !addresses.insert(address))\<close>\<close>

fun find_duplicate :: "'a list \<Rightarrow> 'a list \<Rightarrow> 'a option" where
  "find_duplicate [] seen = None"
| "find_duplicate (x # xs) seen = (if x \<in> set seen then Some x else find_duplicate xs (x # seen))"

definition validate_config :: "NodeConfig \<Rightarrow> RuntimeError + unit" where
  "validate_config cfg =
    (if nc_node_id cfg \<noteq> cfg_id (consensus cfg)
     then Inl (IdentityMismatch (nc_node_id cfg) (cfg_id (consensus cfg)))
     else if bm_get (nc_peers cfg) (nc_node_id cfg) \<noteq> Some (raft_addr cfg)
     then Inl (InvalidSelfPeer (nc_node_id cfg) (raft_addr cfg))
     else case find_duplicate (map snd (entries_of (nc_peers cfg))) [] of
            Some address \<Rightarrow> Inl (DuplicatePeerAddress address)
          | None \<Rightarrow> Inr ())"

definition runtime_open ::
    "Env \<Rightarrow> NodeConfig \<Rightarrow> KvState \<Rightarrow> World \<Rightarrow> ((RuntimeError + RaftRuntime) \<times> World) option" where
  "runtime_open env cfg state w =
    (case validate_config cfg of
       Inl e \<Rightarrow> Some (Inl e, w)
     | Inr _ \<Rightarrow> do {
         let voters = bm_keys (nc_peers cfg);
         initial \<leftarrow> node_new (consensus cfg) voters;
         (case store_open (delta_from_slice env) (env_crc env) (persistent (core initial)) w of
            (Inl e, w) \<Rightarrow> Some (Inl (StoreFailed e), w)
          | (Inr store, w) \<Rightarrow> do {
              node \<leftarrow> node_restore (consensus cfg) (st_durable store);
              Some (Inr \<lparr>rt_config = cfg, rt_node = node, rt_store = store, rt_world = w,
                rt_state = state, rt_waiters = Map.empty, rt_replies = [], next_proposal_id = 1,
                rt_transport = transport_new (nc_node_id cfg) (raft_key cfg) (nc_peers cfg),
                rt_failed = False\<rparr>, w) }) })"

section \<open>Waiting proposals\<close>

definition remove_pending :: "LogIndex \<Rightarrow> u64 \<Rightarrow> RaftRuntime \<Rightarrow> RaftRuntime" where
  "remove_pending index i rt =
    (case rt_waiters rt index of
       Some pending \<Rightarrow>
         if pp_id pending = i then rt\<lparr>rt_waiters := (rt_waiters rt)(index := None)\<rparr> else rt
     | None \<Rightarrow> rt)"

definition complete :: "PendingProposal \<Rightarrow> Command \<Rightarrow> Reply \<Rightarrow> u64 \<times> Reply" where
  "complete pending command result =
    (pp_id pending,
     if pp_command pending = command_bytes command then result
     else Inl (ConnectError Aborted ''Raft proposal was superseded''))"

definition complete_waiter :: "LogIndex \<Rightarrow> Command \<Rightarrow> Reply \<Rightarrow> RaftRuntime \<Rightarrow> RaftRuntime" where
  "complete_waiter index command result rt =
    (case rt_waiters rt index of
       Some pending \<Rightarrow>
         rt\<lparr>rt_waiters := (rt_waiters rt)(index := None),
            rt_replies := rt_replies rt @ [complete pending command result]\<rparr>
     | None \<Rightarrow> rt)"

section \<open>Effects\<close>

definition apply_command :: "Env \<Rightarrow> Command \<Rightarrow> KvState \<Rightarrow> KvState \<times> Reply" where
  "apply_command env command state =
    (case command_from_slice env (command_bytes command) of
       None \<Rightarrow> (state, Inl (ConnectError Internal ''invalid Raft command payload''))
     | Some c \<Rightarrow> kv_apply state c)"

text \<open>The body of the loop in \<open>apply_committed\<close>.\<close>

definition apply_entry :: "Env \<Rightarrow> CommittedEntry \<Rightarrow> RaftRuntime \<Rightarrow> RaftRuntime" where
  "apply_entry env entry rt =
    (let (state, result) = apply_command env (ce_command entry) (rt_state rt);
         rt = rt\<lparr>rt_state := state, rt_node := advance (rt_node rt) (ce_index entry)\<rparr>
     in complete_waiter (ce_index entry) (ce_command entry) result rt)"

partial_function (option) apply_committed :: "Env \<Rightarrow> RaftRuntime \<Rightarrow> RaftRuntime option" where
  "apply_committed env rt =
    (case committed (rt_node rt) of
       [] \<Rightarrow> Some rt
     | entry # _ \<Rightarrow> apply_committed env (apply_entry env entry rt))"

declare apply_committed.simps [code]

definition send_message :: "Message \<Rightarrow> RaftRuntime \<Rightarrow> (RuntimeError + unit) \<times> RaftRuntime" where
  "send_message message rt =
    (case transport_send message (rt_transport rt) of
       (Inl peer, t) \<Rightarrow> (Inl (UnknownPeer peer), rt\<lparr>rt_transport := t\<rparr>)
     | (Inr _, t) \<Rightarrow> (Inr (), rt\<lparr>rt_transport := t\<rparr>))"

fun send_messages :: "Message list \<Rightarrow> RaftRuntime \<Rightarrow> (RuntimeError + unit) \<times> RaftRuntime" where
  "send_messages [] rt = (Inr (), rt)"
| "send_messages (message # rest) rt =
    (case send_message message rt of
       (Inl e, rt) \<Rightarrow> (Inl e, rt)
     | (Inr _, rt) \<Rightarrow> send_messages rest rt)"

definition save_node :: "Env \<Rightarrow> RaftRuntime \<Rightarrow> ((RuntimeError + unit) \<times> RaftRuntime) option" where
  "save_node env rt =
    map_option (\<lambda>(r, (store, w)).
        (map_sum StoreFailed id r, rt\<lparr>rt_store := store, rt_world := w\<rparr>))
      (store_save (delta_to_vec env) (env_crc env) (persistent (core (rt_node rt)))
        (rt_store rt, rt_world rt))"

definition handle_node_effects ::
    "Env \<Rightarrow> Effects \<Rightarrow> RaftRuntime \<Rightarrow> ((RuntimeError + unit) \<times> RaftRuntime) option" where
  "handle_node_effects env eff rt = do {
     (r, rt) \<leftarrow> (if persist eff then save_node env rt else Some (Inr (), rt));
     (case r of
        Inl e \<Rightarrow> Some (Inl e, rt)
      | Inr _ \<Rightarrow>
          if send_snapshots eff \<noteq> [] then Some (Inl SnapshotTransportUnsupported, rt)
          else
            (case send_messages (messages eff) rt of
               (Inl e, rt) \<Rightarrow> Some (Inl e, rt)
             | (Inr _, rt) \<Rightarrow> do {
                 rt \<leftarrow> apply_committed env rt;
                 Some (Inr (), rt) })) }"

text \<open>A request's task is dropped when its client goes away. Inside \<open>handle_effects\<close> that can happen
  only where \<open>apply_command\<close> waits for the lock of the key-value state: the messages have been
  sent and the first \<open>k\<close> committed entries applied, the next one has not. \<open>None\<close>: the task is
  not waiting there.\<close>

fun apply_some :: "Env \<Rightarrow> nat \<Rightarrow> RaftRuntime \<Rightarrow> RaftRuntime option" where
  "apply_some env 0 rt = (if committed (rt_node rt) = [] then None else Some rt)"
| "apply_some env (Suc k) rt =
    (case committed (rt_node rt) of
       [] \<Rightarrow> None
     | entry # _ \<Rightarrow> apply_some env k (apply_entry env entry rt))"

definition handle_cancelled :: "Env \<Rightarrow> nat \<Rightarrow> Effects \<Rightarrow> RaftRuntime \<Rightarrow> RaftRuntime option" where
  "handle_cancelled env k eff rt = do {
     (r, rt) \<leftarrow> (if persist eff then save_node env rt else Some (Inr (), rt));
     (case r of
        Inl e \<Rightarrow> None
      | Inr _ \<Rightarrow>
          if send_snapshots eff \<noteq> [] then None
          else
            (case send_messages (messages eff) rt of
               (Inl e, _) \<Rightarrow> None
             | (Inr _, rt) \<Rightarrow> apply_some env k rt)) }"

text \<open>\<open>map_err(|error| self.fail(error))\<close>\<close>

definition fail_on :: "(RuntimeError + unit) \<times> RaftRuntime \<Rightarrow> (RuntimeError + unit) \<times> RaftRuntime" where
  "fail_on = (\<lambda>(r, rt). case r of Inl e \<Rightarrow> (Inl e, rt\<lparr>rt_failed := True\<rparr>) | Inr _ \<Rightarrow> (Inr (), rt))"

section \<open>Messages and ticks\<close>

definition step_locked ::
    "Env \<Rightarrow> Message \<Rightarrow> RaftRuntime \<Rightarrow> ((RuntimeError + unit) \<times> RaftRuntime) option" where
  "step_locked env message rt = do {
     (n, eff) \<leftarrow> node_step (rt_node rt) message;
     map_option fail_on (handle_node_effects env eff (rt\<lparr>rt_node := n\<rparr>)) }"

definition runtime_step ::
    "Env \<Rightarrow> Message \<Rightarrow> RaftRuntime \<Rightarrow> ((RuntimeError + unit) \<times> RaftRuntime) option" where
  "runtime_step env message rt =
    (if rt_failed rt then Some (Inl RuntimeFailed, rt) else step_locked env message rt)"

definition step_cancelled :: "Env \<Rightarrow> nat \<Rightarrow> Message \<Rightarrow> RaftRuntime \<Rightarrow> RaftRuntime option" where
  "step_cancelled env k message rt = do {
     (n, eff) \<leftarrow> node_step (rt_node rt) message;
     handle_cancelled env k eff (rt\<lparr>rt_node := n\<rparr>) }"

definition tick_locked ::
    "Env \<Rightarrow> RaftRuntime \<Rightarrow> ((RuntimeError + unit) \<times> RaftRuntime) option" where
  "tick_locked env rt = do {
     (n, eff) \<leftarrow> node_tick (rt_node rt);
     map_option fail_on (handle_node_effects env eff (rt\<lparr>rt_node := n\<rparr>)) }"

definition tick_once ::
    "Env \<Rightarrow> RaftRuntime \<Rightarrow> ((RuntimeError + unit) \<times> RaftRuntime) option" where
  "tick_once env rt =
    (if rt_failed rt then Some (Inl RuntimeFailed, rt) else tick_locked env rt)"

definition validate_message :: "RaftRuntime \<Rightarrow> Message \<Rightarrow> MessageError + unit" where
  "validate_message rt message =
    (if m_to message \<noteq> nc_node_id (rt_config rt)
     then Inl (WrongRecipient (nc_node_id (rt_config rt)) (m_to message))
     else if m_from message = nc_node_id (rt_config rt) then Inl SelfMessage
     else if bm_get (nc_peers (rt_config rt)) (m_from message) = None
     then Inl (UnknownSender (m_from message))
     else Inr ())"

definition verify_signature :: "Env \<Rightarrow> RaftRuntime \<Rightarrow> bytes \<Rightarrow> string \<Rightarrow> bool" where
  "verify_signature env rt body sig = verify (env_hmac env) (raft_key (rt_config rt)) body sig"

datatype ReceiveError =
  MissingSignature
| InvalidSignature
| InvalidMessage
| RejectedMessage MessageError
| StepFailed RuntimeError

definition receive_raft ::
    "Env \<Rightarrow> string option \<Rightarrow> bytes \<Rightarrow> RaftRuntime \<Rightarrow> ((ReceiveError + unit) \<times> RaftRuntime) option" where
  "receive_raft env header body rt =
    (case header of
       None \<Rightarrow> Some (Inl MissingSignature, rt)
     | Some sig \<Rightarrow>
         if \<not> verify_signature env rt body sig then Some (Inl InvalidSignature, rt)
         else
           (case message_from_slice env body of
              None \<Rightarrow> Some (Inl InvalidMessage, rt)
            | Some message \<Rightarrow>
                (case validate_message rt message of
                   Inl e \<Rightarrow> Some (Inl (RejectedMessage e), rt)
                 | Inr _ \<Rightarrow>
                     map_option (\<lambda>(r, rt). (map_sum StepFailed id r, rt))
                       (runtime_step env message rt))))"

section \<open>Proposals\<close>

definition propose_error :: "ProposeError \<Rightarrow> ConnectError" where
  "propose_error e =
    (case e of
       NotLeader (Some leader) \<Rightarrow>
         ConnectError FailedPrecondition (''not leader; leader is '' @ show_u64 (node_num leader))
     | NotLeader None \<Rightarrow> ConnectError FailedPrecondition ''not leader; leader unknown''
     | Throttled \<Rightarrow> ConnectError ResourceExhausted ''too many Raft proposals'')"

definition runtime_connect_error :: "Env \<Rightarrow> RuntimeError \<Rightarrow> ConnectError" where
  "runtime_connect_error env e = ConnectError Internal (''Raft runtime failed: '' @ error_text env e)"

definition propose_locked ::
    "Env \<Rightarrow> u64 \<Rightarrow> bytes \<Rightarrow> RaftRuntime \<Rightarrow> ((ConnectError + PendingCleanup) \<times> RaftRuntime) option" where
  "propose_locked env i bs rt = do {
     (n, r) \<leftarrow> propose (rt_node rt) (Command bs);
     (case r of
        Inl e \<Rightarrow> Some (Inl (propose_error e), rt\<lparr>rt_node := n\<rparr>)
      | Inr (index, eff) \<Rightarrow> do {
          (r, rt) \<leftarrow> handle_node_effects env eff
            (rt\<lparr>rt_node := n,
                rt_waiters := (rt_waiters rt)(index \<mapsto> \<lparr>pp_id = i, pp_command = bs\<rparr>)\<rparr>);
          (case r of
             Inl e \<Rightarrow> Some (Inl (runtime_connect_error env e),
                           (remove_pending index i rt)\<lparr>rt_failed := True\<rparr>)
           | Inr _ \<Rightarrow> Some (Inr \<lparr>pc_index = index, pc_id = i\<rparr>, rt)) }) }"

text \<open>A proposal that is dropped: \<open>PendingCleanup\<close> takes its waiter away.\<close>

definition propose_cancelled :: "Env \<Rightarrow> nat \<Rightarrow> u64 \<Rightarrow> bytes \<Rightarrow> RaftRuntime \<Rightarrow> RaftRuntime option" where
  "propose_cancelled env k i bs rt = do {
     (n, r) \<leftarrow> propose (rt_node rt) (Command bs);
     (case r of
        Inl e \<Rightarrow> None
      | Inr (index, eff) \<Rightarrow>
          map_option (remove_pending index i)
            (handle_cancelled env k eff
              (rt\<lparr>rt_node := n,
                  rt_waiters := (rt_waiters rt)(index \<mapsto> \<lparr>pp_id = i, pp_command = bs\<rparr>)\<rparr>))) }"

definition propose_start ::
    "Env \<Rightarrow> KvCommand \<Rightarrow> RaftRuntime \<Rightarrow> ((ConnectError + PendingCleanup) \<times> RaftRuntime) option" where
  "propose_start env command rt =
    (if rt_failed rt then Some (Inl (runtime_connect_error env RuntimeFailed), rt)
     else case checked_add (next_proposal_id rt) 1 of
            None \<Rightarrow> Some (Inl (ConnectError ResourceExhausted ''proposal id space exhausted''), rt)
          | Some i \<Rightarrow>
              (case command_to_vec env command of
                 None \<Rightarrow> Some (Inl (ConnectError Internal ''failed to encode Raft command''),
                              rt\<lparr>next_proposal_id := i\<rparr>)
               | Some bs \<Rightarrow>
                   propose_locked env (next_proposal_id rt) bs (rt\<lparr>next_proposal_id := i\<rparr>)))"

text \<open>The end of \<open>timeout(PROPOSAL_TIMEOUT, receiver)\<close>: the answer if one was sent, an error if
  the sender is gone, and otherwise the timeout.\<close>

definition await_reply :: "PendingCleanup \<Rightarrow> RaftRuntime \<Rightarrow> Reply" where
  "await_reply cleanup rt =
    (case map_of (rt_replies rt) (pc_id cleanup) of
       Some result \<Rightarrow> result
     | None \<Rightarrow>
         (case rt_waiters rt (pc_index cleanup) of
            Some pending \<Rightarrow>
              if pp_id pending = pc_id cleanup
              then Inl (ConnectError Unavailable ''Raft proposal timed out'')
              else Inl (ConnectError Aborted ''Raft proposal was dropped'')
          | None \<Rightarrow> Inl (ConnectError Aborted ''Raft proposal was dropped'')))"

definition propose_finish :: "PendingCleanup \<Rightarrow> RaftRuntime \<Rightarrow> Reply \<times> RaftRuntime" where
  "propose_finish cleanup rt =
    (await_reply cleanup rt, remove_pending (pc_index cleanup) (pc_id cleanup) rt)"

text \<open>\<open>others\<close> is what the other tasks of the node do while this one waits for its answer.\<close>

definition runtime_propose ::
    "Env \<Rightarrow> (RaftRuntime \<Rightarrow> RaftRuntime option) \<Rightarrow> KvCommand \<Rightarrow> RaftRuntime
      \<Rightarrow> (Reply \<times> RaftRuntime) option" where
  "runtime_propose env others command rt = do {
     (r, rt) \<leftarrow> propose_start env command rt;
     (case r of
        Inl e \<Rightarrow> Some (Inl e, rt)
      | Inr cleanup \<Rightarrow> do {
          rt \<leftarrow> others rt;
          Some (propose_finish cleanup rt) }) }"

definition read_barrier ::
    "Env \<Rightarrow> (RaftRuntime \<Rightarrow> RaftRuntime option) \<Rightarrow> RaftRuntime
      \<Rightarrow> ((ConnectError + unit) \<times> RaftRuntime) option" where
  "read_barrier env others rt =
    map_option (\<lambda>(r, rt).
        (case r of
           Inl e \<Rightarrow> Inl e
         | Inr AppliedReadBarrier \<Rightarrow> Inr ()
         | Inr _ \<Rightarrow> Inl (ConnectError Internal ''Raft read barrier mismatch''), rt))
      (runtime_propose env others ReadBarrier rt)"

definition mode :: "RaftRuntime \<Rightarrow> string" where
  "mode rt =
    (if role_is_leader (role (rt_node rt)) then ''leader''
     else if role_is_candidate (role (rt_node rt)) then ''candidate''
     else if role_is_precandidate (role (rt_node rt)) then ''precandidate''
     else ''follower'')"

end
