(* ===== verification/Persist.thy ===== *)
theory Persist
  imports RaftNode
begin

text \<open>
  The persist flag of the effects (\<open>basisdb-raft/src/raft/event.rs\<close>, \<open>Effects\<close>): a step that does
  not ask for its state to be saved has not changed the persistent state, on every role and
  every transition. The node runtime relies on this when it releases messages without a save.
  The exception is a log with a snapshot: an entry that conflicts with the snapshot boundary
  clears the log without asking for a save, so the entries of a request must agree with it.
\<close>

section \<open>Requests and logs\<close>

text \<open>The entries of an append request agree with the snapshot boundary of the log.\<close>

definition agrees :: "Log \<Rightarrow> Event \<Rightarrow> bool" where
  "agrees l ev =
    (case ev of
       Msg m \<Rightarrow> (case m_payload m of AppendRequest req \<Rightarrow> snapshot_agrees l (aq_entries req) | _ \<Rightarrow> True)
     | _ \<Rightarrow> True)"

text \<open>A log that never had a snapshot, as every log of the node runtime.\<close>

definition fresh_log :: "Log \<Rightarrow> bool" where
  "fresh_log l \<longleftrightarrow> wf_log l \<and> snapshot_index l = 0 \<and> snapshot_term l = 0"

text \<open>What peers of a fixed membership send: plain messages with well-formed append requests.\<close>

definition sane_event :: "Event \<Rightarrow> bool" where
  "sane_event ev \<longleftrightarrow> plain_event ev
    \<and> (case ev of
         Msg m \<Rightarrow> (case m_payload m of AppendRequest req \<Rightarrow> wf_append_request req | _ \<Rightarrow> True)
       | _ \<Rightarrow> True)"

lemma fresh_agrees [simp]: "fresh_log l \<Longrightarrow> agrees l ev"
  by (auto simp: fresh_log_def agrees_def snapshot_agrees_def split: Event.splits Payload.splits)

lemma term_at_known:
  assumes "wf_log l" "term_at l i \<noteq> 0"
  shows "i \<le> last_index l"
  using assms unat_last_index [OF assms(1)]
  by (auto simp: term_at_eq log_get_eq word_le_nat_alt split: if_splits option.splits)

lemma append_entries_snapshot:
  "snapshot_index (fst (append_entries l es b)) = snapshot_index l"
  "snapshot_term (fst (append_entries l es b)) = snapshot_term l"
  by (induction es arbitrary: l b) (simp_all add: append_entries_Cons)

section \<open>The follower\<close>

lemma follower_dispatch_unpersisted:
  assumes "follower_dispatch f c msg = Some (f', c', r)" "\<not> persist (effects r)"
    and "wf_log (core_log c)" "agrees (core_log c) (Msg msg)"
  shows "persistent c' = persistent c"
proof (cases "m_payload msg")
  case (VoteRequest req)
  with assms(1) have "follower_handle_vote_request f c (m_from msg) req = Some (f', c', r)"
    by (simp add: follower_dispatch_def)
  then show ?thesis by (cases rule: follower_handle_vote_requestE) (use assms(2) in auto)
next
  case (AppendRequest req)
  with assms(1) have "follower_handle_append_request f c (m_from msg) req = Some (f', c', r)"
    by (simp add: follower_dispatch_def)
  then show ?thesis
  proof (cases rule: follower_handle_append_requestE)
    case (accept c1 l changed)
    have "append_entries (core_log c) (aq_entries req) False = (l, False)"
      using accept(3,5) assms(2) by (auto split: if_splits)
    then have "l = core_log c1"
      using append_entries_unchanged assms(3,4) AppendRequest rng_frameD(8) [OF accept(2)]
      by (auto simp: agrees_def)
    then show ?thesis using accept(4) by (simp add: rng_frameD(2) [OF accept(2)])
  qed (simp add: rng_frameD)
next
  case (ReadIndexRequest req)
  with assms(1) show ?thesis
    by (auto simp: follower_dispatch_def rng_frameD elim!: follower_handle_read_index_requestE)
next
  case (InstallSnapshotRequest req)
  with assms(1) have "follower_handle_install_snapshot f c (m_from msg) req = Some (f', c', r)"
    by (simp add: follower_dispatch_def)
  then show ?thesis
    by (cases rule: follower_handle_install_snapshotE) (use assms(2) in \<open>auto simp: rng_frameD\<close>)
qed (use assms(1) in \<open>auto simp: follower_dispatch_def\<close>)

lemma follower_step_unpersisted:
  assumes "follower_step f c ev = Some (f', c', r)" "\<not> persist (effects r)"
    and "wf_log (core_log c)" "agrees (core_log c) ev"
  shows "persistent c' = persistent c"
proof (cases ev)
  case (Msg msg)
  with assms(1) consider "c' = c" | "follower_handle_message f c msg = Some (f', c', r)"
    by (cases "m_payload msg") (auto simp: follower_step_def split: if_splits)
  then show ?thesis
  proof cases
    case 2
    then show ?thesis
      by (cases rule: follower_handle_messageE)
         (use assms Msg in \<open>auto intro: follower_dispatch_unpersisted\<close>)
  qed simp
qed (use assms(1) in \<open>auto simp: follower_step_def follower_handle_tick_def Let_def split: if_splits\<close>)

section \<open>The node\<close>

lemma role_step_unpersisted:
  assumes "role_step n ev = Some (n', r)" "\<not> persist (effects r)"
    and "wf_log (core_log (core n))" "agrees (core_log (core n)) ev"
  shows "persistent (core n') = persistent (core n)"
  using assms
  by (auto simp: role_step_def bind_eq_Some_conv precandidate_post_def candidate_post_def leader_post_def
      split: RoleState.splits intro: follower_step_unpersisted
      dest!: precandidate_step_post candidate_step_post leader_step_post)

lemma step_event_unpersisted:
  assumes "step_event n ev = Some (n', eff)" "\<not> persist eff"
    and "wf_log (core_log (core n))" "agrees (core_log (core n)) ev"
  shows "persistent (core n') = persistent (core n)"
  using assms(1)
proof (cases rule: step_eventE)
  case (stay r)
  then show ?thesis using assms(2-) by (auto intro: role_step_unpersisted)
next
  case (move n1 r e)
  then have np: "\<not> persist (effects r)" "\<not> persist e" using assms(2) by auto
  have "persistent (core n') = persistent (core n1)"
  proof (cases "transition r = ToLeader")
    case True
    then show ?thesis using move(3) by (auto simp: apply_transition_def elim!: become_leaderD)
  next
    case False
    then show ?thesis using apply_transition_post [OF move(3,2)] np by (simp add: become_post_def)
  qed
  then show ?thesis using role_step_unpersisted [OF move(1) np(1) assms(3,4)] by simp
qed

section \<open>Logs stay fresh\<close>

lemma follower_dispatch_fresh:
  assumes "follower_dispatch f c msg = Some (f', c', r)"
    and "fresh_log (core_log c)" "sane_event (Msg msg)"
  shows "fresh_log (core_log c')"
proof (cases "m_payload msg")
  case (VoteRequest req)
  with assms(1) have "follower_handle_vote_request f c (m_from msg) req = Some (f', c', r)"
    by (simp add: follower_dispatch_def)
  then show ?thesis
    by (cases rule: follower_handle_vote_requestE)
       (use assms(2) in \<open>auto simp: rng_frameD dest!: reset_deadlineD(1)\<close>)
next
  case (AppendRequest req)
  with assms(1) have "follower_handle_append_request f c (m_from msg) req = Some (f', c', r)"
    by (simp add: follower_dispatch_def)
  then show ?thesis
  proof (cases rule: follower_handle_append_requestE)
    case (accept c1 l changed)
    have w: "wf_append_request req" using assms(3) AppendRequest by (simp add: sane_event_def)
    have fresh: "wf_log (core_log c)" "snapshot_index (core_log c) = 0" "snapshot_term (core_log c) = 0"
      using assms(2) by (simp_all add: fresh_log_def)
    have "wf_log (fst (append_entries (core_log c) (aq_entries req) False))"
    proof (cases "aq_entries req = []")
      case False
      then have "prev_log_index req \<le> last_index (core_log c)"
        using accept(1) w term_at_known [OF fresh(1), of "prev_log_index req"]
        by (cases "prev_log_index req = 0")
           (auto simp: append_consistent_def wf_append_request_def word_gt_0)
      then show ?thesis
        using w fresh by (intro wf_append_entries) (auto simp: wf_append_request_def snapshot_agrees_def)
    qed (use fresh in simp)
    moreover have "snapshot_index l = 0 \<and> snapshot_term l = 0"
      using append_entries_snapshot [of "core_log c" "aq_entries req" False] accept(3) fresh by simp
    ultimately show ?thesis using accept(3,4) by (simp add: fresh_log_def)
  qed (use assms(2) in \<open>simp add: rng_frameD\<close>)
next
  case (ReadIndexRequest req)
  with assms show ?thesis
    by (auto simp: follower_dispatch_def rng_frameD elim!: follower_handle_read_index_requestE)
next
  case (InstallSnapshotRequest req)
  with assms(3) show ?thesis by (simp add: sane_event_def plain_event_def plain_message_def)
qed (use assms in \<open>auto simp: follower_dispatch_def\<close>)

lemma follower_step_fresh:
  assumes "follower_step f c ev = Some (f', c', r)" "fresh_log (core_log c)" "sane_event ev"
  shows "fresh_log (core_log c')"
proof (cases ev)
  case (Msg msg)
  with assms(1) consider "c' = c" | "follower_handle_message f c msg = Some (f', c', r)"
    by (cases "m_payload msg") (auto simp: follower_step_def split: if_splits)
  then show ?thesis
  proof cases
    case 2
    then show ?thesis
    proof (cases rule: follower_handle_messageE)
      case (newer c0 f1 c1 r1)
      have "core_log c1 = core_log c"
        using rng_frameD(8) [OF newer(3)] maybe_update_term_sel(3) [OF newer(2)] by simp
      with newer(4) assms(2,3) Msg show ?thesis by (auto intro: follower_dispatch_fresh)
    qed (use assms(2,3) Msg in \<open>auto intro: follower_dispatch_fresh\<close>)
  qed (use assms(2) in simp)
qed (use assms(1,2) in \<open>auto simp: follower_step_def follower_handle_tick_def Let_def split: if_splits\<close>)

lemma role_step_fresh:
  assumes "role_step n ev = Some (n', r)" "fresh_log (core_log (core n))" "sane_event ev"
    and "plain_log (core_log (core n))"
  shows "fresh_log (core_log (core n'))"
  using assms
  by (auto simp: role_step_def bind_eq_Some_conv precandidate_post_def candidate_post_def leader_post_def
      split: RoleState.splits intro: follower_step_fresh
      dest!: precandidate_step_post candidate_step_post leader_step_post)

lemma step_event_fresh:
  assumes "step_event n ev = Some (n', eff)" "fresh_log (core_log (core n))" "sane_event ev"
    and "plain_log (core_log (core n))"
  shows "fresh_log (core_log (core n'))"
  using assms(1)
proof (cases rule: step_eventE)
  case (stay r)
  then show ?thesis using assms(2-) by (auto intro: role_step_fresh)
next
  case (move n1 r e)
  have "core_log (core n') = core_log (core n1)"
  proof (cases "transition r = ToLeader")
    case True
    then show ?thesis using move(3) by (auto simp: apply_transition_def elim!: become_leaderD)
  next
    case False
    then show ?thesis using apply_transition_post [OF move(3,2)] by (simp add: become_post_def)
  qed
  then show ?thesis using role_step_fresh [OF move(1) assms(2-)] by simp
qed

lemma propose_fresh:
  assumes "propose n cmd = Some (n', Inr (idx, eff))" "fresh_log (core_log (core n))"
    and "plain_log (core_log (core n))" "last_index (core_log (core n)) \<noteq> u64_max"
  shows "fresh_log (core_log (core n'))"
  using assms(1)
proof (rule propose_InrE)
  fix ldr ldr' c' b
  assume p: "leader_propose ldr (core n) cmd = Some (ldr', c', idx, eff, b)"
    and d: "step_down_if b ldr' c' = Some n'"
  have "core_log (core n') = core_log c'" using d by (rule step_down_ifE) (auto simp: rng_frameD)
  moreover have "core_log c' = log_append (core_log (core n))
      \<lparr>e_term = core_term (core n), e_index = idx, e_payload = CommandPayload cmd\<rparr>"
    "idx = last_index (core_log (core n)) + 1"
    using leader_propose_post(6,8) [OF p] assms(3) by auto
  ultimately show ?thesis using assms(2,4) by (simp add: fresh_log_def wf_log_append)
qed

section \<open>Property\<close>

text \<open>C17. What is not saved has not changed: a step of a node, in any role and through any
  transition, whose effects do not ask for a save leaves the term, the vote, the log and the
  bootstrap configuration as they were. The log must be well formed, and the entries of an
  append request must not conflict with the snapshot boundary.\<close>

theorem unsaved_is_unchanged:
  assumes "step_event n ev = Some (n', eff)" and "\<not> persist eff"
    and "wf_log (core_log (core n))" and "agrees (core_log (core n)) ev"
  shows "persistent (core n') = persistent (core n)"
  using assms by (rule step_event_unpersisted)

text \<open>A heartbeat to a node of a cluster of three.\<close>

definition idle_node :: "RaftNode option" where
  "idle_node = node_new (config_new (NodeId 1)) [NodeId 1, NodeId 2, NodeId 3]"

definition heartbeat :: Event where
  "heartbeat = Msg \<lparr>m_from = NodeId 2, m_to = NodeId 1, m_term = 0, m_payload = AppendRequest
     \<lparr>prev_log_index = 0, prev_log_term = 0, aq_entries = [], leader_commit = 0\<rparr>\<rparr>"

definition heartbeat_step :: "(RaftNode \<times> Effects) option" where
  "heartbeat_step = Option.bind idle_node (\<lambda>n. step_event n heartbeat)"

lemma heartbeat_step_eval:
  "map_option (\<lambda>(n, eff). (persist eff, length (messages eff))) heartbeat_step = Some (False, 1)"
  by code_simp

theorem unsaved_is_unchanged_witness:
  "\<exists>n n' eff. idle_node = Some n \<and> step_event n heartbeat = Some (n', eff)
    \<and> length (messages eff) = 1 \<and> persistent (core n') = persistent (core n)"
proof -
  obtain n n' eff where n: "idle_node = Some n" "step_event n heartbeat = Some (n', eff)"
    "\<not> persist eff" "length (messages eff) = 1"
    using heartbeat_step_eval by (auto simp: heartbeat_step_def bind_eq_Some_conv)
  have "core_log (core n) = default_log"
    using n(1) by (auto simp: idle_node_def node_new_def bind_eq_Some_conv core_new_def core_log_def Let_def
        persistent_default_def
        dest!: follower_newD(1) rng_frameD(2))
  moreover have "wf_log default_log" by (simp add: wf_log_def default_log_def)
  moreover have "agrees default_log heartbeat"
    by (simp add: agrees_def heartbeat_def snapshot_agrees_def)
  ultimately have "persistent (core n') = persistent (core n)"
    using unsaved_is_unchanged [OF n(2,3)] by simp
  with n show ?thesis by blast
qed

end
