(* ===== verification/RuntimeInv.thy ===== *)
theory RuntimeInv
  imports Runtime Persist
begin

text \<open>
  Lemmas on the node runtime: the loop that applies committed entries is a fold over them and
  ends, an operation is a step of the node followed by its effects, and nothing leaves the
  machine before the state it rests on is durable.
\<close>

section \<open>Applying committed entries\<close>

text \<open>What the loop in \<open>apply_committed\<close> does, as a fold over the committed entries.\<close>

definition applied_state :: "Env \<Rightarrow> CommittedEntry list \<Rightarrow> KvState \<Rightarrow> KvState" where
  "applied_state env es s = fold (\<lambda>e s. fst (apply_command env (ce_command e) s)) es s"

lemma apply_entry_sel [simp]:
  "rt_node (apply_entry env e rt) = advance (rt_node rt) (ce_index e)"
  "rt_state (apply_entry env e rt) = fst (apply_command env (ce_command e) (rt_state rt))"
  "rt_waiters (apply_entry env e rt) = (rt_waiters rt)(ce_index e := None)"
  "rt_replies (apply_entry env e rt) = rt_replies rt @
    (case rt_waiters rt (ce_index e) of
       None \<Rightarrow> []
     | Some p \<Rightarrow> [complete p (ce_command e) (snd (apply_command env (ce_command e) (rt_state rt)))])"
  "rt_store (apply_entry env e rt) = rt_store rt" "rt_world (apply_entry env e rt) = rt_world rt"
  "rt_config (apply_entry env e rt) = rt_config rt" "rt_failed (apply_entry env e rt) = rt_failed rt"
  "rt_transport (apply_entry env e rt) = rt_transport rt"
  "next_proposal_id (apply_entry env e rt) = next_proposal_id rt"
  by (auto simp: apply_entry_def complete_waiter_def Let_def split: prod.splits option.splits)

lemma advance_sel [simp]:
  "core_log (core (advance n i)) = core_log (core n)" "persistent (core (advance n i)) = persistent (core n)"
  "commit_index (core (advance n i)) = commit_index (core n)" "last_applied (core (advance n i)) = i"
  "config (core (advance n i)) = config (core n)" "role (advance n i) = role n"
  by (simp_all add: advance_def core_log_def)

lemma advance_advance [simp]: "advance (advance n i) j = advance n j"
  by (simp add: advance_def)

lemma map_filter_Cons_split:
  "List.map_filter f xs = y # ys \<Longrightarrow>
    \<exists>pre x suf. xs = pre @ x # suf \<and> f x = Some y \<and> List.map_filter f suf = ys"
proof (induction xs)
  case (Cons a xs)
  show ?case
  proof (cases "f a")
    case None
    with Cons obtain pre x suf where "xs = pre @ x # suf" "f x = Some y" "List.map_filter f suf = ys"
      by (auto simp: List.map_filter_simps)
    then show ?thesis by (intro exI [of _ "a # pre"] exI [of _ x] exI [of _ suf]) simp
  next
    case (Some b)
    with Cons.prems show ?thesis
      by (intro exI [of _ "[]"] exI [of _ a] exI [of _ xs]) (simp add: List.map_filter_simps)
  qed
qed (simp add: List.map_filter_simps)

lemma range_excl_split:
  assumes "range_excl a b = pre @ x # suf"
  shows "suf = range_excl (x + 1) b"
proof -
  have len: "length pre + Suc (length suf) = unat b - unat a"
    using arg_cong [OF assms, of length] by (simp add: range_excl_def)
  then have lt: "length pre < unat b - unat a" by linarith
  have "x = range_excl a b ! length pre" by (simp add: assms)
  then have x: "x = of_nat (unat a + length pre)" using lt by (simp add: range_excl_def)
  have small: "unat a + length pre < 2 ^ 64" using lt unat_u64_lt [of b] by linarith
  have ux: "unat x = unat a + length pre" unfolding x by (rule unat_u64_of_nat [OF small])
  have "Suc (unat x) < 2 ^ 64" using ux lt unat_u64_lt [of b] by linarith
  then have "x \<noteq> u64_max" by auto
  then have "unat (x + 1) = unat a + Suc (length pre)" using ux by (simp add: unat_u64_Suc)
  then have "range_excl (x + 1) b = drop (Suc (length pre)) (range_excl a b)"
    by (simp add: range_excl_def drop_map drop_upt)
  then show ?thesis by (simp add: assms)
qed

lemma committed_entry_index:
  assumes "wf_log l" "Option.bind (log_get l x) (\<lambda>entry.
      case e_payload entry of
        CommandPayload cmd \<Rightarrow> Some \<lparr>ce_index = e_index entry, ce_term = e_term entry, ce_command = cmd\<rparr>
      | ConfigPayload _ \<Rightarrow> None) = Some e"
  shows "ce_index e = x"
proof -
  obtain y where "log_get l x = Some y" using assms(2) by (cases "log_get l x") auto
  with assms show ?thesis by (cases "e_payload y") (auto simp: log_get_index)
qed

lemma committed_Cons:
  assumes "wf_log (core_log (core n))" "committed n = e # es"
  shows "committed (advance n (ce_index e)) = es"
proof -
  obtain pre x suf where s: "range_excl (last_applied (core n) + 1) (commit_index (core n) + 1) = pre @ x # suf"
    and fx: "Option.bind (log_get (core_log (core n)) x) (\<lambda>entry.
            case e_payload entry of
              CommandPayload cmd \<Rightarrow>
                Some \<lparr>ce_index = e_index entry, ce_term = e_term entry, ce_command = cmd\<rparr>
            | ConfigPayload _ \<Rightarrow> None) = Some e"
    and rest: "List.map_filter (\<lambda>idx. Option.bind (log_get (core_log (core n)) idx) (\<lambda>entry.
            case e_payload entry of
              CommandPayload cmd \<Rightarrow>
                Some \<lparr>ce_index = e_index entry, ce_term = e_term entry, ce_command = cmd\<rparr>
            | ConfigPayload _ \<Rightarrow> None)) suf = es"
    using map_filter_Cons_split [OF assms(2) [unfolded committed_def Let_def]] by blast
  have "ce_index e = x" using committed_entry_index [OF assms(1) fx] .
  moreover have "suf = range_excl (x + 1) (commit_index (core n) + 1)" by (rule range_excl_split [OF s])
  ultimately show ?thesis using rest by (simp add: committed_def Let_def)
qed

lemma apply_committed_fold:
  assumes "wf_log (core_log (core (rt_node rt)))"
  shows "apply_committed env rt = Some (fold (apply_entry env) (committed (rt_node rt)) rt)"
  using assms
proof (induction "committed (rt_node rt)" arbitrary: rt)
  case Nil
  from Nil(1) [symmetric] show ?case by (subst apply_committed.simps) simp
next
  case (Cons e es)
  have c: "committed (rt_node rt) = e # es" using Cons(2) by simp
  have "es = committed (rt_node (apply_entry env e rt))"
    using committed_Cons [OF Cons(3) c] by simp
  from Cons(1) [OF this] this Cons(3) c show ?case by (subst apply_committed.simps) simp
qed

lemma fold_apply_sel:
  "rt_node (fold (apply_entry env) es rt) =
    (if es = [] then rt_node rt else advance (rt_node rt) (ce_index (last es)))"
  "rt_state (fold (apply_entry env) es rt) = applied_state env es (rt_state rt)"
  "rt_store (fold (apply_entry env) es rt) = rt_store rt"
  "rt_world (fold (apply_entry env) es rt) = rt_world rt"
  "rt_config (fold (apply_entry env) es rt) = rt_config rt"
  "rt_failed (fold (apply_entry env) es rt) = rt_failed rt"
  "rt_transport (fold (apply_entry env) es rt) = rt_transport rt"
  "next_proposal_id (fold (apply_entry env) es rt) = next_proposal_id rt"
  by (induction es arbitrary: rt) (simp_all add: applied_state_def)

lemma fold_apply_waiters:
  "rt_waiters (fold (apply_entry env) es rt) i =
    (if i \<in> ce_index ` set es then None else rt_waiters rt i)"
  by (induction es arbitrary: rt) auto

lemma fold_apply_replies:
  assumes "distinct (map ce_index es)"
  shows "\<exists>new. rt_replies (fold (apply_entry env) es rt) = rt_replies rt @ new
    \<and> map fst new = List.map_filter (\<lambda>e. map_option pp_id (rt_waiters rt (ce_index e))) es
    \<and> (\<forall>k < length es. \<forall>p. rt_waiters rt (ce_index (es ! k)) = Some p \<longrightarrow>
        complete p (ce_command (es ! k)) (snd (apply_command env (ce_command (es ! k))
          (applied_state env (take k es) (rt_state rt)))) \<in> set new)"
  using assms
proof (induction es arbitrary: rt)
  case (Cons e es)
  let ?rt = "apply_entry env e rt"
  obtain new where new: "rt_replies (fold (apply_entry env) es ?rt) = rt_replies ?rt @ new"
    "map fst new = List.map_filter (\<lambda>e. map_option pp_id (rt_waiters ?rt (ce_index e))) es"
    "\<And>k p. k < length es \<Longrightarrow> rt_waiters ?rt (ce_index (es ! k)) = Some p \<Longrightarrow>
        complete p (ce_command (es ! k)) (snd (apply_command env (ce_command (es ! k))
          (applied_state env (take k es) (rt_state ?rt)))) \<in> set new"
    using Cons.IH [of ?rt] Cons.prems by auto
  have same: "rt_waiters ?rt (ce_index x) = rt_waiters rt (ce_index x)" if "x \<in> set es" for x
    using that Cons.prems by (auto simp: image_iff)
  have mf: "List.map_filter (\<lambda>e. map_option pp_id (rt_waiters ?rt (ce_index e))) es =
      List.map_filter (\<lambda>e. map_option pp_id (rt_waiters rt (ce_index e))) es"
    unfolding List.map_filter_def using same by (intro map_cong filter_cong) auto
  let ?first = "case rt_waiters rt (ce_index e) of None \<Rightarrow> []
     | Some p \<Rightarrow> [complete p (ce_command e) (snd (apply_command env (ce_command e) (rt_state rt)))]"
  show ?case
  proof (intro exI [of _ "?first @ new"] conjI allI impI)
    show "rt_replies (fold (apply_entry env) (e # es) rt) = rt_replies rt @ ?first @ new"
      using new(1) by simp
    show "map fst (?first @ new) =
        List.map_filter (\<lambda>e. map_option pp_id (rt_waiters rt (ce_index e))) (e # es)"
      using new(2) mf by (auto simp: List.map_filter_simps complete_def split: option.splits)
  next
    fix k p assume k: "k < length (e # es)" "rt_waiters rt (ce_index ((e # es) ! k)) = Some p"
    show "complete p (ce_command ((e # es) ! k)) (snd (apply_command env (ce_command ((e # es) ! k))
          (applied_state env (take k (e # es)) (rt_state rt)))) \<in> set (?first @ new)"
    proof (cases k)
      case 0
      with k show ?thesis by (simp add: applied_state_def)
    next
      case (Suc j)
      with k new(3) [of j p] same [of "es ! j"] show ?thesis by (simp add: applied_state_def)
    qed
  qed
qed (simp add: List.map_filter_simps)

lemma map_filter_map: "map g (List.map_filter f xs) = List.map_filter (\<lambda>x. map_option g (f x)) xs"
  by (induction xs) (auto simp: List.map_filter_simps split: option.splits)

lemma map_filter_id_subset:
  assumes "\<And>x y. f x = Some y \<Longrightarrow> y = x" "distinct xs"
  shows "distinct (List.map_filter f xs)"
proof -
  have "List.map_filter f xs = filter (\<lambda>x. f x \<noteq> None) xs"
    unfolding List.map_filter_def using assms(1) by (intro map_idI) auto
  with assms(2) show ?thesis by simp
qed

lemma distinct_range_excl: "distinct (range_excl a b)"
proof -
  have unat: "unat (of_nat x :: u64) = x" if "x \<in> {unat a ..< unat b}" for x
  proof (rule unat_u64_of_nat)
    have "x < unat b" using that by simp
    then show "x < 2 ^ 64" using unat_u64_lt [of b] by (rule less_trans)
  qed
  have "inj_on (of_nat :: nat \<Rightarrow> u64) {unat a ..< unat b}"
    by (rule inj_on_inverseI [of _ unat]) (rule unat)
  then show ?thesis by (simp add: range_excl_def distinct_map)
qed

lemma committed_distinct:
  assumes "wf_log (core_log (core n))"
  shows "distinct (map ce_index (committed n))"
  unfolding committed_def Let_def map_filter_map
  by (rule map_filter_id_subset [OF _ distinct_range_excl])
     (use committed_entry_index [OF assms] in auto)

lemma committed_after_fold:
  assumes "wf_log (core_log (core (rt_node rt)))"
  shows "committed (rt_node (fold (apply_entry env) (committed (rt_node rt)) rt)) = []"
  using assms
proof (induction "committed (rt_node rt)" arbitrary: rt)
  case (Cons e es)
  have c: "committed (rt_node rt) = e # es" using Cons(2) by simp
  have "es = committed (rt_node (apply_entry env e rt))"
    using committed_Cons [OF Cons(3) c] by simp
  from Cons(1) [OF this] this Cons(3) c show ?case by simp
qed simp
section \<open>What the effects change\<close>

lemma apply_committed_is_fold:
  assumes "apply_committed env rt = Some rt'"
  shows "\<exists>es. rt' = fold (apply_entry env) es rt"
  using assms
proof (rule apply_committed.raw_induct [where P = "\<lambda>env rt rt'. \<exists>es. rt' = fold (apply_entry env) es rt", rotated],
    goal_cases)
  case (1 loop env rt rt')
  show ?case
  proof (cases "committed (rt_node rt)")
    case Nil
    with 1(2) show ?thesis by (intro exI [of _ "[]"]) simp
  next
    case (Cons e es)
    then obtain xs where "rt' = fold (apply_entry env) xs (apply_entry env e rt)"
      using 1 by fastforce
    then show ?thesis by (intro exI [of _ "e # xs"]) simp
  qed
qed

lemma transport_send_tasks:
  "transport_send m t = (r, t') \<Longrightarrow> snd ` set (tasks t') \<subseteq> insert m (snd ` set (tasks t))"
  by (auto simp: transport_send_def split: option.splits if_splits)

lemma send_messages_frame:
  assumes "send_messages ms rt = (r, rt')"
  shows "\<exists>t. rt' = rt\<lparr>rt_transport := t\<rparr> \<and> (transport_inv (rt_transport rt) \<longrightarrow> transport_inv t)
    \<and> snd ` set (tasks t) \<subseteq> snd ` set (tasks (rt_transport rt)) \<union> set ms"
  using assms
proof (induction ms arbitrary: rt)
  case Nil
  then show ?case by (intro exI [of _ "rt_transport rt"]) simp
next
  case (Cons m ms)
  obtain r1 t1 where s: "transport_send m (rt_transport rt) = (r1, t1)" by force
  note fr = transport_send_tasks [OF s] transport_send_inv [OF _ s]
  show ?case
  proof (cases r1)
    case (Inl e)
    with s Cons.prems fr show ?thesis by (intro exI [of _ t1]) (auto simp: send_message_def)
  next
    case (Inr u)
    with s Cons.prems have "send_messages ms (rt\<lparr>rt_transport := t1\<rparr>) = (r, rt')"
      by (simp add: send_message_def)
    from Cons.IH [OF this] obtain t where t: "rt' = rt\<lparr>rt_transport := t\<rparr>"
      "transport_inv t1 \<longrightarrow> transport_inv t" "snd ` set (tasks t) \<subseteq> snd ` set (tasks t1) \<union> set ms"
      by auto
    have "snd ` set (tasks t) \<subseteq> snd ` set (tasks (rt_transport rt)) \<union> set (m # ms)"
      using fr(1) t(3) by (simp only: list.set) blast
    with fr(2) t show ?thesis by blast
  qed
qed

lemma store_save_durable:
  assumes "store_save encode crc current s = Some (r, s')"
  shows "st_durable (fst s') = (if r = Inr () then current else st_durable (fst s))"
proof (cases "snapshot_index (p_log current) = snapshot_index (p_log (st_durable (fst s)))")
  case True
  then obtain delta where d: "delta_of (st_durable (fst s)) current = Some delta"
    using assms by (auto simp: store_save_def)
  show ?thesis
  proof (cases "encode delta")
    case None
    with True d assms show ?thesis by (auto simp: store_save_def)
  next
    case (Some bs)
    obtain ra wal w where wa: "wal_append crc (st_kind (fst s)) bs (st_wal (fst s), snd s) = (ra, (wal, w))"
      by (metis surj_pair)
    obtain rb wal' w' where ws: "wal_sync (wal, w) = (rb, (wal', w'))" by (metis surj_pair)
    from True d Some wa ws assms show ?thesis by (cases ra; cases rb) (auto simp: store_save_def)
  qed
qed (use assms in \<open>auto simp: store_save_def\<close>)

lemma save_nodeD:
  assumes "save_node env rt = Some (r, rt')"
  obtains st w where "rt' = rt\<lparr>rt_store := st, rt_world := w\<rparr>"
    "st_durable st = (if r = Inr () then persistent (core (rt_node rt)) else st_durable (rt_store rt))"
    "\<exists>r0. store_save (delta_to_vec env) (env_crc env) (persistent (core (rt_node rt)))
       (rt_store rt, rt_world rt) = Some (r0, (st, w)) \<and> r = map_sum StoreFailed id r0"
proof -
  obtain r0 st w where s: "store_save (delta_to_vec env) (env_crc env) (persistent (core (rt_node rt)))
      (rt_store rt, rt_world rt) = Some (r0, (st, w))" "r = map_sum StoreFailed id r0"
    "rt' = rt\<lparr>rt_store := st, rt_world := w\<rparr>"
    using assms by (auto simp: save_node_def)
  then have "(r = Inr ()) = (r0 = Inr ())" by (cases r0) auto
  with that s store_save_durable [OF s(1)] show thesis by auto
qed

text \<open>The state was saved if the effects asked for it.\<close>

definition saved :: "Env \<Rightarrow> Effects \<Rightarrow> RaftRuntime \<Rightarrow> RaftRuntime \<Rightarrow> bool" where
  "saved env eff rt rt1 =
    (if persist eff then save_node env rt = Some (Inr (), rt1) else rt1 = rt)"

lemma savedD:
  assumes "saved env eff rt rt1"
  shows "rt_node rt1 = rt_node rt" "rt_transport rt1 = rt_transport rt" "rt_state rt1 = rt_state rt"
    "rt_waiters rt1 = rt_waiters rt" "rt_replies rt1 = rt_replies rt"
    "next_proposal_id rt1 = next_proposal_id rt" "rt_failed rt1 = rt_failed rt"
    "rt_config rt1 = rt_config rt"
    "st_durable (rt_store rt1) =
      (if persist eff then persistent (core (rt_node rt)) else st_durable (rt_store rt))"
  using assms by (auto simp: saved_def split: if_splits elim!: save_nodeD)

text \<open>How far the effects of a step got: the save failed; sending stopped; or everything was sent and
  some committed entries were applied, all of them unless the task was dropped.\<close>

inductive effects_done :: "Env \<Rightarrow> Effects \<Rightarrow> RaftRuntime \<Rightarrow> RuntimeError + unit \<Rightarrow> RaftRuntime \<Rightarrow> bool"
  for env :: Env and eff :: Effects and rt :: RaftRuntime where
  save_failed: "persist eff \<Longrightarrow> save_node env rt = Some (Inl e, rt') \<Longrightarrow> effects_done env eff rt (Inl e) rt'"
| stopped: "saved env eff rt rt1 \<Longrightarrow> send_messages ms rt1 = (r1, rt') \<Longrightarrow> set ms \<subseteq> set (messages eff) \<Longrightarrow>
    effects_done env eff rt (Inl e) rt'"
| finished: "saved env eff rt rt1 \<Longrightarrow> send_messages (messages eff) rt1 = (Inr (), rt2) \<Longrightarrow>
    send_snapshots eff = [] \<Longrightarrow> effects_done env eff rt (Inr ()) (fold (apply_entry env) es rt2)"

lemma effects_doneE [consumes 1, case_names save_failed stopped finished]:
  assumes "effects_done env eff rt r rt'"
  obtains (save_failed) e where "persist eff" "save_node env rt = Some (Inl e, rt')" "r = Inl e"
  | (stopped) rt1 ms r1 e where "saved env eff rt rt1" "send_messages ms rt1 = (r1, rt')"
      "set ms \<subseteq> set (messages eff)" "r = Inl e"
  | (finished) rt1 rt2 es where "saved env eff rt rt1" "send_messages (messages eff) rt1 = (Inr (), rt2)"
      "send_snapshots eff = []" "rt' = fold (apply_entry env) es rt2" "r = Inr ()"
  using assms by cases blast+

lemma handle_node_effects_done:
  assumes "handle_node_effects env eff rt = Some (r, rt')"
  shows "effects_done env eff rt r rt'"
proof -
  obtain r1 rt1 where s: "(if persist eff then save_node env rt else Some (Inr (), rt)) = Some (r1, rt1)"
    and rest: "(case r1 of Inl e \<Rightarrow> Some (Inl e, rt1)
      | Inr _ \<Rightarrow>
          if send_snapshots eff \<noteq> [] then Some (Inl SnapshotTransportUnsupported, rt1)
          else
            (case send_messages (messages eff) rt1 of
               (Inl e, rt) \<Rightarrow> Some (Inl e, rt)
             | (Inr _, rt) \<Rightarrow> do { rt \<leftarrow> apply_committed env rt; Some (Inr (), rt) })) = Some (r, rt')"
    using assms by (auto simp: handle_node_effects_def bind_eq_Some_conv)
  show ?thesis
  proof (cases r1)
    case (Inl e)
    with s rest show ?thesis by (auto split: if_splits intro: save_failed)
  next
    case (Inr u)
    then have sv: "saved env eff rt rt1" using s by (auto simp: saved_def split: if_splits)
    show ?thesis
    proof (cases "send_snapshots eff = []")
      case False
      with rest Inr sv show ?thesis by (auto intro: stopped [where ms = "[]"])
    next
      case True
      obtain r2 rt2 where sm: "send_messages (messages eff) rt1 = (r2, rt2)" by force
      show ?thesis
      proof (cases r2)
        case (Inl e)
        with True rest Inr sv sm show ?thesis by (auto intro: stopped)
      next
        case r2: (Inr u2)
        with True rest Inr sm have ac: "apply_committed env rt2 = Some rt'" "r = Inr ()"
          by (auto simp: bind_eq_Some_conv)
        obtain es where "rt' = fold (apply_entry env) es rt2" using apply_committed_is_fold [OF ac(1)] by blast
        with True sv sm r2 ac show ?thesis by (auto intro: finished)
      qed
    qed
  qed
qed

lemma apply_some_is_fold: "apply_some env k rt = Some rt' \<Longrightarrow> \<exists>es. rt' = fold (apply_entry env) es rt"
proof (induction k arbitrary: rt)
  case 0
  then show ?case by (intro exI [of _ "[]"]) (simp split: if_splits)
next
  case (Suc k)
  then obtain e es' where "committed (rt_node rt) = e # es'" by (cases "committed (rt_node rt)") auto
  with Suc obtain es where "rt' = fold (apply_entry env) es (apply_entry env e rt)" by fastforce
  then show ?case by (intro exI [of _ "e # es"]) simp
qed

lemma handle_cancelled_done:
  assumes "handle_cancelled env k eff rt = Some rt'"
  shows "effects_done env eff rt (Inr ()) rt'"
proof -
  obtain r1 rt1 where s: "(if persist eff then save_node env rt else Some (Inr (), rt)) = Some (r1, rt1)"
    using assms by (auto simp: handle_cancelled_def bind_eq_Some_conv)
  with assms have r1: "r1 = Inr ()" and sn: "send_snapshots eff = []"
    by (cases r1; auto simp: handle_cancelled_def split: if_splits)+
  obtain r2 rt2 where sm: "send_messages (messages eff) rt1 = (r2, rt2)" by force
  with assms s r1 sn have "r2 = Inr ()" "apply_some env k rt2 = Some rt'"
    by (cases r2; auto simp: handle_cancelled_def)+
  moreover have "saved env eff rt rt1" using s r1 by (auto simp: saved_def split: if_splits)
  ultimately show ?thesis using sm sn apply_some_is_fold finished by blast
qed

section \<open>Operations\<close>

text \<open>What an operation does while it holds the lock.\<close>

datatype Op = OpStep Message | OpTick | OpPropose u64 bytes

fun run_op :: "Env \<Rightarrow> Op \<Rightarrow> RaftRuntime \<Rightarrow> RaftRuntime option" where
  "run_op env (OpStep m) rt = map_option snd (step_locked env m rt)"
| "run_op env OpTick rt = map_option snd (tick_locked env rt)"
| "run_op env (OpPropose i bs) rt = map_option snd (propose_locked env i bs rt)"

text \<open>The same when its task is dropped on the way; the loop that ticks is never dropped.\<close>

fun cancel_op :: "Env \<Rightarrow> nat \<Rightarrow> Op \<Rightarrow> RaftRuntime \<Rightarrow> RaftRuntime option" where
  "cancel_op env k (OpStep m) rt = step_cancelled env k m rt"
| "cancel_op env k OpTick rt = None"
| "cancel_op env k (OpPropose i bs) rt = propose_cancelled env k i bs rt"

definition op_result :: "Env \<Rightarrow> Op \<Rightarrow> RaftRuntime \<Rightarrow> RaftRuntime \<Rightarrow> bool" where
  "op_result env op rt rt' \<longleftrightarrow> run_op env op rt = Some rt' \<or> (\<exists>k. cancel_op env k op rt = Some rt')"

text \<open>The node's step in an operation: the node afterwards and its effects; a proposal also names
  the waiter it registers. A refused proposal has no step.\<close>

fun node_op :: "Op \<Rightarrow> RaftNode \<Rightarrow> (RaftNode \<times> Effects) option" where
  "node_op (OpStep m) n = node_step n m"
| "node_op OpTick n = node_tick n"
| "node_op (OpPropose i bs) n =
    (case propose n (Command bs) of Some (n', Inr (idx, eff)) \<Rightarrow> Some (n', eff) | _ \<Rightarrow> None)"

lemma propose_refused_same: "propose n cmd = Some (n', Inl e) \<Longrightarrow> n' = n"
  by (auto simp: propose_def bind_eq_Some_conv split: RoleState.splits if_splits)

text \<open>The waiters after registering a proposal.\<close>

fun new_waiter :: "Op \<Rightarrow> LogIndex \<Rightarrow> (LogIndex \<rightharpoonup> PendingProposal) \<Rightarrow> LogIndex \<rightharpoonup> PendingProposal" where
  "new_waiter (OpPropose i bs) idx ws = ws(idx \<mapsto> \<lparr>pp_id = i, pp_command = bs\<rparr>)"
| "new_waiter _ idx ws = ws"

lemma remove_pending_eq:
  obtains ws where "remove_pending idx i rt = rt\<lparr>rt_waiters := ws\<rparr>" "ws \<subseteq>\<^sub>m rt_waiters rt"
proof (cases "\<exists>p. rt_waiters rt idx = Some p \<and> pp_id p = i")
  case True
  then show thesis
    by (intro that [of "(rt_waiters rt)(idx := None)"]) (auto simp: remove_pending_def map_le_def)
next
  case False
  then have "remove_pending idx i rt = rt" by (auto simp: remove_pending_def split: option.splits)
  then show thesis by (intro that [of "rt_waiters rt"]) simp_all
qed

text \<open>An operation is a step of the node, then its effects, as far as they got; after an error the
  runtime has failed, and a proposal may be waiting no more.\<close>

definition op_ran :: "Env \<Rightarrow> Op \<Rightarrow> RaftRuntime \<Rightarrow> RaftRuntime \<Rightarrow> bool" where
  "op_ran env op rt rt' \<longleftrightarrow> (\<exists>n eff idx r rt1 ws. node_op op (rt_node rt) = Some (n, eff)
    \<and> effects_done env eff (rt\<lparr>rt_node := n, rt_waiters := new_waiter op idx (rt_waiters rt)\<rparr>) r rt1
    \<and> rt' = rt1\<lparr>rt_waiters := ws, rt_failed := (rt_failed rt1 \<or> r \<noteq> Inr ())\<rparr> \<and> ws \<subseteq>\<^sub>m rt_waiters rt1)"

lemma op_ranI:
  assumes "node_op op (rt_node rt) = Some (n, eff)"
    and "effects_done env eff (rt\<lparr>rt_node := n, rt_waiters := new_waiter op idx (rt_waiters rt)\<rparr>) r rt1"
    and "rt' = rt1\<lparr>rt_waiters := ws, rt_failed := (rt_failed rt1 \<or> r \<noteq> Inr ())\<rparr>" "ws \<subseteq>\<^sub>m rt_waiters rt1"
  shows "op_ran env op rt rt'"
  using assms unfolding op_ran_def by blast

lemma fail_on_eq: "snd (fail_on (r, rt)) = rt\<lparr>rt_waiters := rt_waiters rt, rt_failed := (rt_failed rt \<or> r \<noteq> Inr ())\<rparr>"
  by (cases r) (simp_all add: fail_on_def)

lemma new_node_eq: "rt\<lparr>rt_node := n, rt_waiters := rt_waiters rt\<rparr> = rt\<lparr>rt_node := n\<rparr>"
  by simp

lemma event_op_ran:
  assumes "node_op op (rt_node rt) = Some (n, eff)" "\<And>idx ws. new_waiter op idx ws = ws"
    and "handle_node_effects env eff (rt\<lparr>rt_node := n\<rparr>) = Some (r, rt1)" "rt' = snd (fail_on (r, rt1))"
  shows "op_ran env op rt rt'"
  by (rule op_ranI [OF assms(1), of _ 0 r rt1 rt' "rt_waiters rt1"])
     (use assms(2-4) handle_node_effects_done in \<open>simp_all add: fail_on_eq new_node_eq\<close>)

lemma propose_ran:
  assumes "propose_locked env i bs rt = Some (res, rt')"
  shows "rt' = rt \<or> op_ran env (OpPropose i bs) rt rt'"
proof -
  from assms obtain n r where p: "propose (rt_node rt) (Command bs) = Some (n, r)"
    by (auto simp: propose_locked_def bind_eq_Some_conv)
  show ?thesis
  proof (cases r)
    case (Inl e)
    with p assms propose_refused_same [of "rt_node rt" "Command bs" n e] show ?thesis
      by (auto simp: propose_locked_def)
  next
    case (Inr x)
    obtain idx eff where x: "x = (idx, eff)" by force
    let ?base = "rt\<lparr>rt_node := n, rt_waiters := new_waiter (OpPropose i bs) idx (rt_waiters rt)\<rparr>"
    obtain r1 rt1 where h: "handle_node_effects env eff ?base = Some (r1, rt1)"
      using assms p Inr x by (cases "handle_node_effects env eff ?base") (auto simp: propose_locked_def)
    have rt': "rt' = (case r1 of Inl e \<Rightarrow> (remove_pending idx i rt1)\<lparr>rt_failed := True\<rparr> | Inr _ \<Rightarrow> rt1)"
      using assms p Inr x h by (cases r1) (auto simp: propose_locked_def)
    obtain ws where ws: "remove_pending idx i rt1 = rt1\<lparr>rt_waiters := ws\<rparr>" "ws \<subseteq>\<^sub>m rt_waiters rt1"
      by (rule remove_pending_eq)
    have n: "node_op (OpPropose i bs) (rt_node rt) = Some (n, eff)" using p Inr x by simp
    show ?thesis
    proof (cases r1)
      case (Inl e)
      with rt' ws show ?thesis by (intro disjI2 op_ranI [OF n handle_node_effects_done [OF h], of _ ws]) simp_all
    next
      case (Inr u)
      with rt' show ?thesis
        by (intro disjI2 op_ranI [OF n handle_node_effects_done [OF h], of _ "rt_waiters rt1"]) simp_all
    qed
  qed
qed

lemma run_op_ran:
  assumes "run_op env op rt = Some rt'"
  shows "rt' = rt \<or> op_ran env op rt rt'"
proof (cases op)
  case (OpStep m)
  with assms show ?thesis
    by (auto simp: step_locked_def bind_eq_Some_conv intro: event_op_ran)
next
  case OpTick
  with assms show ?thesis
    by (auto simp: tick_locked_def bind_eq_Some_conv intro: event_op_ran)
next
  case (OpPropose i bs)
  with assms show ?thesis by (auto dest: propose_ran)
qed

lemma cancel_op_ran:
  assumes "cancel_op env k op rt = Some rt'"
  shows "op_ran env op rt rt'"
proof (cases op)
  case (OpStep m)
  with assms obtain n eff where "node_step (rt_node rt) m = Some (n, eff)"
    and h: "handle_cancelled env k eff (rt\<lparr>rt_node := n\<rparr>) = Some rt'"
    by (auto simp: step_cancelled_def bind_eq_Some_conv)
  with OpStep handle_cancelled_done [OF h] show ?thesis
    by (intro op_ranI [of _ _ n eff _ 0 "Inr ()" rt' _ "rt_waiters rt'"]) (simp_all add: new_node_eq)
next
  case (OpPropose i bs)
  with assms obtain n r where p: "propose (rt_node rt) (Command bs) = Some (n, r)"
    by (auto simp: propose_cancelled_def bind_eq_Some_conv)
  with assms OpPropose obtain idx eff where r: "r = Inr (idx, eff)" by (cases r) (auto simp: propose_cancelled_def)
  let ?base = "rt\<lparr>rt_node := n, rt_waiters := new_waiter (OpPropose i bs) idx (rt_waiters rt)\<rparr>"
  obtain rt1 where h: "handle_cancelled env k eff ?base = Some rt1" "rt' = remove_pending idx i rt1"
    using assms OpPropose p r by (auto simp: propose_cancelled_def)
  obtain ws where "remove_pending idx i rt1 = rt1\<lparr>rt_waiters := ws\<rparr>" "ws \<subseteq>\<^sub>m rt_waiters rt1"
    by (rule remove_pending_eq)
  with OpPropose p r h(2) handle_cancelled_done [OF h(1)] show ?thesis
    by (intro op_ranI [of _ _ n eff _ idx "Inr ()" rt1 _ ws]) simp_all
qed (use assms in simp)

lemma op_resultE [consumes 1, case_names refused ran]:
  assumes "op_result env op rt rt'"
  obtains (refused) "rt' = rt"
  | (ran) n eff idx r rt1 ws where "node_op op (rt_node rt) = Some (n, eff)"
      "effects_done env eff (rt\<lparr>rt_node := n, rt_waiters := new_waiter op idx (rt_waiters rt)\<rparr>) r rt1"
      "rt' = rt1\<lparr>rt_waiters := ws, rt_failed := (rt_failed rt1 \<or> r \<noteq> Inr ())\<rparr>"
      "ws \<subseteq>\<^sub>m rt_waiters rt1"
proof -
  have "rt' = rt \<or> op_ran env op rt rt'"
    using assms run_op_ran cancel_op_ran unfolding op_result_def by blast
  with that show thesis unfolding op_ran_def by blast
qed

section \<open>Saving before sending\<close>

definition synced :: "RaftRuntime \<Rightarrow> bool" where
  "synced rt \<longleftrightarrow> st_durable (rt_store rt) = persistent (core (rt_node rt))"

text \<open>Something left the machine: a message, an answer, or a change of the key-value state.\<close>

definition released :: "RaftRuntime \<Rightarrow> RaftRuntime \<Rightarrow> bool" where
  "released rt rt' \<longleftrightarrow> rt_transport rt' \<noteq> rt_transport rt \<or> rt_replies rt' \<noteq> rt_replies rt
    \<or> rt_state rt' \<noteq> rt_state rt"

definition op_agrees :: "Log \<Rightarrow> Op \<Rightarrow> bool" where
  "op_agrees l op = (case op of OpStep m \<Rightarrow> agrees l (Msg m) | _ \<Rightarrow> True)"

lemma node_op_unpersisted:
  assumes "node_op op n = Some (n', eff)" "\<not> persist eff"
    and "wf_log (core_log (core n))" "op_agrees (core_log (core n)) op"
  shows "persistent (core n') = persistent (core n)"
proof (cases op)
  case (OpStep m)
  with assms show ?thesis
    by (auto simp: node_step_def op_agrees_def intro: step_event_unpersisted)
next
  case OpTick
  with assms show ?thesis
    by (auto simp: node_tick_def agrees_def intro: step_event_unpersisted)
next
  case (OpPropose i bs)
  with assms(1,2) show ?thesis
    by (auto split: option.splits prod.splits sum.splits dest: propose_post(3))
qed

lemma fold_apply_persistent [simp]:
  "persistent (core (rt_node (fold (apply_entry env) es rt))) = persistent (core (rt_node rt))"
  by (simp add: fold_apply_sel)

lemma op_result_synced:
  assumes "op_result env op rt rt'" "synced rt"
    and "wf_log (core_log (core (rt_node rt)))" "op_agrees (core_log (core (rt_node rt))) op"
  shows "(released rt rt' \<longrightarrow> synced rt') \<and> (synced rt' \<or> rt_failed rt')"
  using assms(1)
proof (cases rule: op_resultE)
  case refused
  with assms(2) show ?thesis by simp
next
  case (ran n eff idx r rt1 ws)
  let ?base = "rt\<lparr>rt_node := n, rt_waiters := new_waiter op idx (rt_waiters rt)\<rparr>"
  have keep: "synced rt2" if "saved env eff ?base rt2" for rt2
    using savedD(1,9) [OF that] node_op_unpersisted [OF ran(1) _ assms(3,4)] assms(2)
    by (auto simp: synced_def split: if_splits)
  have sy: "synced rt' = synced rt1" by (simp add: synced_def ran(3))
  from ran(2) show ?thesis
  proof (cases rule: effects_doneE)
    case (save_failed e)
    then have "\<not> released rt rt'"
      by (elim save_nodeD) (simp add: released_def ran(3))
    moreover have "rt_failed rt'" using ran(3) save_failed(3) by simp
    ultimately show ?thesis by blast
  next
    case (stopped rt2 ms r1 e)
    then obtain t where "rt1 = rt2\<lparr>rt_transport := t\<rparr>" using send_messages_frame by blast
    with keep [OF stopped(1)] sy show ?thesis by (simp add: synced_def)
  next
    case (finished rt2 rt3 es)
    then obtain t where "rt3 = rt2\<lparr>rt_transport := t\<rparr>" using send_messages_frame by blast
    with keep [OF finished(1)] sy finished(4) show ?thesis by (simp add: synced_def fold_apply_sel(3))
  qed
qed

end
