(* ===== verification/Interleave.thy ===== *)
theory Interleave
  imports RuntimeInv
begin

text \<open>
  The concurrent tasks of a node runtime as interleaved steps on the shared state, and two
  invariants of it: every proposal is answered at most once, and the messages in flight to a
  peer are bounded by its permits.
\<close>

section \<open>Concurrent operations\<close>

text \<open>The tasks of a node, interleaved. An operation is admitted by the check of the failure flag,
  then waits for the lock and runs while it holds it; other operations may run in between. Its
  task may be dropped while it waits, or while it runs (\<open>op_result\<close> has both endings). A
  waiting proposal ends (with its answer, by the timeout, or because the client is gone) and a
  message that was sent gives its permit back. \<open>adm\<close> are the admitted operations that have not
  run yet.\<close>

inductive interleaved :: "Env \<Rightarrow> RaftRuntime \<Rightarrow> Op list \<Rightarrow> RaftRuntime \<Rightarrow> bool"
  for env :: Env and rt0 :: RaftRuntime where
  start: "interleaved env rt0 [] rt0"
| admit_step: "interleaved env rt0 adm rt \<Longrightarrow> \<not> rt_failed rt \<Longrightarrow>
    interleaved env rt0 (OpStep m # adm) rt"
| admit_tick: "interleaved env rt0 adm rt \<Longrightarrow> \<not> rt_failed rt \<Longrightarrow>
    interleaved env rt0 (OpTick # adm) rt"
| admit_propose: "interleaved env rt0 adm rt \<Longrightarrow> \<not> rt_failed rt \<Longrightarrow>
    checked_add (next_proposal_id rt) 1 = Some j \<Longrightarrow> command_to_vec env c = Some bs \<Longrightarrow>
    interleaved env rt0 (OpPropose (next_proposal_id rt) bs # adm) (rt\<lparr>next_proposal_id := j\<rparr>)"
| run: "interleaved env rt0 adm rt \<Longrightarrow> op \<in> set adm \<Longrightarrow> op_result env op rt rt' \<Longrightarrow>
    interleaved env rt0 (remove1 op adm) rt'"
| drop: "interleaved env rt0 adm rt \<Longrightarrow> op \<in> set adm \<Longrightarrow> interleaved env rt0 (remove1 op adm) rt"
| finish: "interleaved env rt0 adm rt \<Longrightarrow> interleaved env rt0 adm (remove_pending idx i rt)"
| sent: "interleaved env rt0 adm rt \<Longrightarrow>
    interleaved env rt0 adm (rt\<lparr>rt_transport := task_done k (rt_transport rt)\<rparr>)"

text \<open>A tick or a proposal that does not wait for the lock.\<close>

lemma tick_once_interleaved:
  assumes "interleaved env rt0 adm rt" "tick_once env rt = Some (r, rt')"
  shows "interleaved env rt0 adm rt'"
proof (cases "rt_failed rt")
  case False
  with assms(1) have "interleaved env rt0 (OpTick # adm) rt" by (rule interleaved.admit_tick)
  from interleaved.run [OF this, of OpTick rt'] False assms(2) show ?thesis by (simp add: tick_once_def op_result_def)
qed (use assms in \<open>simp add: tick_once_def\<close>)

lemma propose_start_interleaved:
  assumes "interleaved env rt0 adm rt" "propose_start env c rt = Some (Inr cleanup, rt')"
  shows "interleaved env rt0 adm rt'"
proof -
  from assms(2) obtain i bs where s: "\<not> rt_failed rt" "checked_add (next_proposal_id rt) 1 = Some i"
    "command_to_vec env c = Some bs"
    "propose_locked env (next_proposal_id rt) bs (rt\<lparr>next_proposal_id := i\<rparr>) = Some (Inr cleanup, rt')"
    by (auto simp: propose_start_def split: if_splits option.splits)
  from interleaved.admit_propose [OF assms(1) s(1-3)] s(4) show ?thesis
    using interleaved.run [of env rt0 "OpPropose (next_proposal_id rt) bs # adm" "rt\<lparr>next_proposal_id := i\<rparr>"
        "OpPropose (next_proposal_id rt) bs" rt'] by (simp add: op_result_def)
qed

subsection \<open>Identifiers of proposals\<close>

text \<open>Every identifier is admitted, waiting or answered, and only one of these, once.\<close>

definition op_id :: "Op \<Rightarrow> u64 option" where
  "op_id op = (case op of OpPropose i _ \<Rightarrow> Some i | _ \<Rightarrow> None)"

definition op_ids :: "Op list \<Rightarrow> u64 list" where
  "op_ids adm = List.map_filter op_id adm"

definition ids_inv :: "Op list \<Rightarrow> RaftRuntime \<Rightarrow> bool" where
  "ids_inv adm rt \<longleftrightarrow>
    distinct (op_ids adm @ map fst (rt_replies rt))
    \<and> (\<forall>i \<in> set (op_ids adm @ map fst (rt_replies rt)). i < next_proposal_id rt)
    \<and> (\<forall>x p. rt_waiters rt x = Some p \<longrightarrow>
        pp_id p < next_proposal_id rt \<and> pp_id p \<notin> set (op_ids adm @ map fst (rt_replies rt)))
    \<and> (\<forall>x y p q. rt_waiters rt x = Some p \<and> rt_waiters rt y = Some q \<and> pp_id p = pp_id q \<longrightarrow> x = y)"

lemma op_ids_Cons [simp]: "op_ids (op # adm) = (case op_id op of None \<Rightarrow> [] | Some i \<Rightarrow> [i]) @ op_ids adm"
  by (simp add: op_ids_def List.map_filter_simps split: option.splits)

lemma op_ids_Nil [simp]: "op_ids [] = []"
  by (simp add: op_ids_def List.map_filter_simps)

lemma op_ids_remove1:
  "set (op_ids (remove1 op adm)) \<subseteq> set (op_ids adm)"
  "distinct (op_ids adm) \<Longrightarrow> distinct (op_ids (remove1 op adm))"
  "op \<in> set adm \<Longrightarrow> op_id op = Some i \<Longrightarrow> i \<in> set (op_ids adm)"
  "distinct (op_ids adm) \<Longrightarrow> op \<in> set adm \<Longrightarrow> op_id op = Some i \<Longrightarrow> i \<notin> set (op_ids (remove1 op adm))"
proof -
  show sub: "set (op_ids (remove1 op adm)) \<subseteq> set (op_ids adm)" for adm
    by (induction adm) auto
  show mem: "op \<in> set adm \<Longrightarrow> op_id op = Some i \<Longrightarrow> i \<in> set (op_ids adm)" for adm
    by (induction adm) auto
  show "distinct (op_ids adm) \<Longrightarrow> distinct (op_ids (remove1 op adm))"
    using sub by (induction adm) (auto split: option.splits)
  show "distinct (op_ids adm) \<Longrightarrow> op \<in> set adm \<Longrightarrow> op_id op = Some i \<Longrightarrow> i \<notin> set (op_ids (remove1 op adm))"
    using mem by (induction adm) (auto split: option.splits)
qed

text \<open>Dropping admitted operations and waiters keeps the invariant.\<close>

lemma ids_inv_shrink:
  assumes "ids_inv adm rt" "set (op_ids adm') \<subseteq> set (op_ids adm)" "distinct (op_ids adm')"
    and "rt_waiters rt' \<subseteq>\<^sub>m rt_waiters rt" "rt_replies rt' = rt_replies rt"
    and "next_proposal_id rt' = next_proposal_id rt"
  shows "ids_inv adm' rt'"
proof -
  have w: "rt_waiters rt x = Some p" if "rt_waiters rt' x = Some p" for x p
    using that assms(4) by (metis domI map_le_def)
  note inv = assms(1) [unfolded ids_inv_def]
  show ?thesis
    unfolding ids_inv_def assms(5,6)
  proof (intro conjI allI impI ballI)
    show "distinct (op_ids adm' @ map fst (rt_replies rt))" using inv assms(2,3) by auto
  next
    fix i assume "i \<in> set (op_ids adm' @ map fst (rt_replies rt))"
    with assms(2) have "i \<in> set (op_ids adm @ map fst (rt_replies rt))" by auto
    with inv show "i < next_proposal_id rt" by blast
  next
    fix x p assume x: "rt_waiters rt' x = Some p"
    with inv w show "pp_id p < next_proposal_id rt" by blast
    have "pp_id p \<notin> set (op_ids adm @ map fst (rt_replies rt))" using inv w [OF x] by blast
    with assms(2) show "pp_id p \<notin> set (op_ids adm' @ map fst (rt_replies rt))" by auto
  next
    fix x y p q
    assume "rt_waiters rt' x = Some p \<and> rt_waiters rt' y = Some q \<and> pp_id p = pp_id q"
    with inv w show "x = y" by blast
  qed
qed

lemma ids_inv_distinct: "ids_inv adm rt \<Longrightarrow> distinct (op_ids adm)"
  by (simp add: ids_inv_def)

lemma ids_inv_ops: "op_ids adm' = op_ids adm \<Longrightarrow> ids_inv adm' rt = ids_inv adm rt"
  by (simp only: ids_inv_def)

lemma ids_inv_same:
  assumes "ids_inv adm rt" "rt_waiters rt' = rt_waiters rt" "rt_replies rt' = rt_replies rt"
    and "next_proposal_id rt' = next_proposal_id rt"
  shows "ids_inv adm rt'"
  using assms by (simp add: ids_inv_def)

lemma apply_entry_ids: "ids_inv adm rt \<Longrightarrow> ids_inv adm (apply_entry env e rt)"
  unfolding ids_inv_def by (cases "rt_waiters rt (ce_index e)") (auto simp: complete_def split: if_splits)

lemma fold_apply_ids: "ids_inv adm rt \<Longrightarrow> ids_inv adm (fold (apply_entry env) es rt)"
  by (induction es arbitrary: rt) (simp_all add: apply_entry_ids)

lemma new_waiter_ids:
  assumes "ids_inv adm rt" "op \<in> set adm"
  shows "ids_inv (remove1 op adm) (rt\<lparr>rt_node := n, rt_waiters := new_waiter op idx (rt_waiters rt)\<rparr>)"
proof (cases op)
  case (OpPropose i bs)
  then have i: "op_id op = Some i" by (simp add: op_id_def)
  have d: "distinct (op_ids adm)" using assms(1) by (simp add: ids_inv_def)
  note o = op_ids_remove1(1) [of op adm] op_ids_remove1(2) [OF d, of op] op_ids_remove1(3) [OF assms(2) i]
    op_ids_remove1(4) [OF d assms(2) i]
  show ?thesis using assms(1) o OpPropose unfolding ids_inv_def by (auto split: if_splits)
next
  case (OpStep m)
  with assms op_ids_remove1(1) [of op adm] op_ids_remove1(2) [of adm op] show ?thesis
    by (intro ids_inv_shrink [OF assms(1)]) (simp_all add: ids_inv_distinct)
next
  case OpTick
  with assms op_ids_remove1(1) [of op adm] op_ids_remove1(2) [of adm op] show ?thesis
    by (intro ids_inv_shrink [OF assms(1)]) (simp_all add: ids_inv_distinct)
qed

lemma effects_done_ids:
  assumes "effects_done env eff base r rt1" "ids_inv adm base"
  shows "ids_inv adm rt1"
  using assms(1)
proof (cases rule: effects_doneE)
  case (save_failed e)
  then show ?thesis by (elim save_nodeD) (use assms(2) in \<open>simp add: ids_inv_def\<close>)
next
  case (stopped rt2 ms r1 e)
  then obtain t where "rt1 = rt2\<lparr>rt_transport := t\<rparr>" using send_messages_frame by blast
  with savedD(4-6) [OF stopped(1)] assms(2) show ?thesis by (intro ids_inv_same [OF assms(2)]) simp_all
next
  case (finished rt2 rt3 es)
  then obtain t where "rt3 = rt2\<lparr>rt_transport := t\<rparr>" using send_messages_frame by blast
  with savedD(4-6) [OF finished(1)] have "ids_inv adm rt3"
    by (intro ids_inv_same [OF assms(2)]) simp_all
  then show ?thesis using finished(4) fold_apply_ids by blast
qed

lemma op_result_ids:
  assumes "op_result env op rt rt'" "ids_inv adm rt" "op \<in> set adm"
  shows "ids_inv (remove1 op adm) rt'"
  using assms(1)
proof (cases rule: op_resultE)
  case refused
  then show ?thesis
    using op_ids_remove1(1) [of op adm] op_ids_remove1(2) [of adm op] assms(2)
    by (intro ids_inv_shrink [OF assms(2)]) (simp_all add: ids_inv_distinct)
next
  case (ran n eff idx r rt1 ws)
  have i: "ids_inv (remove1 op adm) rt1"
    using ran(2) new_waiter_ids [OF assms(2,3)] by (rule effects_done_ids)
  show ?thesis
    by (rule ids_inv_shrink [OF i]) (use ran(3,4) ids_inv_distinct [OF i] in simp_all)
qed

lemma remove_pending_sel:
  "rt_waiters (remove_pending idx i rt) \<subseteq>\<^sub>m rt_waiters rt"
  "rt_replies (remove_pending idx i rt) = rt_replies rt"
  "next_proposal_id (remove_pending idx i rt) = next_proposal_id rt"
  "rt_transport (remove_pending idx i rt) = rt_transport rt"
  "rt_state (remove_pending idx i rt) = rt_state rt"
  by (auto simp: remove_pending_def map_le_def split: option.splits)

lemma admit_ids:
  assumes "ids_inv adm rt" "checked_add (next_proposal_id rt) 1 = Some j"
  shows "ids_inv (OpPropose (next_proposal_id rt) bs # adm) (rt\<lparr>next_proposal_id := j\<rparr>)"
proof -
  let ?k = "next_proposal_id rt" and ?ids = "op_ids adm @ map fst (rt_replies rt)"
  have "unat j = unat ?k + 1" using assms(2) by (simp add: checked_add_Some_iff)
  then have j: "?k < j" by (simp add: u64_nat)
  note inv = assms(1) [unfolded ids_inv_def]
  have below: "i < ?k" if "i \<in> set ?ids" for i using inv that by blast
  have wait: "pp_id p < ?k \<and> pp_id p \<notin> set ?ids" if "rt_waiters rt x = Some p" for x p
    using inv that by blast
  have inj: "x = y" if "rt_waiters rt x = Some p" "rt_waiters rt y = Some q" "pp_id p = pp_id q" for x y p q
    using inv that by blast
  have new: "?k \<notin> set ?ids" using below by blast
  show ?thesis
    unfolding ids_inv_def
  proof (intro conjI allI impI ballI, goal_cases)
    case 1
    have "distinct ?ids" using inv by blast
    with new show ?case by (simp add: op_id_def)
  next
    case (2 i)
    then have "i = ?k \<or> i \<in> set ?ids" by (simp add: op_id_def)
    then have "i < j"
    proof
      assume "i \<in> set ?ids"
      from below [OF this] j show ?thesis by (rule less_trans)
    qed (use j in simp)
    then show ?case by simp
  next
    case (3 x p)
    then have "pp_id p < ?k" using wait [of x p] by simp
    then have "pp_id p < j" using j by (rule less_trans)
    then show ?case by simp
  next
    case (4 x p)
    then have "pp_id p < ?k" "pp_id p \<notin> set ?ids" using wait [of x p] by simp_all
    then show ?case by (auto simp: op_id_def)
  next
    case (5 x y p q)
    then show ?case using inj [of x p y q] by simp
  qed
qed

lemma interleaved_ids:
  assumes "interleaved env rt0 adm rt" "ids_inv [] rt0"
  shows "ids_inv adm rt"
  using assms
proof (induction rule: interleaved.induct)
  case (admit_propose adm rt j c bs)
  then show ?case by (intro admit_ids) simp_all
next
  case (run adm rt op rt')
  then show ?case by (intro op_result_ids)
next
  case (drop adm rt op)
  then show ?case
    using op_ids_remove1(1) [of op adm] op_ids_remove1(2) [of adm op]
    by (intro ids_inv_shrink [OF drop.IH [OF drop.prems]]) (simp_all add: ids_inv_distinct)
next
  case (finish adm rt idx i)
  then show ?case
    using ids_inv_distinct [OF finish.IH [OF finish.prems]]
    by (intro ids_inv_shrink [OF finish.IH [OF finish.prems]]) (simp_all add: remove_pending_sel)
next
  case (admit_step adm rt m)
  then show ?case using ids_inv_ops [of "OpStep m # adm" adm rt] by (simp add: op_id_def)
next
  case (admit_tick adm rt)
  then show ?case using ids_inv_ops [of "OpTick # adm" adm rt] by (simp add: op_id_def)
next
  case (sent adm rt k)
  then show ?case by (intro ids_inv_same [OF sent.IH [OF sent.prems]]) simp_all
qed

subsection \<open>Messages in flight\<close>

lemma effects_done_transport:
  assumes "effects_done env eff base r rt1" "transport_inv (rt_transport base)"
  shows "transport_inv (rt_transport rt1)"
  using assms(1)
proof (cases rule: effects_doneE)
  case (save_failed e)
  then show ?thesis by (elim save_nodeD) (use assms(2) in simp)
next
  case (stopped rt2 ms r1 e)
  then show ?thesis using send_messages_frame [OF stopped(2)] savedD(2) [OF stopped(1)] assms(2) by auto
next
  case (finished rt2 rt3 es)
  then show ?thesis
    using send_messages_frame [OF finished(2)] savedD(2) [OF finished(1)] assms(2) by (auto simp: fold_apply_sel)
qed

lemma interleaved_transport:
  assumes "interleaved env rt0 adm rt" "transport_inv (rt_transport rt0)"
  shows "transport_inv (rt_transport rt)"
  using assms
proof (induction rule: interleaved.induct)
  case (run adm rt op rt')
  from run(3) show ?case
  proof (cases rule: op_resultE)
    case refused
    with run show ?thesis by simp
  next
    case (ran n eff idx r rt1 ws)
    with effects_done_transport [OF ran(2)] run show ?thesis by simp
  qed
qed (simp_all add: remove_pending_sel task_done_inv)

subsection \<open>What a run applies\<close>

text \<open>An answer is the result of one of the entries that were applied, in the state that the
  entries before it left.\<close>

definition answered :: "Env \<Rightarrow> KvState \<Rightarrow> CommittedEntry list \<Rightarrow> u64 \<times> Reply \<Rightarrow> bool" where
  "answered env st es x \<longleftrightarrow>
    (\<exists>pre e post p. es = pre @ e # post
      \<and> x = complete p (ce_command e) (snd (apply_command env (ce_command e) (applied_state env pre st))))"

text \<open>From \<open>rt\<close> to \<open>rt'\<close> exactly the entries \<open>es\<close> were applied, and every new answer is one of
  theirs.\<close>

definition applies :: "Env \<Rightarrow> CommittedEntry list \<Rightarrow> RaftRuntime \<Rightarrow> RaftRuntime \<Rightarrow> bool" where
  "applies env es rt rt' \<longleftrightarrow> rt_state rt' = applied_state env es (rt_state rt)
    \<and> (\<exists>new. rt_replies rt' = rt_replies rt @ new \<and> (\<forall>x \<in> set new. answered env (rt_state rt) es x))"

lemma applied_state_append: "applied_state env (xs @ ys) st = applied_state env ys (applied_state env xs st)"
  by (simp add: applied_state_def)

lemma answered_append:
  "answered env st es x \<Longrightarrow> answered env st (es @ es2) x"
  "answered env (applied_state env es st) es2 x \<Longrightarrow> answered env st (es @ es2) x"
  unfolding answered_def by (force, metis append.assoc applied_state_append)

lemma applies_same: "rt_state rt' = rt_state rt \<Longrightarrow> rt_replies rt' = rt_replies rt \<Longrightarrow> applies env [] rt rt'"
  by (simp add: applies_def applied_state_def)

lemma applies_trans: "applies env xs a b \<Longrightarrow> applies env ys b c \<Longrightarrow> applies env (xs @ ys) a c"
  by (auto simp: applies_def applied_state_append answered_append)

lemma apply_entry_applies: "applies env [e] rt (apply_entry env e rt)"
proof -
  have "answered env (rt_state rt) [e]
      (complete p (ce_command e) (snd (apply_command env (ce_command e) (rt_state rt))))" for p
    unfolding answered_def by (intro exI [of _ "[]"] exI [of _ e] exI [of _ p]) (simp add: applied_state_def)
  then show ?thesis by (cases "rt_waiters rt (ce_index e)") (simp_all add: applies_def applied_state_def)
qed

lemma fold_apply_applies: "applies env es rt (fold (apply_entry env) es rt)"
proof (induction es arbitrary: rt)
  case (Cons e es)
  from applies_trans [OF apply_entry_applies Cons, of e rt] show ?case by simp
qed (simp add: applies_same)

lemma effects_done_applies:
  assumes "effects_done env eff base r rt1"
  shows "\<exists>es. applies env es base rt1"
  using assms
proof (cases rule: effects_doneE)
  case (save_failed e)
  then show ?thesis by (intro exI [of _ "[]"] applies_same) (auto elim!: save_nodeD)
next
  case (stopped rt2 ms r1 e)
  then obtain t where "rt1 = rt2\<lparr>rt_transport := t\<rparr>" using send_messages_frame by blast
  with savedD(3,5) [OF stopped(1)] show ?thesis by (intro exI [of _ "[]"] applies_same) simp_all
next
  case (finished rt2 rt3 es)
  then obtain t where "rt3 = rt2\<lparr>rt_transport := t\<rparr>" using send_messages_frame by blast
  with savedD(3,5) [OF finished(1)] have "applies env [] base rt3" by (intro applies_same) simp_all
  from applies_trans [OF this fold_apply_applies [of env es rt3]] finished(4) show ?thesis by auto
qed

lemma op_result_applies:
  assumes "op_result env op rt rt'"
  shows "\<exists>es. applies env es rt rt'"
  using assms
proof (cases rule: op_resultE)
  case refused
  then show ?thesis by (intro exI [of _ "[]"] applies_same) simp_all
next
  case (ran n eff idx r rt1 ws)
  from effects_done_applies [OF ran(2)] ran(3) show ?thesis by (auto simp: applies_def)
qed

lemma interleaved_applies: "interleaved env rt0 adm rt \<Longrightarrow> \<exists>es. applies env es rt0 rt"
proof (induction rule: interleaved.induct)
  case (run adm rt op rt')
  from run(4) op_result_applies [OF run(3)] show ?case by (blast intro: applies_trans)
next
  case start
  then show ?case by (intro exI [of _ "[]"] applies_same) simp_all
qed (auto simp: applies_def remove_pending_sel)

lemma interleaved_trans:
  assumes "interleaved env rt adm' rt'" "interleaved env rt0 adm rt"
  shows "interleaved env rt0 (adm' @ adm) rt'"
  using assms
proof (induction rule: interleaved.induct)
  case (run adm' rt' op rt'')
  from interleaved.run [OF run(4) [OF run(5)] _ run(3)] run(2) show ?case by (simp add: remove1_append)
next
  case (drop adm' rt' op)
  from interleaved.drop [OF drop(3) [OF drop(4)], of op] drop(2) show ?case by (simp add: remove1_append)
qed (auto intro: interleaved.intros)

end
