(* ===== verification/Refinement.thy ===== *)
theory Refinement
  imports RuntimeInv Cluster
begin

text \<open>
  The node runtime implements the steps of the cluster: an operation that succeeds is a
  sequence of cluster steps, and after any operation, however far it got, a crash and a restart
  of the runtime lead to a state that the cluster reaches too. This is what carries the safety
  properties of \<open>Cluster\<close> over to the runtime with its write-ahead log.
\<close>

section \<open>The runtime implements the cluster's steps\<close>

text \<open>What the store holds, seen from the cluster: nothing was saved yet and the store is still in
  its initial state, or it holds what the cluster says is durable.\<close>

definition initial_state :: "NodeId list \<Rightarrow> Persistent" where
  "initial_state vs = persistent_default\<lparr>bootstrap_config := simple vs\<rparr>"

definition saved_as :: "NodeId list \<Rightarrow> Persistent option \<Rightarrow> Persistent \<Rightarrow> bool" where
  "saved_as vs d p = (case d of Some q \<Rightarrow> q = p | None \<Rightarrow> p = initial_state vs)"

text \<open>The runtime of node \<open>i\<close> is what the cluster \<open>S\<close> says of it; its messages in flight are on the
  network.\<close>

definition represents :: "NodeId list \<Rightarrow> Cluster \<Rightarrow> NodeId \<Rightarrow> RaftRuntime \<Rightarrow> bool" where
  "represents vs S i rt \<longleftrightarrow>
    nodes S i = Some (rt_node rt)
    \<and> saved_as vs (Cluster.durable S i) (st_durable (rt_store rt))
    \<and> snd ` set (tasks (rt_transport rt)) \<subseteq> network S"

definition op_enabled :: "Cluster \<Rightarrow> NodeId \<Rightarrow> RaftNode \<Rightarrow> Op \<Rightarrow> bool" where
  "op_enabled S i n op =
    (case op of
       OpStep m \<Rightarrow> deliverable S i (Msg m) \<and> term_room n (Msg m)
     | OpTick \<Rightarrow> term_room n Tick
     | OpPropose _ _ \<Rightarrow> True)"

lemma node_op_cluster_step:
  assumes "nodes S i = Some n" "op_enabled S i n op" "node_op op n = Some (n', eff)"
  shows "cluster_step vs S (handle_effects S i n' eff)"
proof (cases op)
  case (OpStep m)
  with assms show ?thesis
    by (intro cluster_step.event [OF assms(1), of "Msg m"]) (simp_all add: op_enabled_def node_step_def)
next
  case OpTick
  with assms show ?thesis
    by (intro cluster_step.event [OF assms(1), of Tick])
       (simp_all add: op_enabled_def node_tick_def deliverable_def)
next
  case (OpPropose j bs)
  with assms(3) obtain idx where "propose n (Command bs) = Some (n', Inr (idx, eff))"
    by (auto split: option.splits prod.splits sum.splits)
  with assms(1) show ?thesis by (rule cluster_step.propose)
qed

lemma node_op_config:
  assumes "op_enabled S i n op" "node_op op n = Some (n', eff)"
  shows "config (core n') = config (core n)"
proof (cases op)
  case (OpStep m)
  with assms show ?thesis
    using step_event_post [of n "Msg m" n' eff]
    by (simp add: op_enabled_def node_step_def node_post_def vote_step_def)
next
  case OpTick
  with assms show ?thesis
    using step_event_post [of n Tick n' eff]
    by (simp add: op_enabled_def node_tick_def node_post_def vote_step_def)
next
  case (OpPropose j bs)
  with assms(2) obtain idx where "propose n (Command bs) = Some (n', Inr (idx, eff))"
    by (auto split: option.splits prod.splits sum.splits)
  from propose_post(1) [OF this] show ?thesis by (simp add: vote_step_def)
qed

lemma handle_effects_sel [simp]:
  "nodes (handle_effects S i n eff) i = Some n"
  "Cluster.durable (handle_effects S i n eff) i =
    (if persist eff then Some (persistent (core n)) else Cluster.durable S i)"
  "network (handle_effects S i n eff) = network S \<union> set (messages eff)"
  by (simp_all add: handle_effects_def)

lemma applied_step:
  assumes "nodes S i = Some (rt_node rt)"
  shows "\<exists>S'. (cluster_step vs)\<^sup>*\<^sup>* S S' \<and> nodes S' i = Some (rt_node (fold (apply_entry env) es rt))
    \<and> Cluster.durable S' i = Cluster.durable S i \<and> network S \<subseteq> network S'"
proof (cases "es = []")
  case True
  with assms show ?thesis by (intro exI [of _ S]) simp
next
  case False
  then have "rt_node (fold (apply_entry env) es rt) = advance (rt_node rt) (ce_index (last es))"
    by (simp add: fold_apply_sel)
  with cluster_step.applied [OF assms] show ?thesis
    by (intro exI [of _ "handle_effects S i (advance (rt_node rt) (ce_index (last es))) effects_none"])
       (simp add: r_into_rtranclp)
qed

lemma saved_saved_as:
  assumes "saved env eff base rt1" "rt_node base = n" "saved_as vs (Cluster.durable S i) (st_durable (rt_store base))"
  shows "saved_as vs (Cluster.durable (handle_effects S i n eff) i) (st_durable (rt_store rt1))"
  using savedD(9) [OF assms(1)] assms(2,3) by (simp add: saved_as_def)

lemma op_result_refines:
  assumes rep: "represents vs S i rt" and en: "op_enabled S i (rt_node rt) op"
    and run: "op_result env op rt rt'" and ok: "\<not> rt_failed rt'"
  shows "\<exists>S'. (cluster_step vs)\<^sup>*\<^sup>* S S' \<and> represents vs S' i rt'"
  using run
proof (cases rule: op_resultE)
  case refused
  with rep show ?thesis by blast
next
  case (ran n eff idx r rt1 ws)
  let ?base = "rt\<lparr>rt_node := n, rt_waiters := new_waiter op idx (rt_waiters rt)\<rparr>"
  let ?S = "handle_effects S i n eff"
  have r: "r = Inr ()" "rt_node rt' = rt_node rt1" "rt_store rt' = rt_store rt1" "rt_transport rt' = rt_transport rt1"
    using ran(3) ok by simp_all
  have nd: "nodes S i = Some (rt_node rt)" using rep by (simp add: represents_def)
  have step: "cluster_step vs S ?S" by (rule node_op_cluster_step [OF nd en ran(1)])
  from ran(2) show ?thesis
  proof (cases rule: effects_doneE)
    case (finished rt2 rt3 es)
    obtain t where t: "rt3 = rt2\<lparr>rt_transport := t\<rparr>"
      "snd ` set (tasks t) \<subseteq> snd ` set (tasks (rt_transport rt2)) \<union> set (messages eff)"
      using send_messages_frame [OF finished(2)] by blast
    note sv = savedD [OF finished(1)]
    have "nodes ?S i = Some (rt_node rt3)" using sv(1) t(1) by simp
    from applied_step [OF this] obtain S' where S': "(cluster_step vs)\<^sup>*\<^sup>* ?S S'"
      "nodes S' i = Some (rt_node rt')" "Cluster.durable S' i = Cluster.durable ?S i" "network ?S \<subseteq> network S'"
      using finished(4) r(2) by metis
    have "saved_as vs (Cluster.durable S' i) (st_durable (rt_store rt'))"
      using saved_saved_as [OF finished(1), of n vs S i] rep S'(3) finished(4) r(3) t(1)
      by (simp add: represents_def fold_apply_sel)
    moreover have "snd ` set (tasks (rt_transport rt')) \<subseteq> network S'"
    proof -
      have "rt_transport rt' = t" using t(1) finished(4) r(4) by (simp add: fold_apply_sel)
      moreover have "network S \<subseteq> network S'" "set (messages eff) \<subseteq> network S'" using S'(4) by simp_all
      moreover have "snd ` set (tasks (rt_transport rt2)) \<subseteq> network S"
        using sv(2) rep by (simp add: represents_def)
      ultimately show ?thesis using t(2) by blast
    qed
    ultimately have "represents vs S' i rt'" using S'(2) by (simp add: represents_def)
    with step S'(1) show ?thesis by (meson converse_rtranclp_into_rtranclp)
  qed (use r(1) in auto)
qed

text \<open>What an operation does to the node's persistent state and to the file system happens in the
  node's step and in the save.\<close>

lemma effects_done_frame:
  assumes "effects_done env eff base r rt1"
  shows "persistent (core (rt_node rt1)) = persistent (core (rt_node base))
    \<and> (\<exists>rt2 r2. rt_world rt1 = rt_world rt2
        \<and> (if persist eff then save_node env base = Some (r2, rt2) else rt2 = base)
        \<and> snd ` set (tasks (rt_transport rt1)) \<subseteq> snd ` set (tasks (rt_transport base)) \<union>
            (if persist eff \<and> r2 \<noteq> Inr () then {} else set (messages eff)))"
  using assms
proof (cases rule: effects_doneE)
  case (save_failed e)
  then have "rt_node rt1 = rt_node base" "rt_transport rt1 = rt_transport base" by (auto elim!: save_nodeD)
  with save_failed show ?thesis by auto
next
  case (stopped rt2 ms r1 e)
  then obtain t where t: "rt1 = rt2\<lparr>rt_transport := t\<rparr>"
    "snd ` set (tasks t) \<subseteq> snd ` set (tasks (rt_transport rt2)) \<union> set ms" using send_messages_frame by blast
  then have "snd ` set (tasks t) \<subseteq> snd ` set (tasks (rt_transport base)) \<union> set (messages eff)"
    using savedD(2) [OF stopped(1)] stopped(3) by auto
  with t(1) savedD(1) [OF stopped(1)] stopped(1) show ?thesis
    by (intro conjI exI [of _ rt2] exI [of _ "Inr ()"]) (auto simp: saved_def)
next
  case (finished rt2 rt3 es)
  then obtain t where t: "rt3 = rt2\<lparr>rt_transport := t\<rparr>"
    "snd ` set (tasks t) \<subseteq> snd ` set (tasks (rt_transport rt2)) \<union> set (messages eff)"
    using send_messages_frame by blast
  then have "snd ` set (tasks t) \<subseteq> snd ` set (tasks (rt_transport base)) \<union> set (messages eff)"
    using savedD(2) [OF finished(1)] by simp
  with t(1) savedD(1) [OF finished(1)] finished(1,4) show ?thesis
    by (intro conjI exI [of _ rt2] exI [of _ "Inr ()"]) (auto simp: saved_def fold_apply_sel)
qed

lemma op_result_frame:
  assumes "effects_done env eff (rt\<lparr>rt_node := n, rt_waiters := ws0\<rparr>) r rt1"
    and "rt' = rt1\<lparr>rt_waiters := ws, rt_failed := (rt_failed rt1 \<or> r \<noteq> Inr ())\<rparr>"
  obtains (idle) "\<not> persist eff" "rt_world rt' = rt_world rt"
      "snd ` set (tasks (rt_transport rt')) \<subseteq> snd ` set (tasks (rt_transport rt)) \<union> set (messages eff)"
  | (wrote) r0 st where "persist eff" "persistent (core (rt_node rt')) = persistent (core n)"
      "store_save (delta_to_vec env) (env_crc env) (persistent (core n)) (rt_store rt, rt_world rt)
         = Some (r0, (st, rt_world rt'))"
      "snd ` set (tasks (rt_transport rt')) \<subseteq> snd ` set (tasks (rt_transport rt)) \<union>
         (if r0 = Inr () then set (messages eff) else {})"
proof (cases "persist eff")
  case False
  with effects_done_frame [OF assms(1)] assms(2) show thesis by (intro idle) auto
next
  case True
  let ?base = "rt\<lparr>rt_node := n, rt_waiters := ws0\<rparr>"
  obtain rt2 r2 where w2: "rt_world rt1 = rt_world rt2" "persistent (core (rt_node rt1)) = persistent (core n)"
    and sv: "save_node env ?base = Some (r2, rt2)"
    and ts: "snd ` set (tasks (rt_transport rt1)) \<subseteq> snd ` set (tasks (rt_transport rt)) \<union>
            (if r2 \<noteq> Inr () then {} else set (messages eff))"
    using effects_done_frame [OF assms(1)] True by auto
  from sv obtain st w1 r0 where s: "rt2 = ?base\<lparr>rt_store := st, rt_world := w1\<rparr>"
    "store_save (delta_to_vec env) (env_crc env) (persistent (core n)) (rt_store rt, rt_world rt)
       = Some (r0, (st, w1))" "r2 = map_sum StoreFailed id r0"
    by (auto elim!: save_nodeD)
  moreover have "(r2 = Inr ()) = (r0 = Inr ())" using s(3) by (cases r0) auto
  ultimately show thesis using True w2 ts assms(2) by (intro wrote [of r0 st]) auto
qed

section \<open>Crash and restart\<close>

lemma node_open_saved: "saved_as vs d p \<Longrightarrow> node_open cfg vs d = node_restore cfg p"
  by (auto simp: saved_as_def node_open_def node_new_def node_restore_def core_new_def core_restore_def
      initial_state_def Let_def split: option.splits)

lemma node_restore_total:
  assumes "timeout_ok cfg"
  obtains n where "node_restore cfg p = Some n" "persistent (core n) = p" "config (core n) = cfg"
proof -
  have "timeout_ok (config (core_restore cfg p))" using assms by (simp add: core_restore_def)
  from random_election_timeout_total [OF this] obtain c t where
    r: "random_election_timeout (core_restore cfg p) = Some (c, t)" by blast
  note fr = rng_frameD [OF random_election_timeout_frame [OF r]]
  show thesis
    by (rule that [of "\<lparr>core = c, role = Follower \<lparr>f_leader = None, f_election_deadline = ticks c + t,
            f_last_contact_tick = None\<rparr>\<rparr>"])
       (use r fr in \<open>simp_all add: node_restore_def follower_new_def core_restore_def\<close>)
qed

text \<open>Opening a runtime on a directory whose store opens.\<close>

lemma runtime_open_ok:
  assumes "validate_config cfg = Inr ()" "timeout_ok (consensus cfg)" "vs = bm_keys (nc_peers cfg)"
    and "store_open (delta_from_slice env) (env_crc env) (initial_state vs) w = (Inr st, w')"
  obtains rt where "runtime_open env cfg kv w = Some (Inr rt, w')" "rt_store rt = st" "rt_world rt = w'"
    "node_restore (consensus cfg) (st_durable st) = Some (rt_node rt)" "tasks (rt_transport rt) = []"
    "\<not> rt_failed rt" "rt_config rt = cfg" "rt_state rt = kv"
proof -
  have i: "initial_state vs = persistent (core_new (consensus cfg) vs)"
    by (simp add: initial_state_def core_new_def Let_def)
  have "node_new (consensus cfg) vs = node_restore (consensus cfg) (initial_state vs)"
    by (simp add: node_new_def node_restore_def core_new_def core_restore_def initial_state_def Let_def)
  with node_restore_total [OF assms(2), of "initial_state vs"] obtain n0 where
    n0: "node_new (consensus cfg) vs = Some n0" "persistent (core n0) = initial_state vs" by metis
  obtain n where n: "node_restore (consensus cfg) (st_durable st) = Some n"
    using node_restore_total [OF assms(2)] by blast
  define rt where "rt = \<lparr>rt_config = cfg, rt_node = n, rt_store = st, rt_world = w', rt_state = kv,
    rt_waiters = Map.empty, rt_replies = [], next_proposal_id = 1,
    rt_transport = transport_new (nc_node_id cfg) (raft_key cfg) (nc_peers cfg), rt_failed = False\<rparr>"
  have "runtime_open env cfg kv w = Some (Inr rt, w')"
    using assms n0 n by (simp add: runtime_open_def rt_def)
  with n show thesis by (intro that [of rt]) (simp_all add: rt_def transport_new_def)
qed

text \<open>A node that opens the store again is the cluster's restart.\<close>

lemma reopen_refines:
  assumes st: "store_open (delta_from_slice env) (env_crc env) (initial_state vs) w = (Inr st, w3)"
      "store_inv (delta_from_slice env) (env_crc env) (initial_state vs) (st, w3) segs3"
    and S1: "(cluster_step vs)\<^sup>*\<^sup>* S S1" "nodes S1 i = Some n1" "config (core n1) = consensus cfg"
      "saved_as vs (Cluster.durable S1 i) (st_durable st)" "ms \<subseteq> network S1"
    and cfg: "validate_config cfg = Inr ()" "timeout_ok (consensus cfg)" "vs = bm_keys (nc_peers cfg)"
  shows "\<exists>rt3 w3 segs3 S'. runtime_open env cfg kv w = Some (Inr rt3, w3)
    \<and> store_inv (delta_from_slice env) (env_crc env) (initial_state vs) (rt_store rt3, rt_world rt3) segs3
    \<and> (cluster_step vs)\<^sup>*\<^sup>* S S' \<and> represents vs S' i rt3 \<and> ms \<subseteq> network S'"
proof -
  obtain rt3 where rt3: "runtime_open env cfg kv w = Some (Inr rt3, w3)" "rt_store rt3 = st"
    "rt_world rt3 = w3" "node_restore (consensus cfg) (st_durable st) = Some (rt_node rt3)"
    "tasks (rt_transport rt3) = []"
    by (rule runtime_open_ok [OF cfg st(1), of kv])
  let ?S = "handle_effects S1 i (rt_node rt3) effects_none"
  have "cluster_step vs S1 ?S"
    using S1(2) by (rule cluster_step.restart) (simp add: S1(3) node_open_saved [OF S1(4)] rt3(4))
  with S1(1) have "(cluster_step vs)\<^sup>*\<^sup>* S ?S" by (rule rtranclp.rtrancl_into_rtrancl)
  moreover have "represents vs ?S i rt3" using S1(4) rt3(2,5) by (simp add: represents_def)
  moreover have "ms \<subseteq> network ?S" using S1(5) by simp
  ultimately show ?thesis using rt3(1-3) st(2) by blast
qed

text \<open>Whatever an operation did, however far it got and whatever failed, a crash and a restart
  lead to a runtime that the cluster can reach, with the messages that had left on its network.\<close>

lemma crash_restart_refines:
  assumes codec: "\<And>x b. delta_to_vec env x = Some b \<Longrightarrow> delta_from_slice env b = Some x"
    and inv: "store_inv (delta_from_slice env) (env_crc env) (initial_state vs) (rt_store rt, rt_world rt) segs"
    and rep: "represents vs S i rt" and en: "op_enabled S i (rt_node rt) op"
    and run: "op_result env op rt rt'"
    and follow: "may_follow (st_durable (rt_store rt)) (persistent (core (rt_node rt')))"
    and crash: "crash (rt_world rt') w"
    and cfg: "validate_config cfg = Inr ()" "timeout_ok (consensus cfg)" "vs = bm_keys (nc_peers cfg)"
      "consensus cfg = config (core (rt_node rt))"
  shows "\<exists>rt3 w3 segs3 S'. runtime_open env cfg kv w = Some (Inr rt3, w3)
    \<and> store_inv (delta_from_slice env) (env_crc env) (initial_state vs) (rt_store rt3, rt_world rt3) segs3
    \<and> (cluster_step vs)\<^sup>*\<^sup>* S S' \<and> represents vs S' i rt3
    \<and> snd ` set (tasks (rt_transport rt')) \<subseteq> network S'"
proof -
  note reopen = reopen_refines [OF _ _ _ _ _ _ _ cfg(1-3)]
  have nd: "nodes S i = Some (rt_node rt)"
    and sa: "saved_as vs (Cluster.durable S i) (st_durable (rt_store rt))"
    and out: "snd ` set (tasks (rt_transport rt)) \<subseteq> network S"
    using rep by (simp_all add: represents_def)
  from run show ?thesis
  proof (cases rule: op_resultE)
    case refused
    with idle_crash_open [OF inv] crash obtain st w3 segs3 where
      "store_open (delta_from_slice env) (env_crc env) (initial_state vs) w = (Inr st, w3)"
      "store_inv (delta_from_slice env) (env_crc env) (initial_state vs) (st, w3) segs3"
      "st_durable st = st_durable (rt_store rt)" by blast
    from reopen [OF this(1,2) rtranclp.rtrancl_refl nd] cfg(4) sa this(3) out refused show ?thesis by simp
  next
    case (ran n eff idx r rt1 ws)
    let ?S = "handle_effects S i n eff"
    have step: "(cluster_step vs)\<^sup>*\<^sup>* S ?S"
      using node_op_cluster_step [OF nd en ran(1)] by (rule r_into_rtranclp)
    have nS: "nodes ?S i = Some n" "config (core n) = consensus cfg"
      using node_op_config [OF en ran(1)] cfg(4) by simp_all
    from ran(2,3) show ?thesis
    proof (cases rule: op_result_frame)
      case idle
      have "crash (rt_world rt) w" using crash idle(2) by simp
      from idle_crash_open [OF inv this] obtain st w3 segs3 where
        "store_open (delta_from_slice env) (env_crc env) (initial_state vs) w = (Inr st, w3)"
        "store_inv (delta_from_slice env) (env_crc env) (initial_state vs) (st, w3) segs3"
        "st_durable st = st_durable (rt_store rt)" by blast
      note st = this
      have "snd ` set (tasks (rt_transport rt')) \<subseteq> network ?S" using idle(3) out by auto
      from reopen [OF st(1,2) step nS _ this] sa st(3) idle(1) show ?thesis by simp
    next
      case (wrote r0 st0)
      obtain st w3 segs3 where new:
        "store_open (delta_from_slice env) (env_crc env) (initial_state vs) w = (Inr st, w3)"
        "store_inv (delta_from_slice env) (env_crc env) (initial_state vs) (st, w3) segs3"
        "st_durable st = st_durable (rt_store rt) \<and> r0 \<noteq> Inr () \<or> st_durable st = persistent (core n)"
        using save_crash_open [OF codec inv follow [unfolded wrote(2)] wrote(3) crash] by blast
      from new(3) show ?thesis
      proof
        assume old: "st_durable st = st_durable (rt_store rt) \<and> r0 \<noteq> Inr ()"
        from reopen [OF new(1,2) rtranclp.rtrancl_refl nd] cfg(4) sa old wrote(4) out show ?thesis by simp
      next
        assume "st_durable st = persistent (core n)"
        moreover have "snd ` set (tasks (rt_transport rt')) \<subseteq> network ?S"
          using order.trans [OF wrote(4)] out by (simp add: le_supI1 le_supI2)
        ultimately show ?thesis using reopen [OF new(1,2) step nS] wrote(1) by (simp add: saved_as_def)
      qed
    qed
  qed
qed

end
