(* ===== verification/RuntimeSpec.thy ===== *)
theory RuntimeSpec
  imports Interleave Refinement
begin

text \<open>
  The properties of the node runtime: it implements the cluster's steps, also over a crash; it
  saves before it sends; the key-value state follows the log; proposals are answered once; the
  transport keeps its bounds; only peers reach the state machine; a configuration file that
  parses starts. The witnesses run it on small clusters.
\<close>

section \<open>The receiving side\<close>

lemma verify_signed:
  assumes "\<And>k b. length (hmac k b) = 32" "signature hmac key body = Some sig"
  shows "verify hmac key body sig"
  using assms decode_encode_hex [of "hmac (key_bytes key) body"]
  by (auto simp: verify_def signature_def SIGNATURE_BYTES_def)

lemma map_sum_Inr_iff: "map_sum f g r = Inr y \<longleftrightarrow> (\<exists>x. r = Inr x \<and> y = g x)"
  by (cases r) auto

lemma decode_pairs_length: "decode_pairs bs = Some ds \<Longrightarrow> length ds = length bs div 2"
  by (induction bs arbitrary: ds rule: decode_pairs.induct) (auto simp: bind_eq_Some_conv)

lemma from_hex_length: "from_hex v = Inr key \<Longrightarrow> length (key_bytes key) = 32"
  by (auto simp: from_hex_def decode_hex_def KEY_BYTES_def as_bytes_def dest!: decode_pairs_length
      split: option.splits if_splits)

lemma find_duplicate_None: "find_duplicate xs seen = None \<longleftrightarrow> distinct xs \<and> set xs \<inter> set seen = {}"
  by (induction xs arbitrary: seen) auto

lemma addresses_distinct_values: "addresses_distinct m \<Longrightarrow> distinct (map snd (entries_of m))"
proof -
  assume d: "addresses_distinct m"
  have keys: "distinct (map fst (entries_of m))" using bm_keys_distinct [of m] by (simp add: bm_keys_def)
  have "inj_on snd (set (entries_of m))"
  proof (rule inj_onI)
    fix p q assume "p \<in> set (entries_of m)" "q \<in> set (entries_of m)" "snd p = snd q"
    then obtain i j a where "p = (i, a)" "q = (j, a)" "bm_get m i = Some a" "bm_get m j = Some a"
      by (metis in_entries_iff surjective_pairing)
    with d show "p = q" unfolding addresses_distinct_def by blast
  qed
  with keys show ?thesis by (auto simp: distinct_map intro: distinct_map [THEN iffD1, THEN conjunct1])
qed

lemma in_flight_le:
  assumes "transport_inv t"
  shows "in_flight t i \<le> MAX_IN_FLIGHT_PER_PEER"
proof (cases "bm_get (t_peers t) i")
  case None
  have "m_to m \<noteq> i" if "(a, m) \<in> set (tasks t)" for a m
  proof -
    have "\<exists>p. bm_get (t_peers t) (m_to m) = Some p" using assms that by (auto simp: transport_inv_def)
    with None show ?thesis by auto
  qed
  then have "in_flight t i = 0" by (auto simp: in_flight_def filter_empty_conv)
  then show ?thesis by simp
next
  case (Some p)
  then have "permits p + in_flight t i = MAX_IN_FLIGHT_PER_PEER" using assms by (auto simp: transport_inv_def)
  then show ?thesis by simp
qed

lemma opened_runtime:
  assumes "runtime_open env cfg kv w = Some (Inr rt, w')"
  shows "ids_inv [] rt" "transport_inv (rt_transport rt)"
proof -
  have "rt_waiters rt = Map.empty \<and> rt_replies rt = []
      \<and> rt_transport rt = transport_new (nc_node_id cfg) (raft_key cfg) (nc_peers cfg)"
  proof (cases "validate_config cfg")
    case (Inr u)
    then obtain n where n: "node_new (consensus cfg) (bm_keys (nc_peers cfg)) = Some n"
      using assms by (auto simp: runtime_open_def bind_eq_Some_conv)
    obtain r w1 where st: "store_open (delta_from_slice env) (env_crc env) (persistent (core n)) w = (r, w1)"
      by force
    from assms Inr n st show ?thesis by (cases r) (auto simp: runtime_open_def bind_eq_Some_conv)
  qed (use assms in \<open>simp add: runtime_open_def\<close>)
  then show "ids_inv [] rt" "transport_inv (rt_transport rt)"
    by (auto simp: ids_inv_def transport_new_inv)
qed

lemma apply_some_resume: "apply_some env k rt = Some rt1 \<Longrightarrow> apply_committed env rt1 = apply_committed env rt"
proof (induction k arbitrary: rt)
  case (Suc k)
  then show ?case by (subst (2) apply_committed.simps) (auto split: list.splits)
qed (simp split: if_splits)

section \<open>Properties\<close>

text \<open>C6. Refinement: an operation of the runtime (a message from a peer, a tick, a proposal) that
  does not fail is a sequence of steps of the cluster, also when its task is dropped on the way. The node, what the write-ahead log holds
  of it and the messages on their way stay those of the cluster.\<close>

theorem runtime_refines_cluster:
  assumes "represents vs S i rt" and "op_enabled S i (rt_node rt) op"
    and "op_result env op rt rt'" and "\<not> rt_failed rt'"
  shows "\<exists>S'. (cluster_step vs)\<^sup>*\<^sup>* S S' \<and> represents vs S' i rt'"
  using assms by (rule op_result_refines)

text \<open>C2. Crash safety of the whole node: take a runtime that the cluster represents, run any
  operation on it, with any file-system call failing at any point, crash, and start the node
  again from what the crash left. The node starts, the runtime it starts with is one that
  the cluster reaches from where it was, and every message that had left is on its network. The
  JSON codec is to decode what it encoded, and the state to be saved to be one that may follow the
  saved one.\<close>

theorem crash_restart_refines_cluster:
  assumes "\<And>x b. delta_to_vec env x = Some b \<Longrightarrow> delta_from_slice env b = Some x"
    and "store_inv (delta_from_slice env) (env_crc env) (initial_state vs) (rt_store rt, rt_world rt) segs"
    and "represents vs S i rt" and "op_enabled S i (rt_node rt) op"
    and "op_result env op rt rt'"
    and "may_follow (st_durable (rt_store rt)) (persistent (core (rt_node rt')))"
    and "crash (rt_world rt') w"
    and "validate_config cfg = Inr ()" and "timeout_ok (consensus cfg)"
    and "vs = bm_keys (nc_peers cfg)" and "consensus cfg = config (core (rt_node rt))"
  shows "\<exists>rt3 w3 segs3 S'. runtime_open env cfg kv w = Some (Inr rt3, w3)
    \<and> store_inv (delta_from_slice env) (env_crc env) (initial_state vs) (rt_store rt3, rt_world rt3) segs3
    \<and> (cluster_step vs)\<^sup>*\<^sup>* S S' \<and> represents vs S' i rt3
    \<and> snd ` set (tasks (rt_transport rt')) \<subseteq> network S'"
  using assms by (rule crash_restart_refines)


text \<open>C11. Applying committed entries ends, on any well-formed log, and is the state machine run
  over them in log order: nothing committed is left, the key-value state is the old one after
  exactly these commands, every proposal that waited for one of them is answered, once, with
  the result of its own command, or with an error if another command took its place.\<close>

theorem apply_committed_runs_log:
  assumes "wf_log (core_log (core (rt_node rt)))"
  shows "\<exists>rt' new. apply_committed env rt = Some rt' \<and> committed (rt_node rt') = []
    \<and> rt_state rt' = applied_state env (committed (rt_node rt)) (rt_state rt)
    \<and> rt_replies rt' = rt_replies rt @ new
    \<and> map fst new =
        List.map_filter (\<lambda>e. map_option pp_id (rt_waiters rt (ce_index e))) (committed (rt_node rt))
    \<and> (\<forall>k < length (committed (rt_node rt)). \<forall>p.
        rt_waiters rt (ce_index (committed (rt_node rt) ! k)) = Some p \<longrightarrow>
          rt_waiters rt' (ce_index (committed (rt_node rt) ! k)) = None
          \<and> complete p (ce_command (committed (rt_node rt) ! k))
              (snd (apply_command env (ce_command (committed (rt_node rt) ! k))
                (applied_state env (take k (committed (rt_node rt))) (rt_state rt)))) \<in> set new)"
proof -
  let ?es = "committed (rt_node rt)" and ?rt = "fold (apply_entry env) (committed (rt_node rt)) rt"
  obtain new where new: "rt_replies ?rt = rt_replies rt @ new"
    "map fst new = List.map_filter (\<lambda>e. map_option pp_id (rt_waiters rt (ce_index e))) ?es"
    "\<forall>k < length ?es. \<forall>p. rt_waiters rt (ce_index (?es ! k)) = Some p \<longrightarrow>
        complete p (ce_command (?es ! k)) (snd (apply_command env (ce_command (?es ! k))
          (applied_state env (take k ?es) (rt_state rt)))) \<in> set new"
    using fold_apply_replies [OF committed_distinct [OF assms]] by blast
  have "rt_waiters ?rt (ce_index (?es ! k)) = None" if "k < length ?es" for k
    using that by (simp add: fold_apply_waiters)
  with new apply_committed_fold [OF assms] committed_after_fold [OF assms] show ?thesis
    by (intro exI [of _ ?rt] exI [of _ new]) (auto simp: fold_apply_sel)
qed

text \<open>C16. A request that is dropped neither loses nor repeats a command: when the task that applies
  committed entries is dropped between two of them, whoever applies next brings the key-value
  state and the node to where they would have been, whether or not the dropped proposal's waiter
  was taken away.\<close>

theorem cancelled_apply_resumes:
  assumes "wf_log (core_log (core (rt_node rt)))" and "apply_some env k rt = Some rt1"
  shows "\<exists>rt2 rt3. apply_committed env rt = Some rt2 \<and> apply_committed env rt1 = Some rt2
    \<and> apply_committed env (remove_pending idx i rt1) = Some rt3
    \<and> rt_node rt3 = rt_node rt2 \<and> rt_state rt3 = rt_state rt2"
proof -
  obtain es where "rt1 = fold (apply_entry env) es rt" using apply_some_is_fold [OF assms(2)] by blast
  then have wf: "wf_log (core_log (core (rt_node rt1)))" using assms(1) by (simp add: core_log_def)
  let ?rm = "remove_pending idx i rt1"
  obtain ws where rm: "?rm = rt1\<lparr>rt_waiters := ws\<rparr>" by (rule remove_pending_eq)
  have "apply_committed env rt1 = apply_committed env rt" using apply_some_resume [OF assms(2)] .
  with apply_committed_fold [OF wf, of env] apply_committed_fold [of ?rm env] wf rm show ?thesis
    by (simp add: fold_apply_sel)
qed

text \<open>C14. One answer per proposal: however the tasks of a node interleave, no proposal is ever
  answered twice, and one that is answered is neither waiting nor about to run.\<close>

theorem proposals_answered_once:
  assumes "runtime_open env cfg kv w = Some (Inr rt0, w')" and "interleaved env rt0 adm rt"
  shows "distinct (map fst (rt_replies rt))
    \<and> (\<forall>i \<in> fst ` set (rt_replies rt).
        i \<notin> set (op_ids adm) \<and> (\<forall>x p. rt_waiters rt x = Some p \<longrightarrow> pp_id p \<noteq> i))"
proof -
  have "ids_inv adm rt" using interleaved_ids [OF assms(2) opened_runtime(1) [OF assms(1)]] .
  then have d: "distinct (op_ids adm @ map fst (rt_replies rt))"
    and w: "\<And>x p. rt_waiters rt x = Some p \<Longrightarrow> pp_id p \<notin> set (op_ids adm @ map fst (rt_replies rt))"
    unfolding ids_inv_def by blast+
  have "pp_id p \<noteq> i" if "i \<in> fst ` set (rt_replies rt)" "rt_waiters rt x = Some p" for i x p
    using that(1) w [OF that(2)] by auto
  with d show ?thesis by auto
qed

text \<open>C26. Bounded network use: however the tasks interleave, at most 16 messages to the same peer
  are in flight, and messages go only to the address of a configured peer.\<close>

theorem in_flight_bounded:
  assumes "runtime_open env cfg kv w = Some (Inr rt0, w')" and "interleaved env rt0 adm rt"
  shows "in_flight (rt_transport rt) i \<le> 16
    \<and> (\<forall>(a, m) \<in> set (tasks (rt_transport rt)).
        \<exists>p. bm_get (t_peers (rt_transport rt)) (m_to m) = Some p \<and> peer_addr p = a)"
proof -
  have "transport_inv (rt_transport rt)"
    using interleaved_transport [OF assms(2) opened_runtime(2) [OF assms(1)]] .
  with in_flight_le [OF this, of i] show ?thesis
    by (simp add: transport_inv_def MAX_IN_FLIGHT_PER_PEER_def)
qed

text \<open>C23. Only peers reach the state machine: if a request to the Raft endpoint changes the runtime
  or is answered with success, its body carries a valid signature under the cluster key and
  decodes to a message that is addressed to this node and comes from another configured node.\<close>

theorem only_peers_step:
  assumes "receive_raft env header body rt = Some (res, rt')"
    and "rt' \<noteq> rt \<or> res = Inr ()"
  shows "\<exists>sig m. header = Some sig
    \<and> decode_hex 32 sig = Some (env_hmac env (key_bytes (raft_key (rt_config rt))) body)
    \<and> message_from_slice env body = Some m
    \<and> m_to m = nc_node_id (rt_config rt) \<and> m_from m \<noteq> nc_node_id (rt_config rt)
    \<and> m_from m \<in> set (bm_keys (nc_peers (rt_config rt)))
    \<and> \<not> rt_failed rt \<and> (\<exists>r. step_locked env m rt = Some (r, rt'))"
proof -
  from assms obtain sig m where h: "header = Some sig" "verify_signature env rt body sig"
    "message_from_slice env body = Some m" "validate_message rt m = Inr ()"
    "map_option (\<lambda>(r, rt). (map_sum StepFailed id r, rt)) (runtime_step env m rt) = Some (res, rt')"
    by (auto simp: receive_raft_def split: option.splits if_splits sum.splits)
  then obtain r where r: "runtime_step env m rt = Some (r, rt')" "res = map_sum StepFailed id r" by auto
  with assms(2) have "\<not> rt_failed rt" "step_locked env m rt = Some (r, rt')"
    by (auto simp: runtime_step_def split: if_splits)
  with h show ?thesis
    by (auto simp: verify_signature_def verify_def validate_message_def SIGNATURE_BYTES_def bm_keys_iff
        split: option.splits if_splits)
qed

text \<open>What one node posts, another accepts: the request that the transport builds for a message
  passes the receiver's checks of signature and format when both have the same key, and the
  receiver steps with the very message that was sent, if it is one it expects.\<close>

theorem posted_message_arrives:
  assumes "\<And>x b. message_to_vec env x = Some b \<Longrightarrow> message_from_slice env b = Some x"
    and "\<And>k b. length (env_hmac env k b) = 32"
    and "raft_request (message_to_vec env) (env_hmac env) (raft_key (rt_config rt)) m = Inr (sig, body)"
    and "validate_message rt m = Inr ()"
  shows "receive_raft env (Some sig) body rt =
      map_option (\<lambda>(r, rt). (map_sum StepFailed id r, rt)) (runtime_step env m rt)
    \<and> length body \<le> MAX_RAFT_MESSAGE_BYTES"
proof -
  from assms(3) have b: "message_to_vec env m = Some body" "length body \<le> MAX_RAFT_MESSAGE_BYTES"
    "signature (env_hmac env) (raft_key (rt_config rt)) body = Some sig"
    by (auto simp: raft_request_def split: option.splits if_splits)
  with assms(1,4) verify_signed [OF assms(2) b(3)] show ?thesis
    by (simp add: receive_raft_def verify_signature_def)
qed

text \<open>C32. A configuration file that parses starts: the node configuration built from it passes the
  runtime's own checks, names every peer of the file once, with pairwise different addresses
  and itself among them, and asks for an election timeout that can be drawn.\<close>

theorem parsed_config_valid:
  assumes "parse_node_config from_str lookup_host contents = Inr cfg"
  shows "validate_config cfg = Inr () \<and> addresses_distinct (nc_peers cfg)
    \<and> (\<exists>cf. from_str contents = Some cf \<and> distinct (map ps_id (cs_peers (cf_cluster cf)))
        \<and> set (bm_keys (nc_peers cfg)) = (NodeId \<circ> ps_id) ` set (cs_peers (cf_cluster cf)))
    \<and> nc_node_id cfg \<in> set (bm_keys (nc_peers cfg))
    \<and> timeout_ok (consensus cfg) \<and> length (key_bytes (raft_key cfg)) = 32"
proof -
  obtain cf raft client key peers where cf: "from_str contents = Some cf"
    and p: "peer_addrs lookup_host (cs_peers (cf_cluster cf)) = Inr peers"
      "bm_get peers (NodeId (ns_id (cf_node cf))) = Some raft"
    and k: "from_hex (cs_raft_key (cf_cluster cf)) = Inr key"
    and cfg: "cfg = \<lparr>nc_node_id = NodeId (ns_id (cf_node cf)), client_addr = client, raft_addr = raft,
        nc_peers = peers, raft_key = key,
        storage = \<lparr>so_name = ''default'', data_dir = sts_data_dir (cf_storage cf)\<rparr>,
        consensus = raft_config (NodeId (ns_id (cf_node cf)))\<rparr>"
    using assms
    by (auto simp: parse_node_config_def Let_def try_bind_Inr_iff map_sum_Inr_iff split: option.splits if_splits)
  have a: "add_peers lookup_host (cs_peers (cf_cluster cf)) bm_empty = Inr peers"
    using p(1) by (auto simp: peer_addrs_def try_bind_Inr_iff split: if_splits)
  have d: "addresses_distinct (bm_empty :: (NodeId, SocketAddr) btreemap)" by (simp add: addresses_distinct_def)
  note spec = add_peers_spec [OF a d]
  have "distinct (map snd (entries_of peers))" using addresses_distinct_values spec by blast
  then have v: "validate_config cfg = Inr ()"
    using p(2) by (simp add: cfg validate_config_def raft_config_def config_new_def with_parallel_disk_write_def
        find_duplicate_None [THEN iffD2])
  have "timeout_ok (consensus cfg)"
    by (simp add: cfg raft_config_def config_new_def with_parallel_disk_write_def timeout_ok_def)
  moreover have "length (key_bytes key) = 32" using k from_hex_length by blast
  moreover have "set (bm_keys peers) = (NodeId \<circ> ps_id) ` set (cs_peers (cf_cluster cf))"
    using spec by (auto simp: bm_keys_iff)
  moreover have "NodeId (ns_id (cf_node cf)) \<in> set (bm_keys peers)" using p(2) by (simp add: bm_keys_iff)
  ultimately show ?thesis using v spec cf by (simp add: cfg)
qed

text \<open>Failure is for good.\<close>

lemma op_resultI: "run_op env op rt = Some rt' \<Longrightarrow> op_result env op rt rt'"
  by (simp add: op_result_def)

lemma op_result_failed:
  assumes "op_result env op rt rt'" "rt_failed rt"
  shows "rt_failed rt'"
  using assms(1)
proof (cases rule: op_resultE)
  case refused
  with assms(2) show ?thesis by simp
next
  case (ran n eff idx r rt1 ws)
  from ran(2) have "rt_failed rt1"
  proof (cases rule: effects_doneE)
    case (save_failed e)
    then show ?thesis by (elim save_nodeD) (use assms(2) in simp)
  next
    case (stopped rt2 ms r1 e)
    then obtain t where "rt1 = rt2\<lparr>rt_transport := t\<rparr>" using send_messages_frame by blast
    with savedD(7) [OF stopped(1)] assms(2) show ?thesis by simp
  next
    case (finished rt2 rt3 es)
    then obtain t where "rt3 = rt2\<lparr>rt_transport := t\<rparr>" using send_messages_frame by blast
    with savedD(7) [OF finished(1)] assms(2) finished(4) show ?thesis by (simp add: fold_apply_sel)
  qed
  with ran(3) show ?thesis by simp
qed

section \<open>A failed runtime that still answers\<close>

text \<open>The flag that fences a failed runtime is read before the lock is taken. A message that was
  admitted earlier and waited for the lock still runs, on a node whose state the failed save did
  not make durable.\<close>

definition demo_key :: RaftKey where
  "demo_key = RaftKey (replicate 32 7)"

definition demo_peers :: "(NodeId, SocketAddr) btreemap" where
  "demo_peers = bm_insert (NodeId 1) (V4 0 11) (bm_insert (NodeId 2) (V4 0 12)
     (bm_insert (NodeId 3) (V4 0 13) bm_empty))"

definition demo_config :: NodeConfig where
  "demo_config = \<lparr>nc_node_id = NodeId 1, client_addr = V4 0 1, raft_addr = V4 0 11, nc_peers = demo_peers,
     raft_key = demo_key, storage = storage_options_default, consensus = raft_config (NodeId 1)\<rparr>"

text \<open>An encoding of one delta, the vote for node 2 in term 1, and of one message.\<close>

definition demo_state :: Persistent where
  "demo_state = initial_state [NodeId 1, NodeId 2, NodeId 3]"

definition demo_voted :: Persistent where
  "demo_voted = demo_state\<lparr>p_term := 1, voted_for := Some (NodeId 2)\<rparr>"

definition demo_delta :: PersistentDelta where
  "demo_delta = \<lparr>pd_term = 1, pd_voted_for = Some (NodeId 2), pd_bootstrap_config = bootstrap_config demo_state,
     pd_truncate_after = 0, pd_entries = []\<rparr>"

definition vote_request :: Message where
  "vote_request = \<lparr>m_from = NodeId 2, m_to = NodeId 1, m_term = 1,
     m_payload = VoteRequest \<lparr>vq_last_log_index = 0, vq_last_log_term = 0\<rparr>\<rparr>"

definition demo_env :: Env where
  "demo_env = \<lparr>env_crc = no_crc, env_hmac = (\<lambda>_ _. replicate 32 0),
     delta_to_vec = (\<lambda>d. if d = demo_delta then Some [1] else None),
     delta_from_slice = (\<lambda>b. if b = [1] then Some demo_delta else None),
     command_to_vec = (\<lambda>c. if c = ReadBarrier then Some [1] else None),
     command_from_slice = (\<lambda>b. if b = [1] then Some ReadBarrier else None),
     message_to_vec = (\<lambda>m. if m = vote_request then Some [2] else None),
     message_from_slice = (\<lambda>b. if b = [2] then Some vote_request else None),
     error_text = (\<lambda>_. [])\<rparr>"

text \<open>The same with every delta encoded, and a disk whose first write after opening fails.\<close>

definition full_env :: Env where
  "full_env = demo_env\<lparr>delta_to_vec := (\<lambda>_. Some [1])\<rparr>"

definition failing_disk :: World where
  "failing_disk = empty_world\<lparr>w_script := replicate 21 IoOk @ [IoFail]\<rparr>"

definition request_entry :: Message where
  "request_entry = \<lparr>m_from = NodeId 2, m_to = NodeId 1, m_term = 1, m_payload = AppendRequest
     \<lparr>prev_log_index = 0, prev_log_term = 0,
      aq_entries = [\<lparr>e_term = 1, e_index = 1, e_payload = CommandPayload (Command [1])\<rparr>], leader_commit = 0\<rparr>\<rparr>"

definition later_heartbeat :: Message where
  "later_heartbeat = \<lparr>m_from = NodeId 2, m_to = NodeId 1, m_term = 1, m_payload = AppendRequest
     \<lparr>prev_log_index = 1, prev_log_term = 1, aq_entries = [], leader_commit = 0\<rparr>\<rparr>"

definition demo_runtime :: "Env \<Rightarrow> World \<Rightarrow> RaftRuntime option" where
  "demo_runtime env w = do {
     (r, w) \<leftarrow> runtime_open env demo_config kv_new w;
     (case r of Inl _ \<Rightarrow> None | Inr rt \<Rightarrow> Some rt) }"

definition late_ack :: "(RaftRuntime \<times> RaftRuntime \<times> RaftRuntime) option" where
  "late_ack = do {
     rt0 \<leftarrow> demo_runtime full_env failing_disk;
     rt1 \<leftarrow> run_op full_env (OpStep request_entry) rt0;
     rt2 \<leftarrow> run_op full_env (OpStep later_heartbeat) rt1;
     Some (rt0, rt1, rt2) }"

lemma late_ack_eval:
  "map_option (\<lambda>(rt0, rt1, rt2). (rt_failed rt0, rt_failed rt1,
     map (\<lambda>(_, m). (m_to m, m_payload m)) (tasks (rt_transport rt2)),
     log_entries (p_log (st_durable (rt_store rt2))))) late_ack =
   Some (False, True, [(NodeId 2, AppendResponse \<lparr>ar_success = True, ar_last_log_index = 1\<rparr>)], [])"
  by code_simp

lemma demo_runtimeD: "demo_runtime env w = Some rt \<Longrightarrow> \<exists>w'. runtime_open env demo_config kv_new w = Some (Inr rt, w')"
  unfolding demo_runtime_def
  by (cases "runtime_open env demo_config kv_new w") (auto split: sum.split_asm)

text \<open>C37. A failed runtime still acknowledges: there is an interleaving in which the save of an
  appended entry fails, the runtime is marked as failed, and an append request that had been
  admitted before then tells the leader that the entry is stored, while the log on disk is
  empty.\<close>

theorem failed_runtime_acknowledges:
  "\<exists>env cfg w w' rt0 adm rt a m. runtime_open env cfg kv_new w = Some (Inr rt0, w')
    \<and> interleaved env rt0 adm rt \<and> rt_failed rt
    \<and> (a, m) \<in> set (tasks (rt_transport rt))
    \<and> m_payload m = AppendResponse \<lparr>ar_success = True, ar_last_log_index = 1\<rparr>
    \<and> log_entries (p_log (st_durable (rt_store rt))) = []"
proof -
  obtain rt0 rt1 rt2 where r: "demo_runtime full_env failing_disk = Some rt0"
    "run_op full_env (OpStep request_entry) rt0 = Some rt1" "run_op full_env (OpStep later_heartbeat) rt1 = Some rt2"
    and e: "\<not> rt_failed rt0" "rt_failed rt1"
      "map (\<lambda>(_, m). (m_to m, m_payload m)) (tasks (rt_transport rt2)) =
        [(NodeId 2, AppendResponse \<lparr>ar_success = True, ar_last_log_index = 1\<rparr>)]"
      "log_entries (p_log (st_durable (rt_store rt2))) = []"
    using late_ack_eval by (auto simp: late_ack_def bind_eq_Some_conv)
  have "interleaved full_env rt0 [OpStep later_heartbeat, OpStep request_entry] rt0"
    using e(1) by (intro interleaved.admit_step interleaved.start)
  from interleaved.run [OF this _ op_resultI [OF r(2)]] have "interleaved full_env rt0 [OpStep later_heartbeat] rt1"
    by (simp add: request_entry_def later_heartbeat_def)
  from interleaved.run [OF this _ op_resultI [OF r(3)]] have i: "interleaved full_env rt0 [] rt2" by simp
  have f: "rt_failed rt2" using op_result_failed [OF op_resultI [OF r(3)] e(2)] .
  obtain a m where "tasks (rt_transport rt2) = [(a, m)]"
    "m_payload m = AppendResponse \<lparr>ar_success = True, ar_last_log_index = 1\<rparr>"
    using e(3) by (auto simp: Cons_eq_map_conv)
  with i f e(4) demo_runtimeD [OF r(1)] show ?thesis by fastforce
qed

section \<open>Runs of the runtime\<close>

definition voting :: "(RaftRuntime \<times> RaftRuntime) option" where
  "voting = do {
     rt0 \<leftarrow> demo_runtime demo_env empty_world;
     rt1 \<leftarrow> run_op demo_env (OpStep vote_request) rt0;
     Some (rt0, rt1) }"

definition vote_reply :: Message where
  "vote_reply = \<lparr>m_from = NodeId 1, m_to = NodeId 2, m_term = 1, m_payload = VoteResponse \<lparr>vr_granted = True\<rparr>\<rparr>"

lemma voting_eval:
  "map_option (\<lambda>(rt0, rt1). (st_durable (rt_store rt0) = demo_state \<and> persistent (core (rt_node rt0)) = demo_state
     \<and> config (core (rt_node rt0)) = consensus demo_config,
     rt_failed rt0, tasks (rt_transport rt0), rt_failed rt1, tasks (rt_transport rt1),
     persistent (core (rt_node rt1)) = demo_voted)) voting =
   Some (True, False, [], False, [(V4 0 12, vote_reply)], True)"
  by code_simp

text \<open>A node alone in its cluster: it wins its election and commits what a client proposes.\<close>

fun run_ticks :: "Env \<Rightarrow> nat \<Rightarrow> RaftRuntime \<Rightarrow> RaftRuntime option" where
  "run_ticks env 0 rt = Some rt"
| "run_ticks env (Suc k) rt = do { (_, rt) \<leftarrow> tick_once env rt; run_ticks env k rt }"

definition solo_config :: NodeConfig where
  "solo_config = demo_config\<lparr>nc_peers := bm_insert (NodeId 1) (V4 0 11) bm_empty,
     consensus := with_election_timeout (raft_config (NodeId 1)) 2 4\<rparr>"

definition solo :: "(RaftRuntime \<times> (ConnectError + PendingCleanup) \<times> RaftRuntime) option" where
  "solo = do {
     (r, w) \<leftarrow> runtime_open full_env solo_config kv_new empty_world;
     (case r of
        Inl _ \<Rightarrow> None
      | Inr rt0 \<Rightarrow> do {
          rt1 \<leftarrow> run_ticks full_env 5 rt0;
          (r, rt2) \<leftarrow> propose_start full_env ReadBarrier rt1;
          Some (rt0, r, rt2) }) }"

lemma solo_eval: "map_option (\<lambda>(_, r, rt). (r, rt_replies rt)) solo =
   Some (Inr \<lparr>pc_index = 1, pc_id = 1\<rparr>, [(1, Inr AppliedReadBarrier)])"
  by code_simp

lemma run_ticks_interleaved:
  "interleaved env rt0 adm rt \<Longrightarrow> run_ticks env k rt = Some rt' \<Longrightarrow> interleaved env rt0 adm rt'"
  by (induction k arbitrary: rt) (auto simp: bind_eq_Some_conv intro: tick_once_interleaved)

lemma solo_run: "\<exists>rt0 w rt. runtime_open full_env solo_config kv_new empty_world = Some (Inr rt0, w)
    \<and> interleaved full_env rt0 [] rt \<and> rt_replies rt = [(1, Inr AppliedReadBarrier)]"
proof -
  obtain r w where o: "runtime_open full_env solo_config kv_new empty_world = Some (r, w)"
    using solo_eval by (auto simp: solo_def bind_eq_Some_conv)
  then obtain rt0 where r: "r = Inr rt0" using solo_eval by (cases r) (auto simp: solo_def)
  then obtain rt1 cleanup rt where "run_ticks full_env 5 rt0 = Some rt1"
    "propose_start full_env ReadBarrier rt1 = Some (Inr cleanup, rt)" "rt_replies rt = [(1, Inr AppliedReadBarrier)]"
    using solo_eval o by (auto simp: solo_def bind_eq_Some_conv)
  moreover from this(1,2) have "interleaved full_env rt0 [] rt"
    by (intro propose_start_interleaved [OF run_ticks_interleaved [OF interleaved.start]])
  ultimately show ?thesis using o r by blast
qed

lemma voting_run:
  obtains rt0 rt1 w where "runtime_open demo_env demo_config kv_new empty_world = Some (Inr rt0, w)"
    "run_op demo_env (OpStep vote_request) rt0 = Some rt1" "\<not> rt_failed rt0" "\<not> rt_failed rt1"
    "tasks (rt_transport rt0) = []" "tasks (rt_transport rt1) = [(V4 0 12, vote_reply)]"
    "st_durable (rt_store rt0) = demo_state" "persistent (core (rt_node rt0)) = demo_state"
    "persistent (core (rt_node rt1)) = demo_voted" "config (core (rt_node rt0)) = consensus demo_config"
proof -
  obtain rt0 rt1 where "demo_runtime demo_env empty_world = Some rt0" "run_op demo_env (OpStep vote_request) rt0 = Some rt1"
    using voting_eval by (auto simp: voting_def bind_eq_Some_conv)
  with voting_eval demo_runtimeD [of demo_env empty_world rt0] that show thesis by (auto simp: voting_def)
qed

text \<open>The cluster that such a runtime is part of, with the vote request on the network.\<close>

definition asked :: "RaftRuntime \<Rightarrow> Cluster" where
  "asked rt = \<lparr>nodes = [NodeId 1 \<mapsto> rt_node rt], durable = Map.empty, network = {vote_request}, votes = {}, leaders = {}\<rparr>"

lemma asked_represents:
  assumes "tasks (rt_transport rt) = []" "st_durable (rt_store rt) = demo_state" "persistent (core (rt_node rt)) = demo_state"
  shows "represents [NodeId 1, NodeId 2, NodeId 3] (asked rt) (NodeId 1) rt"
    and "op_enabled (asked rt) (NodeId 1) (rt_node rt) (OpStep vote_request)"
  using assms
  by (simp_all add: represents_def asked_def saved_as_def demo_state_def op_enabled_def deliverable_def
      term_room_def node_term_def core_term_def vote_request_def initial_state_def persistent_default_def u64_max_def)

theorem runtime_refines_cluster_witness:
  "\<exists>rt0 rt1 S'. run_op demo_env (OpStep vote_request) rt0 = Some rt1 \<and> \<not> rt_failed rt1
    \<and> (cluster_step [NodeId 1, NodeId 2, NodeId 3])\<^sup>*\<^sup>* (asked rt0) S'
    \<and> represents [NodeId 1, NodeId 2, NodeId 3] S' (NodeId 1) rt1
    \<and> tasks (rt_transport rt1) = [(V4 0 12, vote_reply)]"
proof (rule voting_run)
  fix rt0 rt1 w
  assume v: "run_op demo_env (OpStep vote_request) rt0 = Some rt1" "\<not> rt_failed rt1"
    "tasks (rt_transport rt0) = []" "tasks (rt_transport rt1) = [(V4 0 12, vote_reply)]"
    "st_durable (rt_store rt0) = demo_state" "persistent (core (rt_node rt0)) = demo_state"
  from runtime_refines_cluster [OF asked_represents [OF v(3,5,6)] op_resultI [OF v(1)] v(2)] v(1,2,4) show ?thesis by blast
qed


theorem proposals_answered_once_witness:
  "\<exists>rt0 rt. interleaved full_env rt0 [] rt \<and> rt_replies rt = [(1, Inr AppliedReadBarrier)]
    \<and> (\<forall>x p. rt_waiters rt x = Some p \<longrightarrow> pp_id p \<noteq> 1)"
proof -
  from solo_run obtain rt0 w rt where r: "runtime_open full_env solo_config kv_new empty_world = Some (Inr rt0, w)"
    "interleaved full_env rt0 [] rt" "rt_replies rt = [(1, Inr AppliedReadBarrier)]" by blast
  from proposals_answered_once [OF r(1,2)] r(2,3) show ?thesis by auto
qed

theorem in_flight_bounded_witness:
  "\<exists>rt0 rt. interleaved demo_env rt0 [] rt \<and> tasks (rt_transport rt) = [(V4 0 12, vote_reply)]
    \<and> in_flight (rt_transport rt) (NodeId 2) \<le> 16
    \<and> (\<exists>p. bm_get (t_peers (rt_transport rt)) (NodeId 2) = Some p \<and> peer_addr p = V4 0 12)"
proof (rule voting_run)
  fix rt0 rt1 w
  assume v: "runtime_open demo_env demo_config kv_new empty_world = Some (Inr rt0, w)"
    "run_op demo_env (OpStep vote_request) rt0 = Some rt1" "\<not> rt_failed rt0"
    "tasks (rt_transport rt1) = [(V4 0 12, vote_reply)]"
  have "interleaved demo_env rt0 [OpStep vote_request] rt0"
    using v(3) by (intro interleaved.admit_step interleaved.start)
  from interleaved.run [OF this _ op_resultI [OF v(2)]] have "interleaved demo_env rt0 [] rt1" by simp
  moreover from in_flight_bounded [OF v(1) this, of "NodeId 2"] v(4)
  have "in_flight (rt_transport rt1) (NodeId 2) \<le> 16
      \<and> (\<exists>p. bm_get (t_peers (rt_transport rt1)) (NodeId 2) = Some p \<and> peer_addr p = V4 0 12)"
    by (simp add: vote_reply_def)
  ultimately show ?thesis using v(4) by blast
qed

lemma demo_config_ok:
  "validate_config demo_config = Inr ()" "timeout_ok (consensus demo_config)"
  "[NodeId 1, NodeId 2, NodeId 3] = bm_keys (nc_peers demo_config)"
  by code_simp+

lemma demo_opened:
  assumes "runtime_open demo_env demo_config kv_new empty_world = Some (Inr rt, w)"
  shows "store_inv (delta_from_slice demo_env) (env_crc demo_env) (initial_state [NodeId 1, NodeId 2, NodeId 3])
    (rt_store rt, rt_world rt) [[]]"
proof -
  let ?i = "initial_state [NodeId 1, NodeId 2, NodeId 3]"
  have "replayed (delta_from_slice demo_env) ?i (concat [[]]) ?i" by (simp add: replayed_def)
  with store_open_ok [OF empty_world_ok(1-3), of "env_crc demo_env" "[[]]" "[]" "delta_from_slice demo_env" ?i ?i]
    empty_world_ok(4)
  obtain st w1 where o: "store_open (delta_from_slice demo_env) (env_crc demo_env) ?i empty_world = (Inr st, w1)"
    "store_inv (delta_from_slice demo_env) (env_crc demo_env) ?i (st, w1) [[]]" by auto
  from runtime_open_ok [OF demo_config_ok o(1), of kv_new] assms obtain "rt_store rt = st" "rt_world rt = w1" by auto
  with o(2) show ?thesis by simp
qed

lemma demo_follows: "may_follow demo_state demo_voted"
  by (simp add: may_follow_def demo_voted_def demo_state_def initial_state_def persistent_default_def same_snapshot_def
      logs_match_def default_log_def last_index_def u64_max_def wf_log_def)

text \<open>After any operation there is a state that a crash may leave.\<close>

lemma op_result_crash:
  assumes codec: "\<And>x b. delta_to_vec env x = Some b \<Longrightarrow> delta_from_slice env b = Some x"
    and inv: "store_inv (delta_from_slice env) (env_crc env) initial (rt_store rt, rt_world rt) segs"
    and run: "op_result env op rt rt'"
    and follow: "may_follow (st_durable (rt_store rt)) (persistent (core (rt_node rt')))"
  shows "\<exists>w. crash (rt_world rt') w"
proof -
  have w: "wal_inv (env_crc env) (st_wal (rt_store rt), rt_world rt) segs"
    "options (st_wal (rt_store rt)) = wal_options_default"
    and du: "WalInv.durable (env_crc env) (rt_world rt) segs (length (last segs))"
    using inv by (simp_all add: store_inv_def)
  then have "wal_disk (env_crc env) (segment_size wal_options_default) (rt_world rt) segs []"
    by (simp add: wal_inv_def wal_disk_def)
  moreover have "synced_upto (env_crc env) (rt_world rt) segs (length (last segs))"
    using durable_crash_safe [OF du] by (simp add: crash_safe_def)
  ultimately have idle: "\<exists>w. crash (rt_world rt) w" by (rule crash_exists)
  from run show ?thesis
  proof (cases rule: op_resultE)
    case (ran n eff idx r rt1 ws)
    from ran(2,3) show ?thesis
    proof (cases rule: op_result_frame)
      case (wrote r0 st)
      from store_save_cases [OF codec inv follow [unfolded wrote(2)] wrote(3)] show ?thesis
        by (auto simp: crash_safe_def dest: crash_exists)
    qed (use idle in simp)
  qed (use idle in simp)
qed

theorem crash_restart_refines_cluster_witness:
  "\<exists>rt0 rt1 w rt3 w3 S'. run_op demo_env (OpStep vote_request) rt0 = Some rt1 \<and> crash (rt_world rt1) w
    \<and> runtime_open demo_env demo_config kv_new w = Some (Inr rt3, w3)
    \<and> (cluster_step [NodeId 1, NodeId 2, NodeId 3])\<^sup>*\<^sup>* (asked rt0) S'
    \<and> represents [NodeId 1, NodeId 2, NodeId 3] S' (NodeId 1) rt3 \<and> vote_reply \<in> network S'"
proof (rule voting_run)
  fix rt0 rt1 w0
  assume v: "runtime_open demo_env demo_config kv_new empty_world = Some (Inr rt0, w0)"
    "run_op demo_env (OpStep vote_request) rt0 = Some rt1"
    "tasks (rt_transport rt0) = []" "tasks (rt_transport rt1) = [(V4 0 12, vote_reply)]"
    "st_durable (rt_store rt0) = demo_state" "persistent (core (rt_node rt0)) = demo_state"
    "persistent (core (rt_node rt1)) = demo_voted" "config (core (rt_node rt0)) = consensus demo_config"
  let ?vs = "[NodeId 1, NodeId 2, NodeId 3]"
  let ?inv = "store_inv (delta_from_slice demo_env) (env_crc demo_env) (initial_state ?vs) (rt_store rt0, rt_world rt0)"
  have codec: "delta_from_slice demo_env b = Some x" if "delta_to_vec demo_env x = Some b" for x b
    using that by (simp add: demo_env_def split: if_splits)
  have cfg: "validate_config demo_config = Inr ()" "timeout_ok (consensus demo_config)"
    "?vs = bm_keys (nc_peers demo_config)" by (rule demo_config_ok)+
  from v(1) have inv: "?inv [[]]" by (rule demo_opened)
  have follow: "may_follow (st_durable (rt_store rt0)) (persistent (core (rt_node rt1)))"
    by (simp add: v(5,7) demo_follows)
  obtain w where cr: "crash (rt_world rt1) w" using op_result_crash [OF codec inv op_resultI [OF v(2)] follow] by blast
  from crash_restart_refines_cluster [OF codec inv asked_represents [OF v(3,5,6)] op_resultI [OF v(2)] follow cr cfg v(8) [symmetric], of kv_new]
    v(2,4) cr show ?thesis by fastforce
qed

text \<open>A runtime with a committed read barrier that a proposal waits for.\<close>

definition ready :: "RaftRuntime \<Rightarrow> RaftRuntime" where
  "ready rt = rt\<lparr>rt_node := (rt_node rt)\<lparr>core := (core (rt_node rt))\<lparr>persistent := demo_state\<lparr>p_log :=
       default_log\<lparr>log_entries := [\<lparr>e_term = 1, e_index = 1, e_payload = CommandPayload (Command [1])\<rparr>]\<rparr>\<rparr>,
       commit_index := 1, last_applied := 0\<rparr>\<rparr>,
     rt_waiters := [1 \<mapsto> \<lparr>pp_id = 7, pp_command = [1]\<rparr>], rt_replies := [], rt_state := kv_new\<rparr>"

lemma ready_facts:
  "wf_log (core_log (core (rt_node (ready rt))))"
  "committed (rt_node (ready rt)) = [\<lparr>ce_index = 1, ce_term = 1, ce_command = Command [1]\<rparr>]"
proof -
  let ?l = "default_log\<lparr>log_entries := [\<lparr>e_term = 1, e_index = 1, e_payload = CommandPayload (Command [1])\<rparr>]\<rparr>"
  have l: "core_log (core (rt_node (ready rt))) = ?l" by (simp add: ready_def core_log_def)
  show "wf_log (core_log (core (rt_node (ready rt))))" by (simp add: l wf_log_def default_log_def)
  have "range_excl 1 2 = [1 :: u64]"
    "log_get ?l 1 = Some \<lparr>e_term = 1, e_index = 1, e_payload = CommandPayload (Command [1])\<rparr>" by code_simp+
  then show "committed (rt_node (ready rt)) = [\<lparr>ce_index = 1, ce_term = 1, ce_command = Command [1]\<rparr>]"
    by (simp add: committed_def l) (simp add: ready_def map_filter_simps)
qed

theorem apply_committed_runs_log_witness:
  "\<exists>rt rt'. rt_waiters rt = [1 \<mapsto> \<lparr>pp_id = 7, pp_command = [1]\<rparr>] \<and> apply_committed demo_env rt = Some rt'
    \<and> committed (rt_node rt') = [] \<and> rt_replies rt' = [(7, Inr AppliedReadBarrier)] \<and> rt_waiters rt' 1 = None"
proof (rule voting_run)
  fix rt0 rt1 w0
  assume "runtime_open demo_env demo_config kv_new empty_world = Some (Inr rt0, w0)"
  have "snd (apply_command demo_env (Command [1]) kv_new) = Inr AppliedReadBarrier" by code_simp
  with apply_committed_runs_log [OF ready_facts(1), of demo_env rt0] obtain rt' new where
    "apply_committed demo_env (ready rt0) = Some rt'" "committed (rt_node rt') = []" "rt_replies rt' = new"
    "map fst new = [7]" "rt_waiters rt' 1 = None" "(7, Inr AppliedReadBarrier) \<in> set new"
    by (auto simp: ready_facts(2) map_filter_simps) (auto simp: ready_def applied_state_def complete_def)
  then show ?thesis by (intro exI [of _ "ready rt0"] exI [of _ rt']) (auto simp: ready_def)
qed

theorem cancelled_apply_resumes_witness:
  "\<exists>rt rt2 rt3. rt_waiters rt = [1 \<mapsto> \<lparr>pp_id = 7, pp_command = [1]\<rparr>] \<and> apply_some demo_env 0 rt = Some rt
    \<and> apply_committed demo_env rt = Some rt2 \<and> apply_committed demo_env (remove_pending 1 7 rt) = Some rt3
    \<and> rt_node rt3 = rt_node rt2 \<and> rt_state rt3 = rt_state rt2"
proof (rule voting_run)
  fix rt0 rt1 w0
  assume "runtime_open demo_env demo_config kv_new empty_world = Some (Inr rt0, w0)"
  have a: "apply_some demo_env 0 (ready rt0) = Some (ready rt0)" by (simp add: ready_facts(2))
  have w: "rt_waiters (ready rt0) = [1 \<mapsto> \<lparr>pp_id = 7, pp_command = [1]\<rparr>]" by (simp add: ready_def)
  from cancelled_apply_resumes [OF ready_facts(1) a, of 1 7] a w show ?thesis by blast
qed

lemma receive_eval:
  "map_option (\<lambda>rt. (validate_message rt vote_request,
     map_option fst (receive_raft demo_env (Some (replicate 64 CHR ''0'')) [2] rt)))
     (demo_runtime demo_env empty_world) =
   Some (Inr (), Some (Inr ()))"
  by code_simp

lemma demo_request:
  "raft_request (message_to_vec demo_env) (env_hmac demo_env) key vote_request = Inr (replicate 64 CHR ''0'', [2])"
proof -
  have "encode_hex (replicate 32 0) = replicate 64 CHR ''0''" by code_simp
  then show ?thesis
    by (simp add: raft_request_def demo_env_def MAX_RAFT_MESSAGE_BYTES_def signature_def)
qed

theorem only_peers_step_witness:
  "\<exists>rt rt' m. receive_raft demo_env (Some (replicate 64 CHR ''0'')) [2] rt = Some (Inr (), rt')
    \<and> message_from_slice demo_env [2] = Some m \<and> m_from m \<in> set (bm_keys (nc_peers (rt_config rt)))"
proof -
  obtain rt rt' where "receive_raft demo_env (Some (replicate 64 CHR ''0'')) [2] rt = Some (Inr (), rt')"
    using receive_eval by (auto simp: map_option_case split: option.splits)
  with only_peers_step [OF this] show ?thesis by blast
qed

theorem posted_message_arrives_witness:
  "\<exists>rt. demo_runtime demo_env empty_world = Some rt
    \<and> receive_raft demo_env (Some (replicate 64 CHR ''0'')) [2] rt =
        map_option (\<lambda>(r, rt). (map_sum StepFailed id r, rt)) (runtime_step demo_env vote_request rt)"
proof -
  obtain rt where rt: "demo_runtime demo_env empty_world = Some rt" "validate_message rt vote_request = Inr ()"
    using receive_eval by (auto simp: map_option_case split: option.splits)
  have codec: "message_from_slice demo_env b = Some x" if "message_to_vec demo_env x = Some b" for x b
    using that by (simp add: demo_env_def split: if_splits)
  have "length (env_hmac demo_env k b) = 32" for k b by (simp add: demo_env_def)
  from posted_message_arrives [OF codec this demo_request rt(2)] rt(1) show ?thesis by blast
qed

definition demo_file :: ConfigFile where
  "demo_file = \<lparr>cf_node = \<lparr>ns_id = 1, ns_host = ''a'', ns_client_port = 1, ns_raft_port = 2\<rparr>,
     cf_storage = \<lparr>sts_data_dir = ''/d''\<rparr>,
     cf_cluster = \<lparr>cs_raft_key = replicate 64 CHR ''a'',
       cs_peers = [\<lparr>ps_id = 1, ps_host = ''a'', ps_raft_port = 2\<rparr>, \<lparr>ps_id = 2, ps_host = ''b'', ps_raft_port = 2\<rparr>]\<rparr>\<rparr>"

definition demo_lookup :: "string \<Rightarrow> u16 \<Rightarrow> SocketAddr list option" where
  "demo_lookup host port = Some [V4 (if host = ''a'' then 1 else 2) port]"

lemma demo_file_parses: "isl (parse_node_config (\<lambda>_. Some demo_file) demo_lookup []) = False"
  by code_simp

theorem parsed_config_valid_witness:
  "\<exists>cfg. parse_node_config (\<lambda>_. Some demo_file) demo_lookup [] = Inr cfg \<and> validate_config cfg = Inr ()
    \<and> set (bm_keys (nc_peers cfg)) = {NodeId 1, NodeId 2}"
proof -
  obtain cfg where c: "parse_node_config (\<lambda>_. Some demo_file) demo_lookup [] = Inr cfg"
    using demo_file_parses by (cases "parse_node_config (\<lambda>_. Some demo_file) demo_lookup []") auto
  from parsed_config_valid [OF this] c show ?thesis by (simp add: demo_file_def)
qed

end
