(* ===== verification/Browse.thy ===== *)
theory Browse
  imports Kv
begin

text \<open>
  Metadata pages over the committed key-value state (\<open>basisdb-node/src/browse.rs\<close>). A page is
  read by walking the ordered map from a cursor. The loops are recursions over the rows that
  \<open>entries.range(start..)\<close> yields; \<open>None\<close> is the panic of indexing an empty page, which the
  limits accepted by \<open>page_limit\<close> exclude.
\<close>

record HeadResponse =
  hd_namespace :: string
  hd_key :: string
  hd_etag :: string
  hd_generation :: u64
  hd_size :: u64

record Namespace =
  ns_name :: string
  ns_key_count :: u64

record ListResponse =
  lr_entries :: "HeadResponse list"
  lr_next_start_after :: string

record ListNamespacesResponse =
  ln_namespaces :: "Namespace list"
  ln_next_start_after :: string

definition page_limit :: "u32 \<Rightarrow> ConnectError + nat" where
  "page_limit limit =
    (if limit = 0 then Inr 50
     else if limit \<le> 100 then Inr (unat limit)
     else Inl (ConnectError InvalidArgument ''page limit must not exceed 100''))"

definition validate_namespace_cursor :: "string \<Rightarrow> ConnectError + unit" where
  "validate_namespace_cursor cursor =
    (if length cursor > MAX_NAMESPACE_BYTES
     then Inl (ConnectError InvalidArgument ''namespace cursor exceeds 255-byte limit'')
     else Inr ())"

definition validate_list :: "string \<Rightarrow> string \<Rightarrow> string \<Rightarrow> ConnectError + unit" where
  "validate_list namespace pre start_after =
    (if namespace = [] \<or> length namespace > MAX_NAMESPACE_BYTES
     then Inl (ConnectError InvalidArgument ''namespace must contain 1 to 255 bytes'')
     else if length pre > MAX_KEY_BYTES \<or> length start_after > MAX_KEY_BYTES
     then Inl (ConnectError InvalidArgument ''prefix and cursor must not exceed 1024 bytes'')
     else Inr ())"

text \<open>\<open>entries.range(start..)\<close>\<close>

definition range_from :: "(KvName, KvRecord) btreemap \<Rightarrow> KvName \<Rightarrow> (KvName \<times> KvRecord) list" where
  "range_from m start = filter (\<lambda>p. start \<le> fst p) (entries_of m)"

fun namespace_rows ::
    "string \<Rightarrow> nat \<Rightarrow> (KvName \<times> KvRecord) list \<Rightarrow> Namespace list
      \<Rightarrow> (ConnectError + Namespace list \<times> string) option" where
  "namespace_rows start_after limit [] page = Some (Inr (page, []))"
| "namespace_rows start_after limit ((name, r) # rest) page =
    (if name_namespace name = start_after then namespace_rows start_after limit rest page
     else
       let fresh = (page = [] \<or> ns_name (last page) \<noteq> name_namespace name) in
       if fresh \<and> length page = limit then
         (if limit = 0 then None else Some (Inr (page, ns_name (page ! (limit - 1)))))
       else
         let page = (if fresh then page @ [\<lparr>ns_name = name_namespace name, ns_key_count = 0\<rparr>]
                     else page);
             index = length page - 1
         in case checked_add (ns_key_count (page ! index)) 1 of
              None \<Rightarrow> Some (Inl (ConnectError ResourceExhausted ''namespace key count overflow''))
            | Some n \<Rightarrow>
                namespace_rows start_after limit rest
                  (page[index := (page ! index)\<lparr>ns_key_count := n\<rparr>]))"

definition namespaces ::
    "KvState \<Rightarrow> string \<Rightarrow> nat \<Rightarrow> (ConnectError + ListNamespacesResponse) option" where
  "namespaces st start_after limit =
    map_option (map_sum id (\<lambda>(page, next). \<lparr>ln_namespaces = page, ln_next_start_after = next\<rparr>))
      (namespace_rows start_after limit (range_from (kv_entries st) (KvName start_after [])) [])"

fun entry_rows ::
    "string \<Rightarrow> string \<Rightarrow> string \<Rightarrow> nat \<Rightarrow> (KvName \<times> KvRecord) list \<Rightarrow> HeadResponse list
      \<Rightarrow> (ConnectError + HeadResponse list \<times> string) option" where
  "entry_rows namespace pre start_after limit [] page = Some (Inr (page, []))"
| "entry_rows namespace pre start_after limit ((name, r) # rest) page =
    (if name_namespace name \<noteq> namespace \<or> \<not> starts_with (name_key name) pre
     then Some (Inr (page, []))
     else if name_key name \<le> start_after
     then entry_rows namespace pre start_after limit rest page
     else if length page = limit then
       (if limit = 0 then None else Some (Inr (page, hd_key (page ! (limit - 1)))))
     else case body_len (kr_body r) of
            Inl e \<Rightarrow> Some (Inl e)
          | Inr sz \<Rightarrow>
              entry_rows namespace pre start_after limit rest
                (page @ [\<lparr>hd_namespace = name_namespace name, hd_key = name_key name,
                         hd_etag = kr_etag r, hd_generation = kr_generation r, hd_size = sz\<rparr>]))"

definition entries ::
    "KvState \<Rightarrow> string \<Rightarrow> string \<Rightarrow> string \<Rightarrow> nat \<Rightarrow> (ConnectError + ListResponse) option" where
  "entries st namespace pre start_after limit =
    map_option (map_sum id (\<lambda>(page, next). \<lparr>lr_entries = page, lr_next_start_after = next\<rparr>))
      (entry_rows namespace pre start_after limit
        (range_from (kv_entries st) (KvName namespace (max pre start_after))) [])"

section \<open>What a key page holds\<close>

text \<open>The rows a listing is about, in key order: the keys of the namespace with the prefix that
  come after the cursor.\<close>

definition matches :: "string \<Rightarrow> string \<Rightarrow> string \<Rightarrow> KvName \<Rightarrow> bool" where
  "matches namespace pre start_after name \<longleftrightarrow>
    name_namespace name = namespace \<and> starts_with (name_key name) pre
    \<and> start_after < name_key name"

definition matching ::
    "KvState \<Rightarrow> string \<Rightarrow> string \<Rightarrow> string \<Rightarrow> (KvName \<times> KvRecord) list" where
  "matching st namespace pre start_after =
    filter (\<lambda>p. matches namespace pre start_after (fst p)) (entries_of (kv_entries st))"

definition head_of :: "KvName \<times> KvRecord \<Rightarrow> HeadResponse" where
  "head_of p =
    \<lparr>hd_namespace = name_namespace (fst p), hd_key = name_key (fst p),
     hd_etag = kr_etag (snd p), hd_generation = kr_generation (snd p),
     hd_size = of_nat (length (kr_body (snd p)))\<rparr>"

text \<open>The page cut out of the matching rows, with the cursor of the next page.\<close>

definition cut_page :: "nat \<Rightarrow> (KvName \<times> KvRecord) list \<Rightarrow> HeadResponse list \<times> string" where
  "cut_page limit rows =
    (map head_of (take limit rows),
     if limit < length rows then name_key (fst (rows ! (limit - 1))) else [])"

lemma entry_rows_spec:
  assumes "0 < limit" "length acc \<le> limit"
    and "sorted_wrt (<) (map fst rows)"
    and "\<forall>p \<in> set rows. KvName namespace pre \<le> fst p"
    and "\<forall>p \<in> set rows. length (kr_body (snd p)) \<le> MAX_VALUE_BYTES"
  shows "entry_rows namespace pre start_after limit rows (map head_of acc) =
    Some (Inr (cut_page limit (acc @ filter (\<lambda>p. matches namespace pre start_after (fst p)) rows)))"
  using assms(2-)
proof (induction rows arbitrary: acc)
  case Nil
  then show ?case using assms(1) by (simp add: cut_page_def)
next
  case (Cons p rest)
  obtain name r where p: "p = (name, r)" by (cases p)
  let ?f = "filter (\<lambda>p. matches namespace pre start_after (fst p))"
  show ?case
  proof (cases "name_namespace name \<noteq> namespace \<or> \<not> starts_with (name_key name) pre")
    case True
    have "\<not> matches namespace pre start_after (fst q)" if "q \<in> set (p # rest)" for q
    proof (cases "q = p")
      case False
      with that Cons.prems(2) p have "name < fst q" by auto
      moreover have "KvName namespace pre \<le> name" using Cons.prems(3) p by auto
      ultimately have "name_namespace name = namespace \<and> pre \<le> name_key name
          \<and> name_key name \<le> name_key (fst q)" if "name_namespace (fst q) = namespace"
        using that unfolding less_KvName_def less_eq_KvName_def KvName.sel
        by (metis less_asym less_imp_le)
      with True show ?thesis
        using starts_with_interval [of pre "name_key name" "name_key (fst q)"]
        unfolding matches_def by blast
    qed (use True p in \<open>auto simp: matches_def\<close>)
    then have "?f (p # rest) = []" by (simp add: filter_empty_conv del: filter.simps)
    with True p Cons.prems(1) assms(1) show ?thesis by (simp add: cut_page_def)
  next
    case False
    show ?thesis
    proof (cases "name_key name \<le> start_after")
      case True
      then have "\<not> matches namespace pre start_after name" by (auto simp: matches_def)
      with True False p Cons.IH [OF Cons.prems(1)] Cons.prems(2-) show ?thesis by simp
    next
      case after: False
      with False p have m: "?f (p # rest) = p # ?f rest" by (simp add: matches_def not_le)
      show ?thesis
      proof (cases "length acc = limit")
        case True
        with False after p m assms(1) show ?thesis
          by (simp add: cut_page_def nth_append head_of_def)
      next
        case less: False
        have "body_len (kr_body r) = Inr (of_nat (length (kr_body r)))"
          using Cons.prems(4) p by (simp add: body_len_small)
        with False after less p have "entry_rows namespace pre start_after limit (p # rest) (map head_of acc)
            = entry_rows namespace pre start_after limit rest (map head_of (acc @ [p]))"
          by (simp add: head_of_def)
        moreover have "length (acc @ [p]) \<le> limit" using less Cons.prems(1) by simp
        ultimately show ?thesis using Cons.IH [of "acc @ [p]"] Cons.prems(2-) m by simp
      qed
    qed
  qed
qed

lemma sorted_range_from: "sorted_wrt (<) (map fst (range_from m start))"
  unfolding range_from_def using bm_keys_strict [of m] strict_filter_keys by (simp add: bm_keys_def)

lemma record_body_small:
  "kv_inv st \<Longrightarrow> (n, r) \<in> set (entries_of (kv_entries st)) \<Longrightarrow> length (kr_body r) \<le> MAX_VALUE_BYTES"
  by (auto simp: in_entries_iff kv_inv_def record_ok_def)

lemma entries_eq:
  assumes "kv_inv st" "0 < limit"
  shows "entries st namespace pre start_after limit =
    Some (Inr (let (page, next) = cut_page limit (matching st namespace pre start_after)
      in \<lparr>lr_entries = page, lr_next_start_after = next\<rparr>))"
proof -
  let ?rows = "range_from (kv_entries st) (KvName namespace (max pre start_after))"
  have "pre \<le> max pre start_after" by simp
  then have "\<forall>p \<in> set ?rows. KvName namespace pre \<le> fst p"
    by (auto simp: range_from_def less_eq_KvName_def)
  moreover have "\<forall>p \<in> set ?rows. length (kr_body (snd p)) \<le> MAX_VALUE_BYTES"
    using record_body_small [OF assms(1)] by (auto simp: range_from_def)
  moreover have "filter (\<lambda>p. matches namespace pre start_after (fst p)) ?rows =
      matching st namespace pre start_after"
    unfolding matching_def range_from_def filter_filter
    by (rule filter_cong) (auto simp: matches_def less_eq_KvName_def dest: starts_with_le)
  ultimately show ?thesis
    using entry_rows_spec [OF assms(2), of "[]" ?rows namespace pre start_after] sorted_range_from
    by (simp add: entries_def cut_page_def)
qed

section \<open>What a namespace page holds\<close>

text \<open>The namespaces of a sorted list of rows, in order, each with its number of rows.\<close>

definition ns_row :: "string list \<Rightarrow> string \<Rightarrow> Namespace" where
  "ns_row xs x = \<lparr>ns_name = x, ns_key_count = of_nat (count_list xs x)\<rparr>"

definition ns_page :: "string list \<Rightarrow> Namespace list" where
  "ns_page xs = map (ns_row xs) (remdups_adj xs)"

definition cut_namespaces :: "nat \<Rightarrow> string list \<Rightarrow> Namespace list \<times> string" where
  "cut_namespaces limit xs =
    (take limit (ns_page xs),
     if limit < length (remdups_adj xs) then remdups_adj xs ! (limit - 1) else [])"

lemma remdups_adj_split:
  "xs \<noteq> [] \<Longrightarrow> ys \<noteq> [] \<Longrightarrow> last xs \<noteq> hd ys \<Longrightarrow>
    remdups_adj (xs @ ys) = remdups_adj xs @ remdups_adj ys"
proof (induction xs rule: remdups_adj.induct)
  case (2 x)
  then show ?case by (cases ys) (simp_all add: remdups_adj_Cons' )
qed auto

lemma remdups_adj_snoc_same:
  "xs \<noteq> [] \<Longrightarrow> remdups_adj (xs @ [last xs]) = remdups_adj xs"
  by (induction xs rule: remdups_adj.induct) auto

lemma remdups_adj_snoc_new: "xs = [] \<or> last xs \<noteq> x \<Longrightarrow> remdups_adj (xs @ [x]) = remdups_adj xs @ [x]"
  by (cases "xs = []") (simp_all add: remdups_adj_split)

lemma ns_page_simps [simp]:
  "length (ns_page xs) = length (remdups_adj xs)" "ns_page [] = []" "ns_page xs = [] \<longleftrightarrow> xs = []"
  by (simp_all add: ns_page_def)

lemma last_ns_page: "xs \<noteq> [] \<Longrightarrow> last (ns_page xs) = ns_row xs (last xs)"
  by (simp add: ns_page_def last_map last_remdups_adj)

lemma ns_page_snoc_new:
  assumes "x \<notin> set xs"
  shows "ns_page (xs @ [x]) = ns_page xs @ [\<lparr>ns_name = x, ns_key_count = 1\<rparr>]"
proof -
  have "xs = [] \<or> last xs \<noteq> x" using assms last_in_set [of xs] by auto
  moreover have "ns_row (xs @ [x]) y = ns_row xs y" if "y \<in> set xs" for y
    using that assms by (auto simp: ns_row_def count_list_append)
  ultimately show ?thesis
    using assms by (simp add: ns_page_def remdups_adj_snoc_new ns_row_def count_list_append
        count_notin cong: map_cong)
qed

lemma sorted_remdups_adj_distinct: "sorted xs \<Longrightarrow> distinct (remdups_adj xs)"
  by (induction xs rule: remdups_adj.induct) auto

lemma ns_page_snoc_same:
  assumes "sorted xs" "xs \<noteq> []"
  shows "ns_page (xs @ [last xs]) =
    butlast (ns_page xs) @ [\<lparr>ns_name = last xs, ns_key_count = of_nat (count_list xs (last xs) + 1)\<rparr>]"
proof -
  obtain q where r: "remdups_adj xs = q @ [last xs]"
    using assms(2) last_remdups_adj [of xs] append_butlast_last_id [of "remdups_adj xs"]
    by (metis remdups_adj_Nil_iff)
  then have "last xs \<notin> set q" using sorted_remdups_adj_distinct [OF assms(1)] by simp
  then have "ns_row (xs @ [last xs]) y = ns_row xs y" if "y \<in> set q" for y
    using that by (auto simp: ns_row_def count_list_append)
  with r remdups_adj_snoc_same [OF assms(2)] show ?thesis
    by (simp add: ns_page_def ns_row_def count_list_append)
qed


lemma sorted_le_last: "x \<in> set xs \<Longrightarrow> sorted xs \<Longrightarrow> x \<le> last xs"
  by (induction xs) auto

lemma ns_page_prefix:
  assumes "sorted (xs @ ys)" "ys \<noteq> []" "hd ys \<notin> set xs"
  shows "take (length (remdups_adj xs)) (ns_page (xs @ ys)) = ns_page xs
    \<and> take (length (remdups_adj xs)) (remdups_adj (xs @ ys)) = remdups_adj xs
    \<and> length (remdups_adj xs) < length (remdups_adj (xs @ ys))"
proof (cases "xs = []")
  case False
  have "last xs \<noteq> hd ys" using False assms(3) by (metis last_in_set)
  then have r: "remdups_adj (xs @ ys) = remdups_adj xs @ remdups_adj ys"
    using False assms(2) by (simp add: remdups_adj_split)
  have "x \<notin> set ys" if "x \<in> set xs" for x
  proof
    assume "x \<in> set ys"
    moreover have "\<forall>y \<in> set ys. hd ys \<le> y" using assms(1,2) by (cases ys) (auto simp: sorted_append)
    moreover have "x \<le> hd ys" using assms(1,2) that by (simp add: sorted_append)
    ultimately show False using that assms(3) by (metis order_antisym)
  qed
  then have "ns_row (xs @ ys) x = ns_row xs x" if "x \<in> set xs" for x
    using that by (simp add: ns_row_def count_list_append count_notin)
  with r assms(2) show ?thesis by (simp add: ns_page_def)
qed (use assms(2) in simp)

lemma unat_count: "length xs < 2 ^ 64 \<Longrightarrow> unat (of_nat (count_list xs x) :: u64) = count_list xs x"
  using count_le_length [of xs x] by (intro unat_u64_of_nat) simp

lemma namespace_rows_spec:
  assumes "0 < limit" "length (remdups_adj xs) \<le> limit"
    and "sorted (xs @ map (\<lambda>p. name_namespace (fst p)) rows)"
    and "length xs + length rows < 2 ^ 64" and "start_after \<notin> set xs"
  shows "namespace_rows start_after limit rows (ns_page xs) = Some (Inr (cut_namespaces limit
    (xs @ filter (\<lambda>x. x \<noteq> start_after) (map (\<lambda>p. name_namespace (fst p)) rows))))"
  using assms(2-)
proof (induction rows arbitrary: xs)
  case Nil
  then show ?case by (simp add: cut_namespaces_def)
next
  case (Cons p rest)
  obtain name r where p: "p = (name, r)" by (cases p)
  let ?x = "name_namespace name" and ?ns = "\<lambda>p. name_namespace (fst p)"
  let ?ys = "filter (\<lambda>x. x \<noteq> start_after) (map ?ns rest)"
  have srt: "sorted xs" using Cons.prems(2) by (simp add: sorted_append)
  show ?case
  proof (cases "?x = start_after")
    case True
    moreover have "sorted (xs @ map ?ns rest)" using Cons.prems(2) by (auto simp: sorted_append)
    ultimately show ?thesis using p Cons.IH [of xs] Cons.prems by simp
  next
    case False
    have srt': "sorted ((xs @ [?x]) @ map ?ns rest)" using Cons.prems(2) p by simp
    have IH: "namespace_rows start_after limit rest (ns_page (xs @ [?x])) =
        Some (Inr (cut_namespaces limit ((xs @ [?x]) @ ?ys)))"
      if "length (remdups_adj (xs @ [?x])) \<le> limit"
      using Cons.IH [OF that srt'] Cons.prems(3,4) False by simp
    show ?thesis
    proof (cases "xs = [] \<or> last xs \<noteq> ?x")
      case fresh: True
      have new: "?x \<notin> set xs"
      proof
        assume x: "?x \<in> set xs"
        then have "?x \<le> last xs" using srt by (rule sorted_le_last)
        moreover have "last xs \<in> set xs" using x by (intro last_in_set) auto
        then have "last xs \<le> ?x" using srt' by (simp add: sorted_append del: last_in_set)
        ultimately show False using fresh x by auto
      qed
      have pf: "(ns_page xs = [] \<or> ns_name (last (ns_page xs)) \<noteq> ?x) = True"
        using fresh by (auto simp: last_ns_page ns_row_def)
      show ?thesis
      proof (cases "length (remdups_adj xs) = limit")
        case True
        have "sorted (xs @ (?x # ?ys))"
          using srt' by (auto simp: sorted_append sorted_wrt_filter)
        from ns_page_prefix [OF this] new have
          pre: "take limit (ns_page (xs @ ?x # ?ys)) = ns_page xs"
          "take limit (remdups_adj (xs @ ?x # ?ys)) = remdups_adj xs"
          "limit < length (remdups_adj (xs @ ?x # ?ys))"
          unfolding True by simp_all
        have "remdups_adj (xs @ ?x # ?ys) ! (limit - 1) = remdups_adj xs ! (limit - 1)"
          using nth_take [of "limit - 1" limit "remdups_adj (xs @ ?x # ?ys)"] assms(1)
          unfolding pre(2) by simp
        with pre have
          "cut_namespaces limit (xs @ ?x # ?ys) = (ns_page xs, remdups_adj xs ! (limit - 1))"
          by (simp only: cut_namespaces_def if_True)
        moreover have "ns_name (ns_page xs ! (limit - 1)) = remdups_adj xs ! (limit - 1)"
          using True assms(1) by (simp add: ns_page_def ns_row_def)
        ultimately show ?thesis using p False pf True assms(1) by (simp add: Let_def)
      next
        case less: False
        have "checked_add 0 1 = Some 1" by (simp add: checked_add_1 u64_max_def)
        with p False pf less have "namespace_rows start_after limit (p # rest) (ns_page xs) =
            namespace_rows start_after limit rest (ns_page (xs @ [?x]))"
          by (simp add: Let_def ns_page_snoc_new [OF new] nth_append list_update_append)
        moreover have "length (remdups_adj (xs @ [?x])) \<le> limit"
          using less Cons.prems(1) fresh by (simp add: remdups_adj_snoc_new)
        ultimately show ?thesis using IH p False by simp
      qed
    next
      case old: False
      have pf: "(ns_page xs = [] \<or> ns_name (last (ns_page xs)) \<noteq> ?x) = False"
        using old by (simp add: last_ns_page ns_row_def)
      obtain q where q: "ns_page xs = q @ [ns_row xs ?x]"
        using old last_ns_page [of xs] append_butlast_last_id [of "ns_page xs"]
        by (metis ns_page_simps(3))
      have "count_list xs ?x < 2 ^ 64 - 1"
        using Cons.prems(3) count_le_length [of xs ?x] by simp
      then have "checked_add (of_nat (count_list xs ?x)) 1 = Some (of_nat (count_list xs ?x) + 1)"
        by (simp add: checked_add_nat unat_u64_of_nat)
      with p False pf q have "namespace_rows start_after limit (p # rest) (ns_page xs) =
          namespace_rows start_after limit rest (ns_page (xs @ [?x]))"
        using ns_page_snoc_same [OF srt] old
        by (simp add: Let_def ns_row_def add.commute)
      moreover have "length (remdups_adj (xs @ [?x])) \<le> limit"
        using old Cons.prems(1) remdups_adj_snoc_same [of xs] by simp
      ultimately show ?thesis using IH p False by simp
    qed
  qed
qed

section \<open>Following the cursor\<close>

text \<open>What a client reads that asks for page after page until the cursor is empty.\<close>

fun walk :: "nat \<Rightarrow> KvState \<Rightarrow> string \<Rightarrow> string \<Rightarrow> string \<Rightarrow> nat \<Rightarrow> HeadResponse list option" where
  "walk 0 st namespace pre start_after limit = None"
| "walk (Suc n) st namespace pre start_after limit =
    (case entries st namespace pre start_after limit of
       Some (Inr page) \<Rightarrow>
         if lr_next_start_after page = [] then Some (lr_entries page)
         else map_option ((@) (lr_entries page))
                (walk n st namespace pre (lr_next_start_after page) limit)
     | _ \<Rightarrow> None)"

lemma filter_after_nth:
  fixes f :: "'a \<Rightarrow> 'b :: linorder"
  assumes "sorted_wrt (<) (map f xs)" "0 < n" "n \<le> length xs"
  shows "filter (\<lambda>x. f (xs ! (n - 1)) < f x) xs = drop n xs"
proof -
  let ?k = "f (xs ! (n - 1))"
  have "\<not> ?k < f x" if x: "x \<in> set (take n xs)" for x
  proof -
    obtain i where i: "x = xs ! i" "i < n"
      using x assms(3) by (auto simp: in_set_conv_nth)
    have "f (xs ! i) \<le> ?k"
    proof (cases "i = n - 1")
      case False
      with i assms show ?thesis
        using sorted_wrt_nth_less [OF assms(1), of i "n - 1"] by (simp add: less_imp_le)
    qed simp
    with i show ?thesis by simp
  qed
  then have "filter (\<lambda>x. ?k < f x) (take n xs) = []" by (simp add: filter_empty_conv)
  moreover have "?k < f x" if x: "x \<in> set (drop n xs)" for x
  proof -
    obtain i where i: "x = xs ! (n + i)" "n + i < length xs"
      using x assms(3) by (auto simp: in_set_conv_nth)
    with assms show ?thesis using sorted_wrt_nth_less [OF assms(1), of "n - 1" "n + i"] by simp
  qed
  then have "filter (\<lambda>x. ?k < f x) (drop n xs) = drop n xs" by simp
  ultimately show ?thesis by (metis append.left_neutral append_take_drop_id filter_append)
qed

lemma matching_keys_strict:
  "sorted_wrt (<) (map (\<lambda>p. name_key (fst p)) (matching st namespace pre start_after))"
proof -
  have "sorted_wrt (<) (map fst (matching st namespace pre start_after))"
    unfolding matching_def using bm_keys_strict [of "kv_entries st"] strict_filter_keys
    by (simp add: bm_keys_def)
  then show ?thesis
    unfolding sorted_wrt_map
    by (rule sorted_wrt_mono_rel [rotated]) (auto simp: matching_def matches_def less_KvName_def)
qed

lemma matching_after:
  assumes "0 < limit" "limit < length (matching st namespace pre start_after)"
  shows "matching st namespace pre
      (name_key (fst (matching st namespace pre start_after ! (limit - 1)))) =
    drop limit (matching st namespace pre start_after)"
proof -
  let ?m = "matching st namespace pre start_after"
  have "?m ! (limit - 1) \<in> set ?m" using assms by simp
  then have "start_after < name_key (fst (?m ! (limit - 1)))"
    by (auto simp: matching_def matches_def)
  then have "matching st namespace pre (name_key (fst (?m ! (limit - 1)))) =
      filter (\<lambda>p. name_key (fst (?m ! (limit - 1))) < name_key (fst p)) ?m"
    unfolding matching_def filter_filter
    by (intro filter_cong) (auto simp: matches_def)
  also have "\<dots> = drop limit ?m"
    using filter_after_nth [OF matching_keys_strict, of limit] assms by simp
  finally show ?thesis .
qed

lemma walk_complete:
  assumes "kv_inv st" "0 < limit"
  shows "length (matching st namespace pre start_after) < n * limit \<Longrightarrow>
    walk n st namespace pre start_after limit =
      Some (map head_of (matching st namespace pre start_after))"
proof (induction n arbitrary: start_after)
  case (Suc n)
  let ?m = "matching st namespace pre start_after"
  show ?case
  proof (cases "limit < length ?m")
    case True
    let ?k = "name_key (fst (?m ! (limit - 1)))"
    have "?m ! (limit - 1) \<in> set ?m" using True assms(2) by simp
    then have "start_after < ?k" unfolding matching_def matches_def by (simp only: set_filter) blast
    then have "?k \<noteq> []" by auto
    moreover have "length (matching st namespace pre ?k) < n * limit"
      using Suc.prems True matching_after [OF assms(2) True] by simp
    ultimately show ?thesis
      using Suc.IH [of ?k] True matching_after [OF assms(2) True]
      by (simp add: entries_eq [OF assms] cut_page_def flip: map_append)
  qed (simp add: entries_eq [OF assms] cut_page_def)
qed simp

lemma length_entries: "kv_inv st \<Longrightarrow> length (entries_of (kv_entries st)) < 2 ^ 64"
proof -
  assume inv: "kv_inv st"
  let ?es = "entries_of (kv_entries st)"
  let ?g = "\<lambda>p. unat (kr_generation (snd p))"
  have "inj_on ?g (set ?es)"
  proof (rule inj_onI)
    fix p q assume pq: "p \<in> set ?es" "q \<in> set ?es" "?g p = ?g q"
    obtain n1 r1 n2 r2 where p: "p = (n1, r1)" and q: "q = (n2, r2)" by (metis prod.exhaust)
    with pq have get: "bm_get (kv_entries st) n1 = Some r1" "bm_get (kv_entries st) n2 = Some r2"
      "kr_generation r1 = kr_generation r2"
      by (auto simp: in_entries_iff word_unat_eq_iff)
    then have "n1 = n2" using inv unfolding kv_inv_def by blast
    with get p q show "p = q" by simp
  qed
  moreover have "distinct ?es" using bm_keys_distinct [of "kv_entries st"]
    by (simp add: bm_keys_def distinct_map)
  moreover have "?g ` set ?es \<subseteq> {..<unat (next_generation st)}"
    using inv by (auto simp: in_entries_iff kv_inv_def record_ok_def word_less_nat_alt)
  ultimately have "length ?es \<le> unat (next_generation st)"
    using card_inj_on_le [of ?g "set ?es" "{..<unat (next_generation st)}"]
    by (simp add: distinct_card)
  then show ?thesis using unat_u64_lt [of "next_generation st"] by linarith
qed

section \<open>Properties\<close>

text \<open>\<open>List\<close> returns the keys it should: with an accepted limit the page is the first
  \<open>limit\<close> rows, in key order, of the keys of the namespace that have the prefix and come after
  the cursor, and the cursor it returns is the last key of the page when rows remain and empty
  otherwise. It never panics and never fails.\<close>

theorem list_page_spec:
  assumes "kv_inv st" and "page_limit lim = Inr limit"
  shows "let rows = matching st namespace pre start_after in
    entries st namespace pre start_after limit = Some (Inr
      \<lparr>lr_entries = map head_of (take limit rows),
       lr_next_start_after =
         (if limit < length rows then name_key (fst (rows ! (limit - 1))) else [])\<rparr>)
    \<and> limit \<le> 100"
proof -
  have "0 < limit" "limit \<le> 100"
    using assms(2) by (auto simp: page_limit_def word_le_nat_alt unat_gt_0 split: if_splits)
  then show ?thesis by (simp add: entries_eq [OF assms(1)] cut_page_def Let_def)
qed

text \<open>C34. Following the cursor until it is empty visits every matching key exactly once, in
  order, and ends.\<close>

theorem list_pages_complete:
  assumes "kv_inv st" and "page_limit lim = Inr limit"
    and "length (matching st namespace pre []) < n * limit"
  shows "walk n st namespace pre [] limit = Some (map head_of (matching st namespace pre []))
    \<and> distinct (map hd_key (map head_of (matching st namespace pre [])))"
proof -
  have "0 < limit"
    using assms(2) by (auto simp: page_limit_def unat_gt_0 split: if_splits)
  then show ?thesis
    using walk_complete [OF assms(1) _ assms(3)] matching_keys_strict [of st namespace pre "[]"]
    by (simp add: strict_sorted_iff head_of_def o_def)
qed

text \<open>\<open>ListNamespaces\<close> returns the first \<open>limit\<close> namespaces after the cursor, in order,
  each with the number of its keys, and the name of the last one as cursor when namespaces
  remain; the key counter cannot overflow.\<close>

theorem namespaces_page_spec:
  assumes "kv_inv st" and "page_limit lim = Inr limit"
  shows "let xs = map (\<lambda>p. name_namespace (fst p)) (filter (\<lambda>p. start_after < name_namespace (fst p))
           (entries_of (kv_entries st)))
    in namespaces st start_after limit = Some (Inr
      \<lparr>ln_namespaces = map (\<lambda>x. \<lparr>ns_name = x, ns_key_count = of_nat (count_list xs x)\<rparr>)
         (take limit (remdups_adj xs)),
       ln_next_start_after =
         (if limit < length (remdups_adj xs) then remdups_adj xs ! (limit - 1) else [])\<rparr>)
      \<and> sorted_wrt (<) (remdups_adj xs)"
proof -
  let ?ns = "\<lambda>p :: KvName \<times> KvRecord. name_namespace (fst p)"
  let ?es = "entries_of (kv_entries st)"
  let ?rows = "range_from (kv_entries st) (KvName start_after [])"
  let ?xs = "map ?ns (filter (\<lambda>p. start_after < ?ns p) ?es)"
  have pos: "0 < limit" using assms(2) by (auto simp: page_limit_def unat_gt_0 split: if_splits)
  have "sorted (map ?ns ?rows)"
    using sorted_range_from [of "kv_entries st" "KvName start_after []"] unfolding sorted_wrt_map
    by (rule sorted_wrt_mono_rel [rotated]) (auto simp: less_KvName_def)
  moreover have "length ?rows < 2 ^ 64"
    using length_filter_le [of "\<lambda>p. KvName start_after [] \<le> fst p" ?es] length_entries [OF assms(1)]
    unfolding range_from_def by linarith
  moreover have xs: "filter (\<lambda>x. x \<noteq> start_after) (map ?ns ?rows) = ?xs"
    unfolding range_from_def filter_map filter_filter o_def
    by (intro arg_cong [where f = "map ?ns"] filter_cong) (auto simp: less_eq_KvName_def)
  ultimately have "namespaces st start_after limit = Some (Inr (let (page, next) =
      cut_namespaces limit ?xs in \<lparr>ln_namespaces = page, ln_next_start_after = next\<rparr>))"
    using namespace_rows_spec [OF pos, of "[]" ?rows start_after]
    by (simp add: namespaces_def cut_namespaces_def)
  moreover have "sorted_wrt (<) (remdups_adj ?xs)"
    using \<open>sorted (map ?ns ?rows)\<close> sorted_remdups_adj_distinct [of ?xs] xs
    by (metis sorted_remdups_adj sorted_wrt_filter strict_sorted_iff)
  ultimately show ?thesis
    by (simp add: cut_namespaces_def ns_page_def ns_row_def Let_def take_map)
qed

section \<open>Witnesses\<close>

lemma page_limit_50: "page_limit 0 = Inr 50"
  by (simp add: page_limit_def)

lemma matching_one_value:
  "matching one_value ''ns'' [] [] =
    [(KvName ''ns'' ''a'', \<lparr>kr_body = [7], kr_etag = etag_for 1, kr_generation = 1\<rparr>)]"
proof -
  have "kv_entries one_value = bm_insert (KvName ''ns'' ''a'')
      \<lparr>kr_body = [7], kr_etag = etag_for 1, kr_generation = 1\<rparr> bm_empty"
    by (simp add: one_value_def one_client_facts kv_apply_mutation [OF put_a_request] session_def
        cached_mutation_def execute_def check_put_preconditions_def store_value_def
        alloc_generation_def checked_add_1 u64_max_def finish_def record_session_Some Let_def)
  then show ?thesis by (simp add: matching_def matches_def bm_eval)
qed

theorem list_page_spec_witness:
  "\<exists>page. entries one_value ''ns'' [] [] 50 = Some (Inr page)
    \<and> map hd_key (lr_entries page) = [''a''] \<and> lr_next_start_after page = []"
  using list_page_spec [OF one_value_facts(1) page_limit_50, of "''ns''" "[]" "[]"]
  by (simp add: matching_one_value head_of_def)

theorem list_pages_complete_witness:
  "map_option (map hd_key) (walk 1 one_value ''ns'' [] [] 50) = Some [''a'']"
  using list_pages_complete [OF one_value_facts(1) page_limit_50, of "''ns''" "[]" 1]
  by (simp add: matching_one_value head_of_def)

theorem namespaces_page_spec_witness:
  "namespaces kv_new [] 50 = Some (Inr \<lparr>ln_namespaces = [], ln_next_start_after = []\<rparr>)"
  using namespaces_page_spec [OF kv_inv_new page_limit_50, of "[]"]
  by (simp add: kv_new_def bm_eval)

end
