(* ===== verification/Service.thy ===== *)
theory Service
  imports RuntimeSpec Browse
begin

text \<open>
  The handlers of the public key-value service (\<open>basisdb-node/src/service.rs\<close>) with the request
  messages of \<open>kv.proto\<close>, on top of the runtime. A handler that waits takes as parameters what
  the other tasks of the node do in the meantime: \<open>others\<close> while it waits for its proposal,
  \<open>later\<close> until it has the lock of the key-value state. The sockets and the routing are not
  modelled.
\<close>

section \<open>Requests and responses\<close>

record HeadRequest =
  hq_namespace :: string
  hq_key :: string

record GetRequest =
  gq_namespace :: string
  gq_key :: string

record GetResponse =
  gr_namespace :: string
  gr_key :: string
  gr_etag :: string
  gr_generation :: u64
  gr_size :: u64
  gr_body :: bytes

record PutRequestMessage =
  pq_client_id :: u64
  pq_sequence :: u64
  pq_namespace :: string
  pq_key :: string
  pq_body :: bytes
  pq_if_match :: string
  pq_if_none_match :: bool

record DeleteRequestMessage =
  dq_client_id :: u64
  dq_sequence :: u64
  dq_namespace :: string
  dq_key :: string
  dq_if_match :: string

record StatusResponse =
  sr_node_id :: u64
  sr_mode :: string
  sr_key_count :: u64

record ListNamespacesRequest =
  lnq_start_after :: string
  lnq_limit :: u32

record ListRequest =
  lq_namespace :: string
  lq_prefix :: string
  lq_start_after :: string
  lq_limit :: u32

type_synonym Others = "RaftRuntime \<Rightarrow> RaftRuntime option"

type_synonym 'a Served = "((ConnectError + 'a) \<times> RaftRuntime) option"

section \<open>Handlers\<close>

text \<open>\<open>self.runtime.read_barrier().await?; let state = self.state.read().await;\<close> and then the answer.\<close>

definition after_barrier ::
    "Env \<Rightarrow> Others \<Rightarrow> Others \<Rightarrow> (KvState \<Rightarrow> (ConnectError + 'a) option) \<Rightarrow> RaftRuntime \<Rightarrow> 'a Served" where
  "after_barrier env others later answer rt = do {
     (r, rt) \<leftarrow> read_barrier env others rt;
     (case r of
        Inl e \<Rightarrow> Some (Inl e, rt)
      | Inr _ \<Rightarrow> do {
          rt \<leftarrow> later rt;
          res \<leftarrow> answer (rt_state rt);
          Some (res, rt) }) }"

text \<open>\<open>?\<close> in a handler.\<close>

definition or_return :: "RaftRuntime \<Rightarrow> (ConnectError + 'b) \<Rightarrow> ('b \<Rightarrow> 'a Served) \<Rightarrow> 'a Served" where
  "or_return rt r f = (case r of Inl e \<Rightarrow> Some (Inl e, rt) | Inr x \<Rightarrow> f x)"

definition list_namespaces ::
    "Env \<Rightarrow> Others \<Rightarrow> Others \<Rightarrow> ListNamespacesRequest \<Rightarrow> RaftRuntime \<Rightarrow> ListNamespacesResponse Served" where
  "list_namespaces env others later req rt =
    or_return rt (page_limit (lnq_limit req)) (\<lambda>limit.
    or_return rt (validate_namespace_cursor (lnq_start_after req)) (\<lambda>_.
      after_barrier env others later (\<lambda>state. namespaces state (lnq_start_after req) limit) rt))"

definition service_list ::
    "Env \<Rightarrow> Others \<Rightarrow> Others \<Rightarrow> ListRequest \<Rightarrow> RaftRuntime \<Rightarrow> ListResponse Served" where
  "service_list env others later req rt =
    or_return rt (page_limit (lq_limit req)) (\<lambda>limit.
    or_return rt (validate_list (lq_namespace req) (lq_prefix req) (lq_start_after req)) (\<lambda>_.
      after_barrier env others later (\<lambda>state.
        entries state (lq_namespace req) (lq_prefix req) (lq_start_after req) limit) rt))"

definition register_session :: "Env \<Rightarrow> Others \<Rightarrow> RaftRuntime \<Rightarrow> RegisterSessionResponse Served" where
  "register_session env others rt = do {
     (r, rt) \<leftarrow> runtime_propose env others RegisterSession rt;
     Some (case r of
             Inl e \<Rightarrow> Inl e
           | Inr (AppliedRegister response) \<Rightarrow> Inr response
           | Inr _ \<Rightarrow> Inl (ConnectError Internal ''Raft session command mismatch''), rt) }"

definition service_head ::
    "Env \<Rightarrow> Others \<Rightarrow> Others \<Rightarrow> HeadRequest \<Rightarrow> RaftRuntime \<Rightarrow> HeadResponse Served" where
  "service_head env others later req rt =
    or_return rt (kv_name_new (hq_namespace req) (hq_key req)) (\<lambda>name.
      after_barrier env others later (\<lambda>state.
        Some (case bm_get (kv_entries state) name of
                None \<Rightarrow> Inl key_not_found
              | Some r \<Rightarrow>
                  try_bind (body_len (kr_body r)) (\<lambda>sz.
                    Inr \<lparr>hd_namespace = name_namespace name, hd_key = name_key name, hd_etag = kr_etag r,
                      hd_generation = kr_generation r, hd_size = sz\<rparr>))) rt)"

definition service_get ::
    "Env \<Rightarrow> Others \<Rightarrow> Others \<Rightarrow> GetRequest \<Rightarrow> RaftRuntime \<Rightarrow> GetResponse Served" where
  "service_get env others later req rt =
    or_return rt (kv_name_new (gq_namespace req) (gq_key req)) (\<lambda>name.
      after_barrier env others later (\<lambda>state.
        Some (case bm_get (kv_entries state) name of
                None \<Rightarrow> Inl key_not_found
              | Some r \<Rightarrow>
                  try_bind (body_len (kr_body r)) (\<lambda>sz.
                    Inr \<lparr>gr_namespace = name_namespace name, gr_key = name_key name, gr_etag = kr_etag r,
                      gr_generation = kr_generation r, gr_size = sz, gr_body = kr_body r\<rparr>))) rt)"

definition service_put :: "Env \<Rightarrow> Others \<Rightarrow> PutRequestMessage \<Rightarrow> RaftRuntime \<Rightarrow> PutResponse Served" where
  "service_put env others req rt =
    or_return rt (validate_mutation_request (pq_client_id req) (pq_sequence req)) (\<lambda>_.
    or_return rt (validate_put_preconditions (pq_if_match req) (pq_if_none_match req)) (\<lambda>_.
    or_return rt (validate_value (pq_body req)) (\<lambda>_.
    or_return rt (kv_name_new (pq_namespace req) (pq_key req)) (\<lambda>_. do {
      (r, rt) \<leftarrow> runtime_propose env others
        (Put (pq_client_id req) (pq_sequence req) (pq_namespace req) (pq_key req) (pq_body req)
          (pq_if_match req) (pq_if_none_match req)) rt;
      Some (case r of
              Inl e \<Rightarrow> Inl e
            | Inr (AppliedPut response) \<Rightarrow> Inr response
            | Inr _ \<Rightarrow> Inl (ConnectError Internal ''Raft put command mismatch''), rt) }))))"

definition service_delete ::
    "Env \<Rightarrow> Others \<Rightarrow> DeleteRequestMessage \<Rightarrow> RaftRuntime \<Rightarrow> DeleteResponse Served" where
  "service_delete env others req rt =
    or_return rt (validate_mutation_request (dq_client_id req) (dq_sequence req)) (\<lambda>_.
    or_return rt (validate_etag (dq_if_match req)) (\<lambda>_.
    or_return rt (kv_name_new (dq_namespace req) (dq_key req)) (\<lambda>_. do {
      (r, rt) \<leftarrow> runtime_propose env others
        (Delete (dq_client_id req) (dq_sequence req) (dq_namespace req) (dq_key req) (dq_if_match req)) rt;
      Some (case r of
              Inl e \<Rightarrow> Inl e
            | Inr (AppliedDelete response) \<Rightarrow> Inr response
            | Inr _ \<Rightarrow> Inl (ConnectError Internal ''Raft delete command mismatch''), rt) })))"

definition usize_to_u64 :: "nat \<Rightarrow> ConnectError + u64" where
  "usize_to_u64 value =
    (if fits_u64 value then Inr (of_nat value)
     else Inl (ConnectError ResourceExhausted ''key count overflow''))"

definition service_status :: "Others \<Rightarrow> RaftRuntime \<Rightarrow> StatusResponse Served" where
  "service_status later rt = do {
     let node_mode = mode rt;
     rt \<leftarrow> later rt;
     Some (try_bind (usize_to_u64 (length (entries_of (kv_entries (rt_state rt))))) (\<lambda>key_count.
       Inr \<lparr>sr_node_id = node_num (nc_node_id (rt_config rt)), sr_mode = node_mode,
            sr_key_count = key_count\<rparr>), rt) }"

text \<open>The start of \<open>launch\<close>: the runtime over an empty key-value state.\<close>

definition launch_runtime ::
    "Env \<Rightarrow> NodeConfig \<Rightarrow> World \<Rightarrow> ((RuntimeError + RaftRuntime) \<times> World) option" where
  "launch_runtime env cfg w = runtime_open env cfg kv_new w"

section \<open>Reads\<close>

lemma kv_apply_barrier: "snd (kv_apply st c) = Inr AppliedReadBarrier \<Longrightarrow> c = ReadBarrier"
  by (cases c)
     (auto simp: kv_apply_def apply_put_def apply_delete_def store_value_def reject_def finish_def Let_def
       split: sum.splits prod.splits option.splits if_splits)

lemma answered_barrier:
  assumes "answered env st es (i, Inr AppliedReadBarrier)"
  shows "\<exists>pre e post. es = pre @ e # post \<and> command_from_slice env (command_bytes (ce_command e)) = Some ReadBarrier"
proof -
  obtain pre e post p where "es = pre @ e # post"
    and c: "(i, Inr AppliedReadBarrier) =
      complete p (ce_command e) (snd (apply_command env (ce_command e) (applied_state env pre st)))"
    using assms unfolding answered_def by blast
  moreover from c have "snd (apply_command env (ce_command e) (applied_state env pre st)) = Inr AppliedReadBarrier"
    by (auto simp: complete_def split: if_splits)
  ultimately show ?thesis by (auto simp: apply_command_def split: option.splits dest: kv_apply_barrier)
qed

text \<open>The other tasks only do what tasks of the runtime do.\<close>

definition well_behaved :: "Env \<Rightarrow> Others \<Rightarrow> bool" where
  "well_behaved env others \<longleftrightarrow> (\<forall>a b. others a = Some b \<longrightarrow> (\<exists>adm. interleaved env a adm b))"

lemma propose_locked_id:
  assumes "propose_locked env i bs rt = Some (Inr cleanup, rt')"
  shows "pc_id cleanup = i"
proof -
  obtain n r where p: "propose (rt_node rt) (Command bs) = Some (n, r)"
    using assms by (auto simp: propose_locked_def bind_eq_Some_conv)
  with assms obtain index eff where r: "r = Inr (index, eff)" by (cases r) (auto simp: propose_locked_def)
  let ?base = "rt\<lparr>rt_node := n, rt_waiters := (rt_waiters rt)(index \<mapsto> \<lparr>pp_id = i, pp_command = bs\<rparr>)\<rparr>"
  obtain r1 rt1 where "handle_node_effects env eff ?base = Some (r1, rt1)"
    using assms p r by (auto simp: propose_locked_def bind_eq_Some_conv)
  with assms p r show ?thesis by (cases r1) (auto simp: propose_locked_def)
qed

lemma read_barrier_applied:
  assumes rb: "read_barrier env others rt = Some (Inr (), rt2)" and o: "well_behaved env others"
    and ids: "ids_inv adm rt"
  shows "\<exists>pre e post. applies env (pre @ e # post) rt rt2
    \<and> command_from_slice env (command_bytes (ce_command e)) = Some ReadBarrier"
proof -
  from rb obtain res where r: "runtime_propose env others ReadBarrier rt = Some (res, rt2)"
    "(case res of Inl e \<Rightarrow> Inl e | Inr AppliedReadBarrier \<Rightarrow> Inr ()
       | Inr _ \<Rightarrow> Inl (ConnectError Internal ''Raft read barrier mismatch'')) = Inr ()"
    by (auto simp: read_barrier_def)
  then have rp: "runtime_propose env others ReadBarrier rt = Some (Inr AppliedReadBarrier, rt2)"
    by (auto split: sum.split_asm KvApplyResult.split_asm)
  then obtain r1 rt1 where "propose_start env ReadBarrier rt = Some (r1, rt1)"
    by (auto simp: runtime_propose_def bind_eq_Some_conv)
  with rp obtain cleanup rt3 where ps: "propose_start env ReadBarrier rt = Some (Inr cleanup, rt1)"
    "others rt1 = Some rt3" "propose_finish cleanup rt3 = (Inr AppliedReadBarrier, rt2)"
    by (cases r1) (auto simp: runtime_propose_def bind_eq_Some_conv)
  have id: "pc_id cleanup = next_proposal_id rt"
    using ps(1) by (auto simp: propose_start_def split: if_splits option.splits dest: propose_locked_id)
  obtain adm1 where "interleaved env rt1 adm1 rt3" using o ps(2) unfolding well_behaved_def by blast
  from interleaved_trans [OF this propose_start_interleaved [OF interleaved.start ps(1)]]
  obtain es where es: "applies env es rt rt3" using interleaved_applies by blast
  then obtain new where new: "rt_replies rt3 = rt_replies rt @ new" "\<forall>x \<in> set new. answered env (rt_state rt) es x"
    by (auto simp: applies_def)
  have fin: "await_reply cleanup rt3 = Inr AppliedReadBarrier" "rt_state rt2 = rt_state rt3" "rt_replies rt2 = rt_replies rt3"
    using ps(3) by (auto simp: propose_finish_def remove_pending_sel)
  then have "map_of (rt_replies rt3) (pc_id cleanup) = Some (Inr AppliedReadBarrier)"
    by (auto simp: await_reply_def split: option.splits if_splits)
  then have "(next_proposal_id rt, Inr AppliedReadBarrier) \<in> set (rt_replies rt @ new)"
    using map_of_SomeD new(1) id by fastforce
  moreover have "next_proposal_id rt \<notin> fst ` set (rt_replies rt)" using ids by (auto simp: ids_inv_def)
  ultimately have "(next_proposal_id rt, Inr AppliedReadBarrier) \<in> set new" by force
  with new(2) answered_barrier obtain pre e post where "es = pre @ e # post"
    "command_from_slice env (command_bytes (ce_command e)) = Some ReadBarrier" by blast
  with es fin(2,3) show ?thesis by (auto simp: applies_def)
qed

lemma after_barrier_applied:
  assumes "after_barrier env others later answer rt = Some (Inr x, rt')"
    and "well_behaved env others" "well_behaved env later" "ids_inv adm rt"
  shows "\<exists>pre e post. rt_state rt' = applied_state env (pre @ e # post) (rt_state rt)
    \<and> command_from_slice env (command_bytes (ce_command e)) = Some ReadBarrier \<and> answer (rt_state rt') = Some (Inr x)"
proof -
  from assms(1) obtain res rt2 where r: "read_barrier env others rt = Some (res, rt2)"
    by (auto simp: after_barrier_def bind_eq_Some_conv)
  with assms(1) have a: "read_barrier env others rt = Some (Inr (), rt2)" "later rt2 = Some rt'"
    "answer (rt_state rt') = Some (Inr x)"
    by (cases res; auto simp: after_barrier_def bind_eq_Some_conv)+
  from read_barrier_applied [OF a(1) assms(2,4)] obtain pre e post where p: "applies env (pre @ e # post) rt rt2"
    "command_from_slice env (command_bytes (ce_command e)) = Some ReadBarrier" by blast
  obtain adm2 es where "applies env es rt2 rt'"
    using assms(3) a(2) interleaved_applies unfolding well_behaved_def by blast
  from applies_trans [OF p(1) this] p(2) a(3) show ?thesis by (auto simp: applies_def)
qed

section \<open>Properties\<close>



section \<open>A read of a running node\<close>

definition one_record :: KvState where
  "one_record = kv_new\<lparr>kv_entries := bm_insert (KvName ''ns'' ''a'')
     \<lparr>kr_body = [7], kr_etag = etag_for 1, kr_generation = 1\<rparr> bm_empty\<rparr>"

definition solo_read :: "(RaftRuntime \<times> RaftRuntime \<times> (ConnectError + unit) \<times> RaftRuntime) option" where
  "solo_read = do {
     (r, w) \<leftarrow> runtime_open full_env solo_config one_record empty_world;
     (case r of
        Inl _ \<Rightarrow> None
      | Inr rt0 \<Rightarrow> do {
          rt1 \<leftarrow> run_ticks full_env 5 rt0;
          (r, rt2) \<leftarrow> read_barrier full_env Some rt1;
          Some (rt0, rt1, r, rt2) }) }"

lemma solo_read_eval:
  "map_option (\<lambda>(rt0, rt1, r, rt2). (r, bm_get (kv_entries (rt_state rt2)) (KvName ''ns'' ''a''))) solo_read =
   Some (Inr (), Some \<lparr>kr_body = [7], kr_etag = etag_for 1, kr_generation = 1\<rparr>)"
  by code_simp


end
