(* ===== verification/Spec2Isabelle.thy ===== *)
theory Spec2Isabelle
  imports Scenarios Session ReadIndex Election WalDir Service
begin

text \<open>
  Verification of BasisDB, a replicated key-value store in Rust.

  \<^bold>\<open>The program.\<close> A node (\<open>basisdb-node\<close>) serves a key-value API, keeps its key-value state in step with
  the other nodes by Raft (\<open>consensus/basisdb-raft\<close>), and keeps the Raft state in a write-ahead log
  (\<open>basisdb-wal\<close>). A request reaches a handler of the service, which proposes a command to the runtime;
  the runtime steps the Raft node under a lock, saves the persistent state when the effects of the
  step ask for it, sends the messages, applies the committed commands to the key-value state and
  answers the proposals that waited for them. Messages travel between nodes as signed HTTP requests.
  \<open>consensus/basisdb-raft-io\<close> holds two helpers for programs that embed Raft.

  \<^bold>\<open>The theories\<close>, with the files under \<open>src/\<close> that they model.

  \<^item> \<open>Prelude\<close>, \<open>Collections\<close>, \<open>Text\<close>: machine integers, \<open>BTreeSet\<close> and \<open>BTreeMap\<close> with the locales
    \<open>ordered_set\<close> and \<open>ordered_map\<close> that state their contracts, strings and decimal numbers.
  \<^item> \<open>Membership\<close> (\<open>raft/membership.rs\<close>, \<open>basisdb-raft/src/lib.rs\<close>), with the locale \<open>quorum_system\<close>;
    \<open>RaftLog\<close> (\<open>raft/log.rs\<close>), \<open>RaftEvent\<close> (\<open>raft/event.rs\<close>), \<open>RaftCore\<close> (\<open>raft/core.rs\<close>).
  \<^item> \<open>Follower\<close>, \<open>PreCandidate\<close>, \<open>Candidate\<close>, \<open>Leader\<close> (the files of these names in \<open>raft/\<close>): one definition
    per handler, named after the role and the method (\<open>follower_handle_append_request\<close>). \<open>RaftNode\<close>
    (\<open>raft/mod.rs\<close>): dispatch to the role, role transitions, proposals, committed entries.
  \<^item> \<open>LeaderSpec\<close>, \<open>Election\<close>, \<open>Persist\<close>: the commit loop, progress of an election, and the meaning of the
    persist flag. \<open>Cluster\<close>: nodes over an asynchronous network with crashes, as an inductive step
    relation. \<open>Scenarios\<close>: executions of three nodes.
  \<^item> \<open>WalFormat\<close> (\<open>record.rs\<close>, \<open>error.rs\<close>, \<open>format.rs\<close>), \<open>WalSegment\<close> (\<open>segment.rs\<close>), \<open>Wal\<close> (\<open>wal.rs\<close>),
    \<open>WalInv\<close>, \<open>WalSpec\<close>, \<open>WalDir\<close>: the write-ahead log, its invariant and properties, and its directory.
  \<^item> \<open>Kv\<close> (\<open>basisdb-node/src/command.rs\<close>, messages of \<open>kv.proto\<close>), \<open>Browse\<close> (\<open>browse.rs\<close>), \<open>Auth\<close>
    (\<open>auth.rs\<close>), \<open>NodeConf\<close> (\<open>config.rs\<close>, and \<open>parse_node_config\<close> of \<open>basisdb/src/main.rs\<close>), \<open>Store\<close>
    (\<open>store.rs\<close>), \<open>Transport\<close> (\<open>transport.rs\<close>), \<open>Runtime\<close> (\<open>runtime.rs\<close>), \<open>Service\<close> (\<open>service.rs\<close>).
  \<^item> \<open>RuntimeInv\<close>, \<open>Interleave\<close>, \<open>Refinement\<close>, \<open>RuntimeSpec\<close>: what one operation of the runtime does, the
    interleaving of its tasks, its relation to \<open>Cluster\<close>, and its properties.
  \<^item> \<open>Session\<close>, \<open>ReadIndex\<close> (\<open>basisdb-raft-io/src/session.rs\<close>, \<open>read_index.rs\<close>).

  \<^bold>\<open>Correspondence.\<close> A struct is a record, an enum a datatype. A method that takes \<open>&mut self\<close> returns the
  updated state. An \<open>Err\<close> is \<open>Inl\<close>. A panic is \<open>None\<close>. Integers are words and wrap, as in the release
  build. The file system is a record with the contents, what of them is synced, and a script of the
  outcomes of the calls to come; a property that quantifies over the script holds for every pattern
  of failing, short and interrupted calls. A crash keeps of each file a prefix that contains its
  synced bytes. An \<open>async\<close> operation is cut where it can be interleaved, at the machine lock, and
  where its task can be dropped, in the loop that applies entries (\<open>apply_some\<close>, \<open>handle_cancelled\<close>).

  \<^bold>\<open>What is shown.\<close>

  \<^item> Raft: one leader per term and one vote per term in every execution with a fixed membership; the
    handlers of append and vote requests; the commit rule and that the commit loop returns; that an
    election with enough votes ends with a leader; overlapping quorums across configuration changes;
    the log as a partial map.
  \<^item> Durability: records and saved states survive crashes, opening recovers a torn log, encoding and
    deltas round-trip, a delta that is read never builds a bad state, and the directory of the log
    is as durable as the log.
  \<^item> The node: it saves before it sends; its operations are steps of the cluster, also when their task
    is dropped, and over a crash and a restart; committed commands are applied in order and every
    proposal is answered at most once; messages in flight are bounded; only peers reach the state
    machine; a parsed configuration starts.
  \<^item> The key-value service: mutations are executed at most once and retries get the first answer; an
    ETag names one version; a read is answered after its barrier; pages are complete; the service and
    the state machine refuse the same puts.
  \<^item> Defects of the code, each by an execution of the model: two nodes commit different entries
    (\<open>state_machine_safety_fails\<close>), a failed runtime acknowledges what it did not store, a late read
    joins a round that began before it, a failed rotation makes the log unreadable, and a repeated
    opening does not sync a directory that the first one made.

  \<^bold>\<open>Scope of the theorems.\<close> The first of these defects means that the code does not have Raft's log
  agreement across nodes, so no such theorem is here: the cluster properties concern terms, votes and
  leaders. \<open>Cluster\<close> has a fixed membership; configuration changes are covered by \<open>Membership\<close> and the
  handlers. The refinement theorems have as hypotheses that the cluster represents the runtime and,
  for the crash, that the state to be saved may follow the durable one.

  \<^bold>\<open>Parameters.\<close> CRC-32 and HMAC-SHA-256, the JSON codecs (decoding inverts encoding, where a property
  needs it), the TOML parser, reading the configuration file, host name lookup, the current
  directory, the HTTP exchange with a peer and the text of errors are arguments of the definitions. The
  handlers of \<open>Service\<close> take as arguments what the other tasks do while they wait.

  \<^bold>\<open>Loops.\<close> Two loops are partial functions, \<open>commit_loop\<close> and \<open>apply_committed\<close>, and both are proved to
  return on a well-formed log, the first when there is room for the entries it appends. All other
  loops are structural or come with a termination proof; no definition takes fuel.

  \<^bold>\<open>Not modelled.\<close> Sockets, routing, \<open>/healthz\<close> and HTTP framing (I/O of libraries); the sleep between
  ticks and the time-out of a proposal, which are choices of the interleaving; the command line,
  tracing and \<open>main\<close>; \<open>Display\<close> texts; the traits of \<open>basisdb-raft-io\<close>, which have no code; \<open>basisdb-core\<close>
  (wrappers and re-exports) and the generated code of \<open>basisdb-proto\<close>. The directory tree of \<open>WalDir\<close> is
  separate from the \<open>World\<close> of the files in the log directory, and \<open>store_open\<close> starts from the latter.
  The browser console (\<open>console/\<close>, TypeScript), the Jepsen test (\<open>jepsen/\<close>, Clojure) and the Rust
  tests are clients of the program and not part of it; \<open>spec/\<close> and \<open>docs/\<close> are prose.
\<close>

end
